(* ===== verification/Xv6_Prelude.thy ===== *)
theory Xv6_Prelude
  imports Main "HOL-Library.Word"
begin

text \<open>
  Shared vocabulary of the development: the machine types of \<^verbatim>\<open>types.h\<close>, the size
  constants of \<^verbatim>\<open>param.h\<close> and \<^verbatim>\<open>fs.h\<close>, the outcome type every kernel operation
  returns, and the generic lemmas the component theories use.

  A kernel routine is a function from the kernel state to an outcome. It can return a
  value with a new state (\<open>Done\<close>), stop the machine (\<open>Panic\<close>, the \<^verbatim>\<open>panic()\<close> calls),
  give the processor up inside \<^verbatim>\<open>sched()\<close> (\<open>Switch\<close>), or spin on a lock another processor
  holds (\<open>Spin\<close>, the loop of \<^verbatim>\<open>acquire()\<close>).
\<close>

section \<open>Machine types\<close>

type_synonym uint = "32 word"
type_synonym ushort = "16 word"
type_synonym uchar = "8 word"
type_synonym addr = "32 word"
type_synonym memory = "addr \<Rightarrow> uchar"

lemma unat_lt: "unat (w :: uint) < 2 ^ 32"
  by (rule order_less_le_trans [OF unsigned_less]) simp

lemma unat_add_small: "unat (a :: uint) + unat b < 2 ^ 32 \<Longrightarrow> unat (a + b) = unat a + unat b"
  by (subst unat_add_lem [THEN iffD1]) simp_all

section \<open>Sizes\<close>

definition NPROC :: nat where "NPROC = 64"
definition KSTACKSIZE :: nat where "KSTACKSIZE = 4096"
definition NCPU :: nat where "NCPU = 8"
definition NOFILE :: nat where "NOFILE = 16"
definition NFILE :: nat where "NFILE = 100"
definition NINODE :: nat where "NINODE = 50"
definition NDEV :: nat where "NDEV = 10"
definition ROOTDEV :: uint where "ROOTDEV = 1"
definition MAXARG :: nat where "MAXARG = 32"
definition MAXOPBLOCKS :: nat where "MAXOPBLOCKS = 10"
definition LOGSIZE :: nat where "LOGSIZE = MAXOPBLOCKS * 3"
definition NBUF :: nat where "NBUF = MAXOPBLOCKS * 3"
definition FSSIZE :: nat where "FSSIZE = 1000"

lemmas param_defs = NPROC_def KSTACKSIZE_def NCPU_def NOFILE_def NFILE_def NINODE_def NDEV_def
  ROOTDEV_def MAXARG_def MAXOPBLOCKS_def LOGSIZE_def NBUF_def FSSIZE_def

section \<open>Outcomes of kernel routines\<close>

datatype ('s, 'a) outcome = Done 'a 's | Panic string | Switch 's | Spin 's

fun bindK :: "('s, 'a) outcome \<Rightarrow> ('a \<Rightarrow> 's \<Rightarrow> ('s, 'b) outcome) \<Rightarrow> ('s, 'b) outcome" where
  "bindK (Done a s) f = f a s"
| "bindK (Panic m) f = Panic m"
| "bindK (Switch s) f = Switch s"
| "bindK (Spin s) f = Spin s"

lemma bindK_cong [fundef_cong]:
  assumes "m = m'" and "\<And>a s. m' = Done a s \<Longrightarrow> f a s = g a s"
  shows "bindK m f = bindK m' g"
  using assms by (cases m') auto

lemma bindK_Done_iff:
  "bindK m f = Done b t \<longleftrightarrow> (\<exists>a s. m = Done a s \<and> f a s = Done b t)"
  by (cases m) auto

lemma bindK_Panic_iff:
  "bindK m f = Panic e \<longleftrightarrow> m = Panic e \<or> (\<exists>a s. m = Done a s \<and> f a s = Panic e)"
  by (cases m) auto

lemma bindK_Switch_iff:
  "bindK m f = Switch t \<longleftrightarrow> m = Switch t \<or> (\<exists>a s. m = Done a s \<and> f a s = Switch t)"
  by (cases m) auto

lemma bindK_assoc: "bindK (bindK m f) g = bindK m (\<lambda>a s. bindK (f a s) g)"
  by (cases m) auto

lemma bindK_if: "bindK (if b then m else n) f = (if b then bindK m f else bindK n f)"
  by simp

lemma bindK_let: "bindK (let x = v in m x) f = (let x = v in bindK (m x) f)"
  by simp

lemmas bindK_iffs = bindK_Done_iff bindK_Panic_iff bindK_Switch_iff

section \<open>Searching a table\<close>

text \<open>
  The kernel's tables are scanned from index 0 for the first entry that satisfies a test.
\<close>

fun scan_from :: "nat \<Rightarrow> ('a \<Rightarrow> bool) \<Rightarrow> 'a list \<Rightarrow> nat option" where
  "scan_from i P [] = None"
| "scan_from i P (x # xs) = (if P x then Some i else scan_from (Suc i) P xs)"

abbreviation scan :: "('a \<Rightarrow> bool) \<Rightarrow> 'a list \<Rightarrow> nat option" where
  "scan P xs \<equiv> scan_from 0 P xs"

lemma scan_from_None: "scan_from i P xs = None \<longleftrightarrow> (\<forall>x \<in> set xs. \<not> P x)"
  by (induction xs arbitrary: i) auto

lemma scan_from_Some:
  "scan_from i P xs = Some j \<longleftrightarrow>
     i \<le> j \<and> j - i < length xs \<and> P (xs ! (j - i)) \<and> (\<forall>k < j - i. \<not> P (xs ! k))"
proof (induction xs arbitrary: i)
  case Nil
  then show ?case by simp
next
  case (Cons x xs)
  show ?case
  proof (cases "P x")
    case True
    have "(\<forall>k < j - i. \<not> P ((x # xs) ! k)) \<longleftrightarrow> j - i = 0"
      using True by (metis gr0I not_less_zero nth_Cons_0)
    then show ?thesis using True by auto
  next
    case False
    show ?thesis
    proof (cases "j \<le> i")
      case True
      then show ?thesis using False Cons.IH [of "Suc i"] by auto
    next
      case gt: False
      then obtain d where d: "j - i = Suc d" "j - Suc i = d"
        by (metis Suc_diff_Suc not_le)
      have "(\<forall>k < Suc d. \<not> P ((x # xs) ! k)) \<longleftrightarrow> (\<forall>k < d. \<not> P (xs ! k))"
        using False by (auto simp: less_Suc_eq_0_disj)
      then show ?thesis using False gt d Cons.IH [of "Suc i"] by auto
    qed
  qed
qed

lemma scan_Some:
  "scan P xs = Some j \<longleftrightarrow> j < length xs \<and> P (xs ! j) \<and> (\<forall>k < j. \<not> P (xs ! k))"
  by (simp add: scan_from_Some)

lemma scan_None_nth: "scan P xs = None \<longleftrightarrow> (\<forall>k < length xs. \<not> P (xs ! k))"
  by (metis scan_from_None in_set_conv_nth)

lemma scan_SomeD: "scan P xs = Some j \<Longrightarrow> j < length xs \<and> P (xs ! j)"
  by (simp add: scan_Some)

end
