(* ===== verification/Spinlock.thy ===== *)
theory Spinlock
  imports Xv6_Prelude
begin

text \<open>
  Processors, the interrupt flag and spin locks (\<^verbatim>\<open>spinlock.c\<close>, with \<^verbatim>\<open>mycpu\<close>,
  \<^verbatim>\<open>cpuid\<close> and \<^verbatim>\<open>myproc\<close> of \<^verbatim>\<open>proc.c\<close> and the instructions of \<^verbatim>\<open>x86.h\<close> they use).

  The state \<open>'k machine\<close> is what every kernel routine runs on: the processor that executes
  the routine (its local APIC id), the interrupt flag of every processor, the
  \<^verbatim>\<open>cpus\<close> table, the spin locks, and \<open>kern\<close>, the data the other components keep.
  The call stack a lock records for debugging (\<^verbatim>\<open>pcs\<close>) is left out; no code reads it.
\<close>

section \<open>State\<close>

datatype lockid = Ptable_lk | Kmem_lk | Bcache_lk | Ide_lk | Log_lk | Icache_lk | Ftable_lk
  | Ticks_lk | Cons_lk | Pipe_lk addr | Buf_lk nat | Inode_lk nat

record cpu =
  apicid :: uchar
  ncli :: int
  intena :: bool
  cproc :: "nat option"

record spinlock =
  locked :: uint
  lkname :: string
  lkcpu :: "nat option"

record 'k machine =
  lapic_id :: uchar
  eflags_IF :: "uchar \<Rightarrow> bool"
  cpus :: "cpu list"
  locks :: "lockid \<Rightarrow> spinlock"
  kern :: 'k

abbreviation IF :: "'k machine \<Rightarrow> bool" where
  "IF s \<equiv> eflags_IF s (lapic_id s)"

definition upd_kern :: "('k \<Rightarrow> 'k) \<Rightarrow> 'k machine \<Rightarrow> 'k machine" where
  "upd_kern f s = s\<lparr>kern := f (kern s)\<rparr>"

section \<open>Operations\<close>

definition cli :: "'k machine \<Rightarrow> 'k machine" where
  "cli s = s\<lparr>eflags_IF := (eflags_IF s)(lapic_id s := False)\<rparr>"

definition sti :: "'k machine \<Rightarrow> 'k machine" where
  "sti s = s\<lparr>eflags_IF := (eflags_IF s)(lapic_id s := True)\<rparr>"

definition mycpu :: "'k machine \<Rightarrow> ('k machine, nat) outcome" where
  "mycpu s =
     (if IF s then Panic (''mycpu called with interrupts enabled'' @ [CHR 0x0A])
      else case scan (\<lambda>c. apicid c = lapic_id s) (cpus s) of
             Some i \<Rightarrow> Done i s
           | None \<Rightarrow> Panic (''unknown apicid'' @ [CHR 0x0A]))"

definition pushcli :: "'k machine \<Rightarrow> ('k machine, unit) outcome" where
  "pushcli s =
     (let eflags = IF s in
      bindK (mycpu (cli s)) (\<lambda>i s.
        let c = cpus s ! i;
            c = (if ncli c = 0 then c\<lparr>intena := eflags\<rparr> else c)
        in Done () (s\<lparr>cpus := (cpus s)[i := c\<lparr>ncli := ncli c + 1\<rparr>]\<rparr>)))"

definition popcli :: "'k machine \<Rightarrow> ('k machine, unit) outcome" where
  "popcli s =
     (if IF s then Panic ''popcli - interruptible''
      else bindK (mycpu s) (\<lambda>i s.
        let c = (cpus s ! i)\<lparr>ncli := ncli (cpus s ! i) - 1\<rparr>;
            s = s\<lparr>cpus := (cpus s)[i := c]\<rparr>
        in if ncli c < 0 then Panic ''popcli''
           else if ncli c = 0 \<and> intena c then Done () (sti s)
           else Done () s))"

definition holding :: "lockid \<Rightarrow> 'k machine \<Rightarrow> ('k machine, bool) outcome" where
  "holding l s =
     bindK (pushcli s) (\<lambda>_ s.
     bindK (mycpu s) (\<lambda>i s.
       let r = (locked (locks s l) \<noteq> 0 \<and> lkcpu (locks s l) = Some i) in
     bindK (popcli s) (\<lambda>_ s. Done r s)))"

definition initlock :: "lockid \<Rightarrow> string \<Rightarrow> 'k machine \<Rightarrow> 'k machine" where
  "initlock l name s =
     s\<lparr>locks := (locks s)(l := (locks s l)\<lparr>lkname := name, locked := 0, lkcpu := None\<rparr>)\<rparr>"

definition xchg_locked :: "lockid \<Rightarrow> uint \<Rightarrow> 'k machine \<Rightarrow> uint \<times> 'k machine" where
  "xchg_locked l v s =
     (locked (locks s l), s\<lparr>locks := (locks s)(l := (locks s l)\<lparr>locked := v\<rparr>)\<rparr>)"

definition acquire :: "lockid \<Rightarrow> 'k machine \<Rightarrow> ('k machine, unit) outcome" where
  "acquire l s =
     bindK (pushcli s) (\<lambda>_ s.
     bindK (holding l s) (\<lambda>h s.
       if h then Panic ''acquire''
       else case xchg_locked l 1 s of (old, s) \<Rightarrow>
         if old \<noteq> 0 then Spin s
         else bindK (mycpu s) (\<lambda>i s.
           Done () (s\<lparr>locks := (locks s)(l := (locks s l)\<lparr>lkcpu := Some i\<rparr>)\<rparr>))))"

definition release :: "lockid \<Rightarrow> 'k machine \<Rightarrow> ('k machine, unit) outcome" where
  "release l s =
     bindK (holding l s) (\<lambda>h s.
       if \<not> h then Panic ''release''
       else let s = s\<lparr>locks := (locks s)(l := (locks s l)\<lparr>lkcpu := None\<rparr>)\<rparr>;
                s = s\<lparr>locks := (locks s)(l := (locks s l)\<lparr>locked := 0\<rparr>)\<rparr>
            in popcli s)"

definition myproc :: "'k machine \<Rightarrow> ('k machine, nat option) outcome" where
  "myproc s =
     bindK (pushcli s) (\<lambda>_ s.
     bindK (mycpu s) (\<lambda>i s.
       let p = cproc (cpus s ! i) in
     bindK (popcli s) (\<lambda>_ s. Done p s)))"

section \<open>Well-formed processors\<close>

text \<open>
  \<open>cpu_ok\<close>: the executing processor is in the table, its nesting depth is not negative, and
  interrupts are off whenever the depth is positive. \<open>this s\<close> is its index.
\<close>

definition this :: "'k machine \<Rightarrow> nat" where
  "this s = the (scan (\<lambda>c. apicid c = lapic_id s) (cpus s))"

abbreviation mycli :: "'k machine \<Rightarrow> int" where
  "mycli s \<equiv> ncli (cpus s ! this s)"

definition cpu_ok :: "'k machine \<Rightarrow> bool" where
  "cpu_ok s \<longleftrightarrow>
     scan (\<lambda>c. apicid c = lapic_id s) (cpus s) = Some (this s) \<and>
     0 \<le> mycli s \<and> (0 < mycli s \<longrightarrow> \<not> IF s)"

definition lk_free :: "lockid \<Rightarrow> 'k machine \<Rightarrow> bool" where
  "lk_free l s \<longleftrightarrow> locked (locks s l) = 0"

definition lk_mine :: "lockid \<Rightarrow> 'k machine \<Rightarrow> bool" where
  "lk_mine l s \<longleftrightarrow> locked (locks s l) \<noteq> 0 \<and> lkcpu (locks s l) = Some (this s)"

text \<open>The state after a successful \<^verbatim>\<open>pushcli\<close>, \<^verbatim>\<open>popcli\<close>, \<^verbatim>\<open>acquire\<close> and \<^verbatim>\<open>release\<close>.\<close>

definition pushed :: "'k machine \<Rightarrow> 'k machine" where
  "pushed s = (cli s)\<lparr>cpus := (cpus s)[this s := (cpus s ! this s)
     \<lparr>intena := (if mycli s = 0 then IF s else intena (cpus s ! this s)), ncli := mycli s + 1\<rparr>]\<rparr>"

definition popped :: "'k machine \<Rightarrow> 'k machine" where
  "popped s = (if mycli s = 1 \<and> intena (cpus s ! this s) then sti s else s)
     \<lparr>cpus := (cpus s)[this s := (cpus s ! this s)\<lparr>ncli := mycli s - 1\<rparr>]\<rparr>"

definition set_lock :: "lockid \<Rightarrow> uint \<Rightarrow> nat option \<Rightarrow> 'k machine \<Rightarrow> 'k machine" where
  "set_lock l v c s = s\<lparr>locks := (locks s)(l := (locks s l)\<lparr>locked := v, lkcpu := c\<rparr>)\<rparr>"

definition acq :: "lockid \<Rightarrow> 'k machine \<Rightarrow> 'k machine" where
  "acq l s = set_lock l 1 (Some (this s)) (pushed s)"

definition rel :: "lockid \<Rightarrow> 'k machine \<Rightarrow> 'k machine" where
  "rel l s = popped (set_lock l 0 None s)"

definition touch :: "'k machine \<Rightarrow> 'k machine" where
  "touch s = (if mycli s = 0
     then s\<lparr>cpus := (cpus s)[this s := (cpus s ! this s)\<lparr>intena := IF s\<rparr>]\<rparr> else s)"

section \<open>Interrupt nesting\<close>

lemma scan_apicid_update:
  "apicid c = apicid (cs ! i) \<Longrightarrow>
     scan_from k (\<lambda>c. apicid c = a) (cs[i := c]) = scan_from k (\<lambda>c. apicid c = a) cs"
proof (induction cs arbitrary: i k)
  case Nil
  then show ?case by simp
next
  case (Cons d cs)
  then show ?case by (cases i) auto
qed

lemma cpu_okD:
  assumes "cpu_ok s"
  shows "scan (\<lambda>c. apicid c = lapic_id s) (cpus s) = Some (this s)" "this s < length (cpus s)"
    "0 \<le> mycli s" "0 < mycli s \<Longrightarrow> \<not> IF s"
  using assms by (auto simp: cpu_ok_def scan_Some)

lemma this_frame [simp]:
  "this (s\<lparr>kern := k\<rparr>) = this s" "this (s\<lparr>locks := m\<rparr>) = this s"
  "this (s\<lparr>eflags_IF := e\<rparr>) = this s" "this (cli s) = this s" "this (sti s) = this s"
  "this (set_lock l v c s) = this s"
  by (simp_all add: this_def cli_def sti_def set_lock_def)

lemma this_cpus [simp]:
  "apicid c = apicid (cpus s ! i) \<Longrightarrow> this (s\<lparr>cpus := (cpus s)[i := c]\<rparr>) = this s"
  by (simp add: this_def scan_apicid_update)

lemma this_derived [simp]:
  "this (pushed s) = this s" "this (popped s) = this s" "this (touch s) = this s"
  "this (acq l s) = this s" "this (rel l s) = this s"
proof -
  have c: "this (t\<lparr>cpus := (cpus t)[i := d]\<rparr>) = this t" if "apicid d = apicid (cpus t ! i)"
    for t :: "'a machine" and i d using that by simp
  show p: "this (pushed s) = this s" for s :: "'a machine"
    unfolding pushed_def using c [of _ "cli s" "this s"] by (simp add: cli_def)
  show q: "this (popped s) = this s" for s :: "'a machine"
    unfolding popped_def using c [of _ s "this s"] c [of _ "sti s" "this s"] by (simp add: sti_def)
  show "this (touch s) = this s" by (simp add: touch_def)
  show "this (acq l s) = this s" by (simp add: acq_def p)
  show "this (rel l s) = this s" by (simp add: rel_def q)
qed

lemma mycpu_ok: "cpu_ok s \<Longrightarrow> \<not> IF s \<Longrightarrow> mycpu s = Done (this s) s"
  by (simp add: mycpu_def cpu_okD(1))

lemma cpu_ok_cli: "cpu_ok s \<Longrightarrow> cpu_ok (cli s)"
  by (auto simp: cpu_ok_def cli_def this_def)

lemma cli_sti_fields [simp]:
  "cpus (cli s) = cpus s" "cpus (sti s) = cpus s" "locks (cli s) = locks s" "locks (sti s) = locks s"
  "kern (cli s) = kern s" "kern (sti s) = kern s" "lapic_id (cli s) = lapic_id s"
  "lapic_id (sti s) = lapic_id s" "\<not> eflags_IF (cli s) (lapic_id s)" "eflags_IF (sti s) (lapic_id s)"
  by (simp_all add: cli_def sti_def)

lemma derived_fields [simp]:
  "lapic_id (pushed s) = lapic_id s" "lapic_id (popped s) = lapic_id s"
  "lapic_id (acq l s) = lapic_id s" "lapic_id (rel l s) = lapic_id s"
  "lapic_id (touch s) = lapic_id s" "lapic_id (set_lock l v c s) = lapic_id s"
  "kern (pushed s) = kern s" "kern (popped s) = kern s" "kern (acq l s) = kern s"
  "kern (rel l s) = kern s" "kern (touch s) = kern s" "kern (set_lock l v c s) = kern s"
  "locks (pushed s) = locks s" "locks (popped s) = locks s" "locks (touch s) = locks s"
  "cpus (set_lock l v c s) = cpus s" "eflags_IF (set_lock l v c s) = eflags_IF s"
  "eflags_IF (touch s) = eflags_IF s"
  "\<not> eflags_IF (pushed s) (lapic_id s)" "\<not> eflags_IF (acq l s) (lapic_id s)"
  by (simp_all add: pushed_def popped_def acq_def rel_def touch_def set_lock_def cli_def)

lemma cpus_pushed: "cpus (pushed s) = (cpus s)[this s := (cpus s ! this s)
     \<lparr>intena := (if mycli s = 0 then IF s else intena (cpus s ! this s)), ncli := mycli s + 1\<rparr>]"
  by (simp add: pushed_def)

lemma eflags_pushed: "eflags_IF (pushed s) = (eflags_IF s)(lapic_id s := False)"
  by (simp add: pushed_def cli_def)

lemma cpus_popped:
  "cpus (popped s) = (cpus s)[this s := (cpus s ! this s)\<lparr>ncli := mycli s - 1\<rparr>]"
  by (simp add: popped_def)

lemma eflags_popped: "eflags_IF (popped s) =
     (if mycli s = 1 \<and> intena (cpus s ! this s)
      then (eflags_IF s)(lapic_id s := True) else eflags_IF s)"
  by (simp add: popped_def sti_def)

lemma cpus_touch: "cpus (touch s) =
     (if mycli s = 0 then (cpus s)[this s := (cpus s ! this s)\<lparr>intena := IF s\<rparr>] else cpus s)"
  by (simp add: touch_def)

lemma scan_derived [simp]:
  "scan_from k (\<lambda>c. apicid c = a) (cpus (pushed s)) = scan_from k (\<lambda>c. apicid c = a) (cpus s)"
  "scan_from k (\<lambda>c. apicid c = a) (cpus (popped s)) = scan_from k (\<lambda>c. apicid c = a) (cpus s)"
  "scan_from k (\<lambda>c. apicid c = a) (cpus (touch s)) = scan_from k (\<lambda>c. apicid c = a) (cpus s)"
  by (simp_all add: cpus_pushed cpus_popped cpus_touch scan_apicid_update)

lemma pushcli_ok:
  assumes "cpu_ok s"
  shows "pushcli s = Done () (pushed s)"
proof -
  have "mycpu (cli s) = Done (this s) (cli s)"
    using mycpu_ok [OF cpu_ok_cli [OF assms]] by simp
  then show ?thesis by (simp add: pushcli_def pushed_def Let_def)
qed

lemma mycli_pushed: "cpu_ok s \<Longrightarrow> mycli (pushed s) = mycli s + 1"
  using cpu_okD(2) [of s] by (simp add: cpus_pushed)

lemma cpu_ok_pushed: "cpu_ok s \<Longrightarrow> cpu_ok (pushed s)"
  using mycli_pushed [of s] by (simp add: cpu_ok_def)

lemma popcli_ok:
  assumes "cpu_ok s" "0 < mycli s"
  shows "popcli s = Done () (popped s)"
proof -
  have "mycpu s = Done (this s) s" "\<not> IF s"
    using mycpu_ok [OF assms(1)] cpu_okD(4) [OF assms] by auto
  then show ?thesis
    using assms(2) cpu_okD(2) [OF assms(1)] by (simp add: popcli_def popped_def Let_def sti_def)
qed

lemma popcli_unbalanced:
  assumes "cpu_ok s" "mycli s = 0" "\<not> IF s"
  shows "popcli s = Panic ''popcli''"
  using mycpu_ok [OF assms(1,3)] assms(2,3) cpu_okD(2) [OF assms(1)] by (simp add: popcli_def Let_def)

lemma mycli_popped: "cpu_ok s \<Longrightarrow> mycli (popped s) = mycli s - 1"
  using cpu_okD(2) [of s] by (simp add: cpus_popped)

lemma cpu_ok_popped:
  assumes "cpu_ok s" "0 < mycli s"
  shows "cpu_ok (popped s)"
  using assms mycli_popped [OF assms(1)] by (auto simp: cpu_ok_def eflags_popped)

lemma popped_pushed:
  assumes "cpu_ok s"
  shows "popped (pushed s) = touch s"
proof (rule machine.equality)
  have i: "this s < length (cpus s)" and n: "0 \<le> mycli s" and off: "0 < mycli s \<Longrightarrow> \<not> IF s"
    using cpu_okD [OF assms] by auto
  show "eflags_IF (popped (pushed s)) = eflags_IF (touch s)"
    using i n off by (auto simp: eflags_popped eflags_pushed cpus_pushed fun_eq_iff)
  show "cpus (popped (pushed s)) = cpus (touch s)"
    using i by (simp add: cpus_popped cpus_pushed cpus_touch)
qed simp_all

section \<open>Locks\<close>

lemma holding_ok:
  assumes "cpu_ok s"
  shows "holding l s = Done (lk_mine l s) (touch s)"
proof -
  have p: "cpu_ok (pushed s)" "0 < mycli (pushed s)"
    using cpu_ok_pushed [OF assms] mycli_pushed [OF assms] cpu_okD(3) [OF assms] by auto
  then show ?thesis
    using pushcli_ok [OF assms] mycpu_ok [OF p(1)] popcli_ok [OF p] popped_pushed [OF assms]
    by (simp add: holding_def lk_mine_def Let_def)
qed

lemma myproc_ok:
  assumes "cpu_ok s"
  shows "myproc s = Done (cproc (cpus s ! this s)) (touch s)"
proof -
  have p: "cpu_ok (pushed s)" "0 < mycli (pushed s)"
    using cpu_ok_pushed [OF assms] mycli_pushed [OF assms] cpu_okD(3) [OF assms] by auto
  then show ?thesis
    using pushcli_ok [OF assms] mycpu_ok [OF p(1)] popcli_ok [OF p] popped_pushed [OF assms]
      cpu_okD(2) [OF assms] by (simp add: myproc_def Let_def cpus_pushed)
qed

lemma touch_id: "mycli s \<noteq> 0 \<Longrightarrow> touch s = s"
  by (simp add: touch_def)

lemma touch_pushed [simp]: "cpu_ok s \<Longrightarrow> touch (pushed s) = pushed s"
  using mycli_pushed [of s] cpu_okD(3) [of s] by (simp add: touch_def)

lemma mycli_touch [simp]: "ncli (cpus (touch s) ! this s) = mycli s"
  by (cases "this s < length (cpus s)") (simp_all add: cpus_touch list_update_beyond)

lemma cpu_ok_touch [simp]: "cpu_ok (touch s) = cpu_ok s"
  by (simp add: cpu_ok_def)

lemma touch_touch [simp]: "touch (touch s) = touch s"
proof (rule machine.equality)
  show "cpus (touch (touch s)) = cpus (touch s)"
    by (cases "this s < length (cpus s)")
      (simp_all add: cpus_touch [of "touch s"], simp_all add: cpus_touch list_update_beyond)
qed simp_all

lemma lk_derived [simp]:
  "lk_free l (touch s) = lk_free l s" "lk_mine l (touch s) = lk_mine l s"
  "lk_free l (pushed s) = lk_free l s" "lk_mine l (pushed s) = lk_mine l s"
  "lk_free l (popped s) = lk_free l s" "lk_mine l (popped s) = lk_mine l s"
  by (simp_all add: lk_free_def lk_mine_def)

lemma cpu_ok_set_lock [simp]: "cpu_ok (set_lock l v c s) = cpu_ok s"
  by (simp add: cpu_ok_def)

lemma acquire_free:
  assumes "cpu_ok s" "lk_free l s"
  shows "acquire l s = Done () (acq l s)"
proof -
  have p: "cpu_ok (pushed s)" using cpu_ok_pushed [OF assms(1)] .
  have "\<not> lk_mine l (pushed s)" using assms(2) by (simp add: lk_mine_def lk_free_def)
  then have h: "holding l (pushed s) = Done False (pushed s)"
    using holding_ok [OF p] assms(1) by simp
  have m: "mycpu (set_lock l 1 c (pushed s)) = Done (this s) (set_lock l 1 c (pushed s))" for c
    using mycpu_ok [of "set_lock l 1 c (pushed s)"] p by simp
  have x: "xchg_locked l 1 (pushed s) = (0, set_lock l 1 (lkcpu (locks s l)) (pushed s))"
    using assms(2) by (simp add: xchg_locked_def set_lock_def lk_free_def)
  show ?thesis
    using pushcli_ok [OF assms(1)] by (simp add: acquire_def h x m acq_def) (simp add: set_lock_def)
qed



lemma release_held:
  assumes "cpu_ok s" "lk_mine l s" "0 < mycli s"
  shows "release l s = Done () (rel l s)"
proof -
  have t: "touch s = s" using assms(3) by (simp add: touch_def)
  have "popcli (set_lock l 0 None s) = Done () (rel l s)"
    using popcli_ok [of "set_lock l 0 None s"] assms by (simp add: rel_def)
  moreover have "s\<lparr>locks := (locks s)(l := (locks s l)\<lparr>lkcpu := None, locked := 0\<rparr>)\<rparr> = set_lock l 0 None s"
  proof -
    have "k\<lparr>lkcpu := None, locked := 0\<rparr> = k\<lparr>locked := 0, lkcpu := None\<rparr>" for k :: spinlock
      by simp
    then show ?thesis by (simp only: set_lock_def)
  qed
  ultimately show ?thesis
    using holding_ok [OF assms(1), of l] assms(2) t by (simp add: release_def Let_def)
qed


lemma acq_ok:
  assumes "cpu_ok s"
  shows "cpu_ok (acq l s)" "lk_mine l (acq l s)" "mycli (acq l s) = mycli s + 1"
    "\<not> lk_free l (acq l s)"
  using cpu_ok_pushed [OF assms] mycli_pushed [OF assms]
  by (simp_all add: acq_def lk_mine_def lk_free_def) (simp_all add: set_lock_def)

lemma rel_acq:
  assumes "cpu_ok s" "lk_free l s" "lkcpu (locks s l) = None"
  shows "rel l (acq l s) = touch s"
proof -
  have "set_lock l 0 None (acq l s) = pushed s"
    using assms(2,3)
    by (intro machine.equality) (auto simp: acq_def set_lock_def lk_free_def fun_eq_iff)
  then show ?thesis using popped_pushed [OF assms(1)] by (simp add: rel_def)
qed

text \<open>
  The critical-section rule: taking a free lock, changing kernel data and releasing the lock
  changes exactly the kernel data (and refreshes the saved interrupt flag).
\<close>

definition quiet :: "lockid \<Rightarrow> 'k machine \<Rightarrow> bool" where
  "quiet l s \<longleftrightarrow> cpu_ok s \<and> lk_free l s \<and> lkcpu (locks s l) = None"

lemma quiet_acquire: "quiet l s \<Longrightarrow> acquire l s = Done () (acq l s)"
  by (simp add: quiet_def acquire_free)

lemma upd_kern_fields [simp]:
  "kern (upd_kern f s) = f (kern s)" "cpus (upd_kern f s) = cpus s"
  "locks (upd_kern f s) = locks s" "eflags_IF (upd_kern f s) = eflags_IF s"
  "lapic_id (upd_kern f s) = lapic_id s" "this (upd_kern f s) = this s"
  by (simp_all add: upd_kern_def)

lemma upd_kern_upd_kern [simp]: "upd_kern f (upd_kern g s) = upd_kern (\<lambda>k. f (g k)) s"
  by (simp add: upd_kern_def)

lemma upd_kern_id [simp]: "upd_kern (\<lambda>k. k) s = s"
  by (simp add: upd_kern_def)

lemma upd_kern_preds [simp]:
  "cpu_ok (upd_kern f s) = cpu_ok s" "lk_free l (upd_kern f s) = lk_free l s"
  "lk_mine l (upd_kern f s) = lk_mine l s" "quiet l (upd_kern f s) = quiet l s"
  by (simp_all add: cpu_ok_def lk_free_def lk_mine_def quiet_def)

lemma upd_kern_commute:
  "touch (upd_kern f s) = upd_kern f (touch s)" "acq l (upd_kern f s) = upd_kern f (acq l s)"
  "rel l (upd_kern f s) = upd_kern f (rel l s)"
  by (auto simp: upd_kern_def touch_def acq_def rel_def set_lock_def pushed_def popped_def
      cli_def sti_def)

lemma quiet_touch [simp]: "quiet l (touch s) = quiet l s"
  by (simp add: quiet_def)

lemma release_acq:
  assumes "quiet l s"
  shows "release l (acq l s) = Done () (touch s)"
    and "release l (upd_kern f (acq l s)) = Done () (upd_kern f (touch s))"
proof -
  have q: "cpu_ok s" "lk_free l s" "lkcpu (locks s l) = None"
    using assms by (auto simp: quiet_def)
  note a = acq_ok [OF q(1), of l]
  have m: "0 < mycli (acq l s)" using a(3) cpu_okD(3) [OF q(1)] by simp
  show "release l (acq l s) = Done () (touch s)"
    using release_held [OF a(1,2) m] rel_acq [OF q] by simp
  show "release l (upd_kern f (acq l s)) = Done () (upd_kern f (touch s))"
    using release_held [of "upd_kern f (acq l s)" l] a m rel_acq [OF q] by (simp add: upd_kern_commute)
qed

lemmas critical = quiet_acquire release_acq

section \<open>Mutual exclusion between processors\<close>

text \<open>
  The same routines cut at the points where another processor can run: \<^verbatim>\<open>acquire\<close> is its
  check, any number of \<^verbatim>\<open>xchg\<close> instructions and the store of the owner; \<^verbatim>\<open>release\<close> is its
  check with the store that clears the owner, and the store that clears the lock word with
  \<^verbatim>\<open>popcli\<close>. A step is one such piece on one processor, or any change of kernel data by
  the processor inside.
\<close>

datatype lkpc = Outside | Spinning | Entering | Inside | Leaving

definition on :: "uchar \<Rightarrow> 'k machine \<Rightarrow> 'k machine" where
  "on a s = s\<lparr>lapic_id := a\<rparr>"

definition set_lkcpu :: "lockid \<Rightarrow> nat option \<Rightarrow> 'k machine \<Rightarrow> 'k machine" where
  "set_lkcpu l c s = s\<lparr>locks := (locks s)(l := (locks s l)\<lparr>lkcpu := c\<rparr>)\<rparr>"

inductive lk_step :: "lockid \<Rightarrow> (uchar \<Rightarrow> lkpc) \<times> 'k machine \<Rightarrow> (uchar \<Rightarrow> lkpc) \<times> 'k machine \<Rightarrow> bool"
  for l where
  enter: "pc a = Outside \<Longrightarrow> pushcli (on a s) = Done () s1 \<Longrightarrow> holding l s1 = Done False s2 \<Longrightarrow>
     lk_step l (pc, s) (pc(a := Spinning), s2)"
| spin: "pc a = Spinning \<Longrightarrow> xchg_locked l 1 (on a s) = (old, s1) \<Longrightarrow> old \<noteq> 0 \<Longrightarrow>
     lk_step l (pc, s) (pc, s1)"
| take: "pc a = Spinning \<Longrightarrow> xchg_locked l 1 (on a s) = (0, s1) \<Longrightarrow>
     lk_step l (pc, s) (pc(a := Entering), s1)"
| own: "pc a = Entering \<Longrightarrow> mycpu (on a s) = Done i s1 \<Longrightarrow>
     lk_step l (pc, s) (pc(a := Inside), set_lkcpu l (Some i) s1)"
| work: "pc a = Inside \<Longrightarrow> lk_step l (pc, s) (pc, upd_kern f (on a s))"
| leave: "pc a = Inside \<Longrightarrow> holding l (on a s) = Done True s1 \<Longrightarrow>
     lk_step l (pc, s) (pc(a := Leaving), set_lkcpu l None s1)"
| free: "pc a = Leaving \<Longrightarrow> popcli (snd (xchg_locked l 0 (on a s))) = Done () s1 \<Longrightarrow>
     lk_step l (pc, s) (pc(a := Outside), s1)"

inductive lk_reach :: "lockid \<Rightarrow> (uchar \<Rightarrow> lkpc) \<times> 'k machine \<Rightarrow> bool" for l where
  init: "locked (locks s l) = 0 \<Longrightarrow> lk_reach l (\<lambda>_. Outside, s)"
| step: "lk_reach l x \<Longrightarrow> lk_step l x y \<Longrightarrow> lk_reach l y"

definition in_crit :: "lkpc \<Rightarrow> bool" where
  "in_crit p \<longleftrightarrow> p = Entering \<or> p = Inside \<or> p = Leaving"

definition ids :: "'k machine \<Rightarrow> uchar list" where
  "ids s = map apicid (cpus s)"

definition lk_inv :: "lockid \<Rightarrow> (uchar \<Rightarrow> lkpc) \<times> 'k machine \<Rightarrow> bool" where
  "lk_inv l x \<longleftrightarrow> (case x of (pc, s) \<Rightarrow>
     (\<forall>a. in_crit (pc a) \<longrightarrow> locked (locks s l) \<noteq> 0) \<and>
     (\<forall>a b. in_crit (pc a) \<longrightarrow> in_crit (pc b) \<longrightarrow> a = b) \<and>
     (\<forall>a. pc a = Inside \<longrightarrow> scan (\<lambda>b. b = a) (ids s) \<noteq> None \<and>
            lkcpu (locks s l) = scan (\<lambda>b. b = a) (ids s)))"

lemma scan_map: "scan_from k P (map f xs) = scan_from k (\<lambda>x. P (f x)) xs"
  by (induction xs arbitrary: k) auto

lemma mycpu_Done:
  "mycpu s = Done i t \<Longrightarrow> t = s \<and> scan (\<lambda>b. b = lapic_id s) (ids s) = Some i \<and> \<not> IF s"
  by (auto simp: mycpu_def ids_def scan_map split: if_splits option.splits)

lemma map_apicid_update:
  "apicid c = apicid (cs ! i) \<Longrightarrow> map apicid (cs[i := c]) = map apicid cs"
  by (cases "i < length cs") (simp_all add: map_update list_update_beyond, metis list_update_id nth_map map_update)

lemma pushcli_Done: "pushcli s = Done u t \<Longrightarrow> locks t = locks s \<and> ids t = ids s \<and> lapic_id t = lapic_id s"
  by (auto simp: pushcli_def bindK_Done_iff Let_def ids_def map_apicid_update dest!: mycpu_Done)

lemma popcli_Done: "popcli s = Done u t \<Longrightarrow> locks t = locks s \<and> ids t = ids s \<and> lapic_id t = lapic_id s"
  by (auto simp: popcli_def bindK_Done_iff Let_def ids_def map_apicid_update
      split: if_splits dest!: mycpu_Done)

lemma holding_Done:
  assumes "holding l s = Done r t"
  shows "locks t = locks s \<and> ids t = ids s \<and> lapic_id t = lapic_id s \<and>
     (\<exists>i. scan (\<lambda>b. b = lapic_id s) (ids s) = Some i \<and>
          r = (locked (locks s l) \<noteq> 0 \<and> lkcpu (locks s l) = Some i))"
  using assms
  by (auto simp: holding_def bindK_Done_iff Let_def dest!: mycpu_Done pushcli_Done popcli_Done)

lemma on_fields [simp]:
  "locks (on a s) = locks s" "ids (on a s) = ids s" "lapic_id (on a s) = a" "kern (on a s) = kern s"
  by (simp_all add: on_def ids_def)

lemma set_lkcpu_fields [simp]:
  "locked (locks (set_lkcpu l c s) l) = locked (locks s l)"
  "lkcpu (locks (set_lkcpu l c s) l) = c" "ids (set_lkcpu l c s) = ids s"
  by (simp_all add: set_lkcpu_def ids_def)

lemma xchg_fields:
  "xchg_locked l v s = (old, t) \<Longrightarrow>
     old = locked (locks s l) \<and> locked (locks t l) = v \<and> lkcpu (locks t l) = lkcpu (locks s l) \<and> ids t = ids s"
  by (auto simp: xchg_locked_def ids_def)

lemma lk_step_inv:
  assumes "lk_step l x y" "lk_inv l x"
  shows "lk_inv l y"
  using assms
proof (induction rule: lk_step.induct)
  case (enter pc a s s1 s2)
  then show ?case
    by (auto simp: lk_inv_def in_crit_def dest!: pushcli_Done holding_Done)
next
  case (spin pc a s old s1)
  then show ?case by (auto simp: lk_inv_def dest!: xchg_fields)
next
  case (take pc a s s1)
  then have "\<not> in_crit (pc b)" for b by (auto simp: lk_inv_def dest!: xchg_fields)
  with take show ?case by (auto simp: lk_inv_def in_crit_def dest!: xchg_fields)
next
  case (own pc a s i s1)
  then have "\<not> in_crit (pc b)" if "b \<noteq> a" for b using that by (auto simp: lk_inv_def in_crit_def)
  moreover have "s1 = on a s" "scan (\<lambda>b. b = a) (ids s) = Some i"
    using mycpu_Done [OF own(2)] by auto
  moreover have "locked (locks s l) \<noteq> 0" using own by (auto simp: lk_inv_def in_crit_def)
  ultimately show ?case by (auto simp: lk_inv_def in_crit_def)
next
  case (work pc a s f)
  then show ?case by (simp add: lk_inv_def ids_def on_def upd_kern_def)
next
  case (leave pc a s s1)
  then have "\<not> in_crit (pc b)" if "b \<noteq> a" for b using that by (auto simp: lk_inv_def in_crit_def)
  moreover have "locked (locks s1 l) \<noteq> 0"
    using leave holding_Done [OF leave(2)] by (auto simp: lk_inv_def in_crit_def)
  ultimately show ?case by (auto simp: lk_inv_def in_crit_def)
next
  case (free pc a s s1)
  then have "\<not> in_crit (pc b)" if "b \<noteq> a" for b using that by (auto simp: lk_inv_def in_crit_def)
  then have "\<not> in_crit ((pc(a := Outside)) b)" for b by (simp add: in_crit_def)
  then have "\<And>b. (pc(a := Outside)) b \<noteq> Inside" "\<And>b. \<not> in_crit ((pc(a := Outside)) b)"
    by (metis in_crit_def)+
  then show ?case unfolding lk_inv_def by simp
qed

lemma lk_reach_inv: "lk_reach l x \<Longrightarrow> lk_inv l x"
proof (induction rule: lk_reach.induct)
  case (init s)
  then show ?case by (simp add: lk_inv_def in_crit_def)
next
  case (step x y)
  then show ?case by (blast intro: lk_step_inv)
qed

section \<open>Properties\<close>

text \<open>A one-processor machine after the processor table is set up, with every lock free.\<close>

definition one_cpu :: "'k \<Rightarrow> 'k machine" where
  "one_cpu k = \<lparr>lapic_id = 0, eflags_IF = (\<lambda>_. True),
     cpus = [\<lparr>apicid = 0, ncli = 0, intena = False, cproc = None\<rparr>],
     locks = (\<lambda>_. \<lparr>locked = 0, lkname = [], lkcpu = None\<rparr>), kern = k\<rparr>"

lemma this_one_cpu [simp]: "this (one_cpu k) = 0"
  by (simp add: this_def one_cpu_def)

lemma quiet_one_cpu [simp]: "quiet l (one_cpu k)" "cpu_ok (one_cpu k)" "kern (one_cpu k) = k"
  by (simp_all add: quiet_def cpu_ok_def lk_free_def) (simp_all add: one_cpu_def)

text \<open>C1. Mutual exclusion. In every interleaving of \<^verbatim>\<open>acquire\<close> and \<^verbatim>\<open>release\<close> on any number
  of processors, at most one processor is past the \<^verbatim>\<open>xchg\<close> loop of a lock and not yet past
  the store that frees it, the lock word is set while one is, and the recorded owner is that
  processor.\<close>

theorem spinlock_mutual_exclusion:
  assumes "lk_reach l (pc, s)" "pc a = Inside"
  shows "(\<forall>b. pc b = Entering \<or> pc b = Inside \<or> pc b = Leaving \<longrightarrow> b = a) \<and>
    locked (locks s l) \<noteq> 0 \<and> (\<exists>i < length (cpus s). lkcpu (locks s l) = Some i \<and> apicid (cpus s ! i) = a)"
proof -
  have inv: "lk_inv l (pc, s)" using lk_reach_inv [OF assms(1)] .
  then obtain i where "scan (\<lambda>b. b = a) (ids s) = Some i" "lkcpu (locks s l) = Some i"
    using assms(2) by (auto simp: lk_inv_def)
  then have "i < length (cpus s) \<and> lkcpu (locks s l) = Some i \<and> apicid (cpus s ! i) = a"
    by (auto simp: scan_Some ids_def)
  then show ?thesis using inv assms(2) by (auto simp: lk_inv_def in_crit_def)
qed

lemma one_cpu_enters:
  "\<exists>s. lk_reach l ((\<lambda>_. Outside)(0 := Inside), s :: unit machine)"
proof -
  define s0 :: "unit machine" where "s0 = one_cpu ()"
  have on: "on 0 s0 = s0" by (simp add: on_def s0_def one_cpu_def)
  have ok: "cpu_ok s0" "quiet l s0" by (simp_all add: s0_def)
  have "pushcli s0 = Done () (pushed s0)" using pushcli_ok ok by blast
  moreover have "holding l (pushed s0) = Done False (pushed s0)"
    using holding_ok [OF cpu_ok_pushed [OF ok(1)], of l] ok by (simp add: quiet_def lk_mine_def lk_free_def)
  moreover have "lk_reach l (\<lambda>_. Outside, s0)"
    using ok by (intro lk_reach.init) (simp add: quiet_def lk_free_def)
  ultimately have "lk_reach l ((\<lambda>_. Outside)(0 := Spinning), pushed s0)"
    using on by (metis lk_reach.step lk_step.enter)
  moreover have "lk_step l ((\<lambda>_. Outside)(0 := Spinning), pushed s0)
      (((\<lambda>_. Outside)(0 := Spinning))(0 := Entering), snd (xchg_locked l 1 (on 0 (pushed s0))))"
    using ok by (intro lk_step.take) (simp_all add: xchg_locked_def quiet_def lk_free_def)
  ultimately have "lk_reach l ((\<lambda>_. Outside)(0 := Entering), snd (xchg_locked l 1 (on 0 (pushed s0))))"
    using lk_reach.step by (metis fun_upd_upd)
  moreover have "mycpu (on 0 (snd (xchg_locked l 1 (on 0 (pushed s0))))) =
      Done 0 (on 0 (snd (xchg_locked l 1 (on 0 (pushed s0)))))"
    by (simp add: mycpu_def on_def xchg_locked_def pushed_def cli_def s0_def one_cpu_def this_def)
  ultimately show ?thesis using lk_reach.step lk_step.own by (metis fun_upd_upd fun_upd_same)
qed

theorem spinlock_mutual_exclusion_witness:
  "\<exists>s :: unit machine. locked (locks s Kmem_lk) \<noteq> 0 \<and>
     (\<exists>i < length (cpus s). lkcpu (locks s Kmem_lk) = Some i \<and> apicid (cpus s ! i) = 0)"
proof -
  obtain s :: "unit machine" where s: "lk_reach Kmem_lk ((\<lambda>_. Outside)(0 := Inside), s)"
    using one_cpu_enters [of Kmem_lk] ..
  show ?thesis using spinlock_mutual_exclusion [OF s fun_upd_same] by (elim conjE) (rule exI, rule conjI)
qed

fun pushes :: "nat \<Rightarrow> 'k machine \<Rightarrow> ('k machine, unit) outcome" where
  "pushes 0 s = Done () s"
| "pushes (Suc n) s = bindK (pushcli s) (\<lambda>_ s. pushes n s)"

fun pops :: "nat \<Rightarrow> 'k machine \<Rightarrow> ('k machine, unit) outcome" where
  "pops 0 s = Done () s"
| "pops (Suc n) s = bindK (pops n s) (\<lambda>_ s. popcli s)"

lemma pushes_pops:
  "cpu_ok s \<Longrightarrow> \<exists>t. pushes (Suc n) s = Done () t \<and> \<not> IF t \<and> pops (Suc n) t = Done () (touch s)"
proof (induction n arbitrary: s)
  case 0
  have p: "cpu_ok (pushed s)" "0 < mycli (pushed s)"
    using cpu_ok_pushed [OF 0] mycli_pushed [OF 0] cpu_okD(3) [OF 0] by auto
  then show ?case using 0 popcli_ok [OF p] by (simp add: pushcli_ok popped_pushed)
next
  case (Suc n)
  have p: "cpu_ok (pushed s)" "0 < mycli (pushed s)"
    using cpu_ok_pushed [OF Suc.prems] mycli_pushed [OF Suc.prems] cpu_okD(3) [OF Suc.prems] by auto
  obtain t where "pushes (Suc n) (pushed s) = Done () t" "\<not> IF t"
    "pops (Suc n) t = Done () (touch (pushed s))"
    using Suc.IH [OF p(1)] by blast
  then show ?case using Suc.prems popcli_ok [OF p] by (simp add: pushcli_ok popped_pushed)
qed

text \<open>C37. Interrupt nesting. Any number of \<^verbatim>\<open>pushcli\<close> calls followed by as many \<^verbatim>\<open>popcli\<close> calls
  neither panics nor changes the interrupt flag: interrupts are off in between and are back
  on at the end exactly when they were on at the start. One \<^verbatim>\<open>popcli\<close> more panics.\<close>

theorem pushcli_popcli_nest:
  assumes "cpu_ok s"
  shows "\<exists>t u. pushes (Suc n) s = Done () t \<and> \<not> IF t \<and> pops (Suc n) t = Done () u \<and>
    eflags_IF u = eflags_IF s \<and> locks u = locks s \<and> kern u = kern s \<and> mycli u = mycli s \<and>
    (mycli s = 0 \<longrightarrow> (\<exists>e. popcli u = Panic e))"
proof -
  obtain t where t: "pushes (Suc n) s = Done () t" "\<not> IF t" "pops (Suc n) t = Done () (touch s)"
    using pushes_pops [OF assms] by blast
  have "\<exists>e. popcli (touch s) = Panic e" if "mycli s = 0"
    using popcli_unbalanced [of "touch s"] assms that by (cases "IF s") (auto simp: popcli_def)
  with t show ?thesis by auto
qed

theorem pushcli_popcli_nest_witness:
  "\<exists>t u. pushes (Suc 2) (one_cpu ()) = Done () t \<and> pops (Suc 2) t = Done () u \<and> eflags_IF u 0"
proof -
  have "eflags_IF (one_cpu ()) 0" by (simp add: one_cpu_def)
  then show ?thesis using pushcli_popcli_nest [OF quiet_one_cpu(2), of 2] by metis
qed



end
