(* ===== verification/Memory.thy ===== *)
theory Memory
  imports Xv6_Prelude "HOL-Library.Signed_Division"
begin

unbundle bit_operations_syntax

text \<open>
  Byte-addressed memory and the routines of \<^verbatim>\<open>string.c\<close> and \<^verbatim>\<open>ulib.c\<close> that work on
  it. Addresses are 32-bit and wrap; 32-bit values are stored low byte first, as the x86
  does. A loop bounded by a count is a recursion on it; a loop that runs until it meets a
  NUL byte is a partial function, with \<open>None\<close> for a run that never meets one.
\<close>

section \<open>Loads and stores\<close>

definition write32 :: "memory \<Rightarrow> addr \<Rightarrow> uint \<Rightarrow> memory" where
  "write32 m a v = m(a := ucast v, a + 1 := ucast (drop_bit 8 v),
     a + 2 := ucast (drop_bit 16 v), a + 3 := ucast (drop_bit 24 v))"

definition read32 :: "memory \<Rightarrow> addr \<Rightarrow> uint" where
  "read32 m a = ucast (m a) OR push_bit 8 (ucast (m (a + 1))) OR
     push_bit 16 (ucast (m (a + 2))) OR push_bit 24 (ucast (m (a + 3)))"

fun stosb :: "memory \<Rightarrow> addr \<Rightarrow> uchar \<Rightarrow> nat \<Rightarrow> memory" where
  "stosb m a c 0 = m"
| "stosb m a c (Suc n) = stosb (m(a := c)) (a + 1) c n"

fun stosl :: "memory \<Rightarrow> addr \<Rightarrow> uint \<Rightarrow> nat \<Rightarrow> memory" where
  "stosl m a v 0 = m"
| "stosl m a v (Suc n) = stosl (write32 m a v) (a + 4) v n"

section \<open>Kernel memory routines\<close>

definition memset :: "memory \<Rightarrow> addr \<Rightarrow> uint \<Rightarrow> uint \<Rightarrow> memory" where
  "memset m dst c n =
     (if sint dst smod 4 = 0 \<and> n mod 4 = 0 then
        let c = c AND 0xFF
        in stosl m dst (push_bit 24 c OR push_bit 16 c OR push_bit 8 c OR c) (unat (n div 4))
      else stosb m dst (ucast c) (unat n))"

fun memcmp :: "memory \<Rightarrow> addr \<Rightarrow> addr \<Rightarrow> nat \<Rightarrow> int" where
  "memcmp m s1 s2 0 = 0"
| "memcmp m s1 s2 (Suc n) =
     (if m s1 \<noteq> m s2 then uint (m s1) - uint (m s2) else memcmp m (s1 + 1) (s2 + 1) n)"

fun copy_up :: "memory \<Rightarrow> addr \<Rightarrow> addr \<Rightarrow> nat \<Rightarrow> memory" where
  "copy_up m d s 0 = m"
| "copy_up m d s (Suc n) = copy_up (m(d := m s)) (d + 1) (s + 1) n"

fun copy_down :: "memory \<Rightarrow> addr \<Rightarrow> addr \<Rightarrow> nat \<Rightarrow> memory" where
  "copy_down m d s 0 = m"
| "copy_down m d s (Suc n) = copy_down (m(d - 1 := m (s - 1))) (d - 1) (s - 1) n"

definition memmove :: "memory \<Rightarrow> addr \<Rightarrow> addr \<Rightarrow> uint \<Rightarrow> memory" where
  "memmove m dst src n =
     (if src < dst \<and> src + n > dst then copy_down m (dst + n) (src + n) (unat n)
      else copy_up m dst src (unat n))"

definition memcpy :: "memory \<Rightarrow> addr \<Rightarrow> addr \<Rightarrow> uint \<Rightarrow> memory" where
  "memcpy m dst src n = memmove m dst src n"

fun strncmp :: "memory \<Rightarrow> addr \<Rightarrow> addr \<Rightarrow> nat \<Rightarrow> int" where
  "strncmp m p q 0 = 0"
| "strncmp m p q (Suc n) =
     (if m p \<noteq> 0 \<and> m p = m q then strncmp m (p + 1) (q + 1) n else uint (m p) - uint (m q))"

fun strncpy_loop :: "memory \<Rightarrow> addr \<Rightarrow> addr \<Rightarrow> nat \<Rightarrow> memory" where
  "strncpy_loop m s t 0 = m"
| "strncpy_loop m s t (Suc n) =
     (let c = m t; m = m(s := c) in
      if c \<noteq> 0 then strncpy_loop m (s + 1) (t + 1) n else stosb m (s + 1) 0 n)"

definition strncpy :: "memory \<Rightarrow> addr \<Rightarrow> addr \<Rightarrow> int \<Rightarrow> memory" where
  "strncpy m s t n = strncpy_loop m s t (nat n)"

fun safestrcpy_loop :: "memory \<Rightarrow> addr \<Rightarrow> addr \<Rightarrow> nat \<Rightarrow> memory" where
  "safestrcpy_loop m s t 0 = m(s := 0)"
| "safestrcpy_loop m s t (Suc n) =
     (let c = m t; m = m(s := c) in
      if c \<noteq> 0 then safestrcpy_loop m (s + 1) (t + 1) n else m(s + 1 := 0))"

definition safestrcpy :: "memory \<Rightarrow> addr \<Rightarrow> addr \<Rightarrow> int \<Rightarrow> memory" where
  "safestrcpy m s t n = (if n \<le> 0 then m else safestrcpy_loop m s t (nat (n - 1)))"

partial_function (option) strlen_from :: "memory \<Rightarrow> addr \<Rightarrow> nat \<Rightarrow> nat option" where
  "strlen_from m s n = (if m (s + of_nat n) = 0 then Some n else strlen_from m s (Suc n))"

definition strlen :: "memory \<Rightarrow> addr \<Rightarrow> nat option" where
  "strlen m s = strlen_from m s 0"

section \<open>User-library routines\<close>

partial_function (option) strcpy :: "memory \<Rightarrow> addr \<Rightarrow> addr \<Rightarrow> memory option" where
  "strcpy m s t =
     (let c = m t; m = m(s := c) in if c \<noteq> 0 then strcpy m (s + 1) (t + 1) else Some m)"

partial_function (option) strcmp :: "memory \<Rightarrow> addr \<Rightarrow> addr \<Rightarrow> int option" where
  "strcmp m p q =
     (if m p \<noteq> 0 \<and> m p = m q then strcmp m (p + 1) (q + 1) else Some (uint (m p) - uint (m q)))"

partial_function (option) ulib_strlen_from :: "memory \<Rightarrow> addr \<Rightarrow> nat \<Rightarrow> nat option" where
  "ulib_strlen_from m s n =
     (if m (s + of_nat n) = 0 then Some n else ulib_strlen_from m s (Suc n))"

definition ulib_memset :: "memory \<Rightarrow> addr \<Rightarrow> uint \<Rightarrow> uint \<Rightarrow> memory" where
  "ulib_memset m dst c n = stosb m dst (ucast c) (unat n)"

text \<open>\<^verbatim>\<open>strchr\<close> returns a pointer; 0 is the null pointer.\<close>

partial_function (option) strchr :: "memory \<Rightarrow> addr \<Rightarrow> uchar \<Rightarrow> addr option" where
  "strchr m s c = (if m s = 0 then Some 0 else if m s = c then Some s else strchr m (s + 1) c)"

partial_function (option) atoi_from :: "memory \<Rightarrow> addr \<Rightarrow> uint \<Rightarrow> uint option" where
  "atoi_from m s n =
     (if 48 \<le> sint (m s) \<and> sint (m s) \<le> 57
      then atoi_from m (s + 1) (n * 10 + of_int (sint (m s)) - 48) else Some n)"

definition atoi :: "memory \<Rightarrow> addr \<Rightarrow> uint option" where
  "atoi m s = atoi_from m s 0"

definition ulib_memmove :: "memory \<Rightarrow> addr \<Rightarrow> addr \<Rightarrow> int \<Rightarrow> memory" where
  "ulib_memmove m vdst vsrc n = copy_up m vdst vsrc (nat n)"

section \<open>Loads after stores\<close>

lemma unat_diff_one: "(w :: addr) \<noteq> 0 \<Longrightarrow> unat (w - 1) = unat w - 1"
  by (simp add: unat_minus_one)

lemma offset_next:
  "(x :: addr) \<noteq> a \<Longrightarrow> unat (x - (a + 1)) = unat (x - a) - 1 \<and> 0 < unat (x - a)"
  using unat_diff_one [of "x - a"] by (auto simp: diff_diff_eq unat_gt_0)

lemma word_offset_distinct [simp]:
  "(a :: addr) + 1 \<noteq> a" "a + 2 \<noteq> a" "a + 3 \<noteq> a" "a \<noteq> a + 1" "a \<noteq> a + 2" "a \<noteq> a + 3"
  by simp_all

lemma bytes_of_word:
  "ucast (ucast v :: uchar) OR push_bit 8 (ucast (ucast (drop_bit 8 v) :: uchar)) OR
   push_bit 16 (ucast (ucast (drop_bit 16 v) :: uchar)) OR
   push_bit 24 (ucast (ucast (drop_bit 24 v) :: uchar)) = (v :: uint)"
proof (rule bit_word_eqI)
  fix n :: nat
  assume "n < LENGTH(32)"
  then have "n < 8 \<or> 8 \<le> n \<and> n < 16 \<or> 16 \<le> n \<and> n < 24 \<or> 24 \<le> n \<and> n < 32" by auto
  then show "bit (ucast (ucast v :: uchar) OR push_bit 8 (ucast (ucast (drop_bit 8 v) :: uchar)) OR
     push_bit 16 (ucast (ucast (drop_bit 16 v) :: uchar)) OR
     push_bit 24 (ucast (ucast (drop_bit 24 v) :: uchar)) :: uint) n = bit v n"
    by (elim disjE) (auto simp: bit_simps)
qed

lemma read32_write32_same [simp]: "read32 (write32 m a v) a = v"
  by (simp add: read32_def write32_def bytes_of_word)

lemma write32_outside: "4 \<le> unat (x - a) \<Longrightarrow> write32 m a v x = m x"
proof -
  assume d: "4 \<le> unat (x - a)"
  have "x \<noteq> a + of_nat i" if "i < 4" for i :: nat
    using d that by (auto simp: unat_of_nat)
  from this [of 0] this [of 1] this [of 2] this [of 3] show ?thesis
    by (simp add: write32_def)
qed

lemma read32_cong:
  assumes "\<And>x. unat (x - a) < 4 \<Longrightarrow> m x = m' x"
  shows "read32 m a = read32 m' a"
proof -
  have "m a = m' a" "m (a + 1) = m' (a + 1)" "m (a + 2) = m' (a + 2)" "m (a + 3) = m' (a + 3)"
    by (rule assms; simp)+
  then show ?thesis by (simp add: read32_def)
qed

lemma read32_write32_disjoint:
  assumes "4 \<le> unat (a - b)" "4 \<le> unat (b - a)"
  shows "read32 (write32 m a v) b = read32 m b"
proof (rule read32_cong)
  fix x assume x: "unat (x - b) < 4"
  have e: "x - a = (x - b) + (b - a)" by simp
  have s: "unat (a - b) + unat (b - a) = 2 ^ 32"
    using assms unat_lt [of a] unat_lt [of b] by (auto simp: unat_sub_if')
  have "unat (x - b) + unat (b - a) < 2 ^ 32" using x s assms(1) by linarith
  then have "unat (x - a) = unat (x - b) + unat (b - a)"
    unfolding e by (subst unat_add_lem [THEN iffD1]) simp_all
  with assms show "write32 m a v x = m x" by (intro write32_outside) simp
qed

text \<open>The two ways the kernel keeps words apart: by alignment and by page.\<close>

lemma unat_diff_mod:
  fixes a b :: addr
  assumes "k dvd 2 ^ 32" "unat a mod k = 0" "unat b mod k = 0"
  shows "unat (a - b) mod k = 0"
proof -
  have "k dvd unat a" "k dvd unat b" using assms by (auto simp: dvd_eq_mod_eq_0)
  then have "k dvd unat (a - b)"
    using assms(1) by (auto simp: unat_sub_if' intro!: dvd_diff_nat dvd_add)
  then show ?thesis by simp
qed

lemma aligned_apart:
  fixes a b :: addr
  assumes "k dvd 2 ^ 32" "unat a mod k = 0" "unat b mod k = 0" "a \<noteq> b"
  shows "k \<le> unat (a - b)"
proof -
  have "unat (a - b) \<noteq> 0" using assms(4) by (simp add: unat_0_iff)
  moreover have "k dvd unat (a - b)" using unat_diff_mod [OF assms(1-3)] by (simp add: dvd_eq_mod_eq_0)
  ultimately show ?thesis by (simp add: dvd_imp_le)
qed

lemma read32_write32_other:
  assumes "unat a mod 4 = 0" "unat b mod 4 = 0" "a \<noteq> b"
  shows "read32 (write32 m a v) b = read32 m b"
  by (rule read32_write32_disjoint) (rule aligned_apart; use assms in simp)+

section \<open>Filling and copying\<close>

lemma stosb_at: "stosb m a c n x = (if unat (x - a) < n then c else m x)"
proof (induction n arbitrary: m a x)
  case 0
  then show ?case by simp
next
  case (Suc n)
  show ?case
  proof (cases "x = a")
    case True
    then show ?thesis by (simp add: Suc.IH)
  next
    case False
    then have "unat (x - (a + 1)) = unat (x - a) - 1" "0 < unat (x - a)"
      using offset_next by blast+
    then show ?thesis using False by (auto simp: Suc.IH)
  qed
qed

definition rep_byte :: "uchar \<Rightarrow> uint" where
  "rep_byte b = push_bit 24 (ucast b) OR push_bit 16 (ucast b) OR push_bit 8 (ucast b) OR ucast b"

lemma rep_byte_bytes:
  "ucast (rep_byte b) = b" "ucast (drop_bit 8 (rep_byte b)) = b"
  "ucast (drop_bit 16 (rep_byte b)) = b" "ucast (drop_bit 24 (rep_byte b)) = b"
  by (rule bit_word_eqI; force simp: rep_byte_def bit_simps dest: bit_imp_le_length)+

lemma write32_rep: "write32 m a (rep_byte b) = stosb m a b 4"
proof -
  have "stosb m a b (Suc (Suc (Suc (Suc 0)))) = write32 m a (rep_byte b)"
    by (simp add: write32_def rep_byte_bytes add.assoc)
  then show ?thesis by (simp add: numeral_eq_Suc)
qed

lemma stosb_append: "stosb (stosb m a c i) (a + of_nat i) c n = stosb m a c (i + n)"
proof (induction i arbitrary: m a)
  case (Suc i)
  have "a + of_nat (Suc i) = (a + 1) + of_nat i" by simp
  then show ?case by (simp only: stosb.simps Suc.IH add_Suc)
qed simp

lemma stosl_rep: "stosl m a (rep_byte b) n = stosb m a b (4 * n)"
proof (induction n arbitrary: m a)
  case (Suc n)
  then show ?case using stosb_append [of m a b 4 "4 * n"] by (simp add: write32_rep)
qed simp

lemma smod_4: "sint (d :: addr) smod 4 = 0 \<longleftrightarrow> unat d mod 4 = 0"
proof -
  have "sint d smod 4 = 0 \<longleftrightarrow> 4 dvd \<bar>sint d\<bar>"
    by (auto simp: smod_int_alt_def dvd_eq_mod_eq_0 sgn_eq_0_iff)
  also have "\<dots> \<longleftrightarrow> 4 dvd uint d"
  proof -
    have "sint d = uint d - 2 ^ 32 * of_bool (bit (uint d) 31)"
      using signed_take_bit_eq_take_bit_minus [of 31 "uint d"]
        take_bit_int_eq_self [of "uint d" 32] uint_bounded [of d]
      by (simp add: sint_uint)
    then have "sint d = uint d - 4 * (2 ^ 30 * of_bool (bit (uint d) 31))" by simp
    then show ?thesis by (metis dvd_abs_iff dvd_diff_commute dvd_triv_left zdvd_zdiffD dvd_diff)
  qed
  also have "\<dots> \<longleftrightarrow> 4 dvd unat d"
    using int_dvd_int_iff [of 4 "unat d"] by simp
  finally show ?thesis by (simp add: dvd_eq_mod_eq_0)
qed

lemma memset_stosb: "memset m d c n = stosb m d (ucast c) (unat n)"
proof (cases "sint d smod 4 = 0 \<and> n mod 4 = 0")
  case True
  have c: "c AND 0xFF = ucast (ucast c :: uchar)"
  proof -
    have "c AND 0xFF = take_bit 8 c" by (simp add: take_bit_eq_mask mask_eq_exp_minus_1)
    also have "\<dots> = ucast (ucast c :: uchar)" by (rule bit_word_eqI) (auto simp: bit_simps)
    finally show ?thesis .
  qed
  have "unat n mod 4 = 0" using True unat_mod_distrib [of n 4] by simp
  then have "4 * unat (n div 4) = unat n" by (simp add: unat_div) presburger
  then show ?thesis
    using True stosl_rep [of m d "ucast c" "unat (n div 4)"]
    by (simp add: memset_def Let_def c rep_byte_def)
next
  case False
  then show ?thesis by (auto simp: memset_def)
qed

lemma memset_at: "memset m d c n x = (if unat (x - d) < unat n then ucast c else m x)"
  by (simp add: memset_stosb stosb_at)

lemma copy_up_at:
  "d = s \<or> n \<le> unat (d - s) \<Longrightarrow>
     copy_up m d s n x = (if unat (x - d) < n then m (s + (x - d)) else m x)"
proof (induction n arbitrary: m d s)
  case 0
  then show ?case by simp
next
  case (Suc n)
  have ih: "copy_up (m(d := m s)) (d + 1) (s + 1) n x =
      (if unat (x - (d + 1)) < n then (m(d := m s)) (s + 1 + (x - (d + 1))) else (m(d := m s)) x)"
    using Suc.prems by (intro Suc.IH) auto
  show ?case
  proof (cases "x = d")
    case True
    show ?thesis
    proof (cases "unat (- 1 :: addr) < n")
      case True
      moreover have "unat (- 1 :: addr) = 2 ^ 32 - 1"
        by (simp add: unsigned_minus_1_eq_mask mask_eq_exp_minus_1)
      ultimately have "d = s" using Suc.prems unat_lt [of "d - s"] by auto
      then show ?thesis using ih \<open>x = d\<close> by simp
    next
      case False
      then show ?thesis using ih \<open>x = d\<close> by simp
    qed
  next
    case False
    then have u: "unat (x - (d + 1)) = unat (x - d) - 1" "0 < unat (x - d)"
      using offset_next by blast+
    have "s + (x - d) \<noteq> d" if "unat (x - d) < Suc n"
    proof
      assume e: "s + (x - d) = d"
      then have "x - d = d - s" by (simp add: algebra_simps)
      then show False using Suc.prems that False by auto
    qed
    moreover have "s + 1 + (x - (d + 1)) = s + (x - d)" by simp
    ultimately show ?thesis using ih u False by auto
  qed
qed

lemma copy_down_at:
  "d = s \<or> n \<le> unat (s - d) \<Longrightarrow> n < 2 ^ 32 \<Longrightarrow>
     copy_down m (d + of_nat n) (s + of_nat n) n x =
       (if unat (x - d) < n then m (s + (x - d)) else m x)"
proof (induction n arbitrary: m)
  case 0
  then show ?case by simp
next
  case (Suc n)
  let ?m = "m(d + of_nat n := m (s + of_nat n))"
  have ih: "copy_down ?m (d + of_nat n) (s + of_nat n) n x =
      (if unat (x - d) < n then ?m (s + (x - d)) else ?m x)"
    using Suc.prems by (intro Suc.IH) auto
  have un: "unat (of_nat n :: addr) = n" using Suc.prems by (simp add: unat_of_nat)
  have "s + (x - d) \<noteq> d + of_nat n" if lt: "unat (x - d) < n"
  proof
    assume "s + (x - d) = d + of_nat n"
    then have e: "s - d = of_nat n - (x - d)" by (simp add: algebra_simps)
    have "unat (s - d) = n - unat (x - d)" unfolding e using lt un by (subst unat_sub_if') simp
    then show False using lt Suc.prems(1) by auto
  qed
  moreover have "x = d + of_nat n \<longleftrightarrow> unat (x - d) = n"
  proof -
    have "x = d + of_nat n \<longleftrightarrow> x - d = of_nat n" by (auto simp: algebra_simps)
    also have "\<dots> \<longleftrightarrow> unat (x - d) = n" using un by (simp add: word_unat_eq_iff)
    finally show ?thesis .
  qed
  moreover have "d + of_nat (Suc n) - 1 = d + of_nat n" "s + of_nat (Suc n) - 1 = s + of_nat n"
    by simp_all
  ultimately show ?case using ih by (auto simp: less_Suc_eq)
qed

lemma memmove_at:
  assumes s: "unat src + unat n < 2 ^ 32" and d: "unat dst + unat n \<le> 2 ^ 32"
  shows "memmove m dst src n x = (if unat (x - dst) < unat n then m (src + (x - dst)) else m x)"
proof -
  have sn: "unat (src + n) = unat src + unat n" using s by (simp add: unat_add_lem [THEN iffD1])
  show ?thesis
  proof (cases "src < dst \<and> src + n > dst")
    case True
    then have "unat n \<le> unat (src - dst)"
      using d by (auto simp: word_less_nat_alt unat_sub_if')
    then show ?thesis
      using True copy_down_at [of dst src "unat n" m x] unat_lt [of n]
      by (simp add: memmove_def)
  next
    case False
    then have "dst = src \<or> unat n \<le> unat (dst - src)"
      using s sn by (auto simp: word_less_nat_alt unat_sub_if' not_less word_unat_eq_iff)
    then show ?thesis
      using False copy_up_at [of dst src "unat n" m x] by (auto simp: memmove_def)
  qed
qed

section \<open>Byte blocks and C strings\<close>

definition bytes :: "memory \<Rightarrow> addr \<Rightarrow> nat \<Rightarrow> uchar list" where
  "bytes m p n = map (\<lambda>i. m (p + of_nat i)) [0..<n]"

lemma length_bytes [simp]: "length (bytes m p n) = n"
  by (simp add: bytes_def)

lemma bytes_0 [simp]: "bytes m p 0 = []"
  by (simp add: bytes_def)

lemma bytes_Suc: "bytes m p (Suc n) = m p # bytes m (p + 1) n"
  by (simp add: bytes_def upt_conv_Cons add.assoc map_Suc_upt [symmetric] del: upt_Suc)

lemma uint_eq_iff8: "uint (x :: uchar) = uint y \<longleftrightarrow> x = y"
  by (auto intro: unsigned_word_eqI)

lemma uint_eq_0_8: "uint (x :: uchar) = 0 \<longleftrightarrow> x = 0"
  using uint_eq_iff8 [of x 0] by simp

lemma memcmp_zero: "memcmp m p q n = 0 \<longleftrightarrow> bytes m p n = bytes m q n"
  by (induction n arbitrary: p q) (auto simp: bytes_Suc unsigned_word_eqI)

lemma memcmp_neg:
  "memcmp m p q n < 0 \<longleftrightarrow> (bytes m p n, bytes m q n) \<in> lexord {(x, y). x < y}"
  by (induction n arbitrary: p q) (auto simp: bytes_Suc word_less_def)

text \<open>\<open>cstr m p xs\<close>: the NUL-terminated string at \<open>p\<close> is \<open>xs\<close>.\<close>

fun cstr :: "memory \<Rightarrow> addr \<Rightarrow> uchar list \<Rightarrow> bool" where
  "cstr m p [] = (m p = 0)"
| "cstr m p (x # xs) = (x \<noteq> 0 \<and> m p = x \<and> cstr m (p + 1) xs)"

lemma offset_step:
  fixes a t :: addr
  assumes "k < unat (a - t)" "0 < k"
  shows "k - 1 < unat (a - (t + 1))"
  using assms offset_next [of a t] by (cases "a = t") auto

lemma cstr_upd: "length xs < unat (a - t) \<Longrightarrow> cstr (m(a := v)) t xs = cstr m t xs"
proof (induction xs arbitrary: t)
  case Nil
  then show ?case by auto
next
  case (Cons x xs)
  then have "length xs < unat (a - (t + 1))" using offset_step [of "length (x # xs)" a t] by simp
  moreover have "a \<noteq> t" using Cons.prems by auto
  ultimately show ?case using Cons.IH by simp
qed

lemma strlen_cstr: "cstr m p xs \<Longrightarrow> strlen m p = Some (length xs)"
proof -
  have "cstr m (p + of_nat k) xs \<Longrightarrow> strlen_from m p k = Some (k + length xs)" for k
  proof (induction xs arbitrary: k)
    case Nil
    then show ?case by (simp add: strlen_from.simps)
  next
    case (Cons x xs)
    then show ?case using Cons.IH [of "Suc k"] by (simp add: strlen_from.simps [of m p k] ac_simps)
  qed
  from this [of 0] show "cstr m p xs \<Longrightarrow> ?thesis" by (simp add: strlen_def)
qed

lemma strncmp_zero:
  "cstr m p xs \<Longrightarrow> cstr m q ys \<Longrightarrow> strncmp m p q n = 0 \<longleftrightarrow> take n xs = take n ys"
proof (induction n arbitrary: p q xs ys)
  case 0
  then show ?case by simp
next
  case (Suc n)
  then show ?case by (cases xs; cases ys) (auto simp: uint_eq_iff8 uint_eq_0_8)
qed

lemma strncpy_at:
  assumes "cstr m t xs" "n \<le> unat (s - t)" "length xs < unat (s - t)"
  shows "strncpy_loop m s t n x =
    (let i = unat (x - s) in if i < n then (if i < length xs then xs ! i else 0) else m x)"
  using assms
proof (induction n arbitrary: m s t xs)
  case 0
  then show ?case by simp
next
  case (Suc n)
  show ?case
  proof (cases xs)
    case Nil
    with Suc.prems show ?thesis
      using offset_next [of x s] by (cases "x = s") (auto simp: stosb_at Let_def)
  next
    case (Cons c ys)
    have st: "s \<noteq> t" using Suc.prems(2) by auto
    have "cstr (m(s := c)) (t + 1) ys"
      using Suc.prems Cons cstr_upd [of ys s "t + 1"] offset_step [of "length xs" s t] by simp
    moreover have "n \<le> unat ((s + 1) - (t + 1))" "length ys < unat ((s + 1) - (t + 1))"
      using Suc.prems Cons by simp_all
    ultimately have ih: "strncpy_loop (m(s := c)) (s + 1) (t + 1) n x =
        (let i = unat (x - (s + 1)) in if i < n then (if i < length ys then ys ! i else 0) else (m(s := c)) x)"
      by (rule Suc.IH)
    show ?thesis
    proof (cases "x = s")
      case True
      have "n \<le> unat (- 1 :: addr)"
        using Suc.prems(2) unat_lt [of "s - t"]
        by (simp add: unsigned_minus_1_eq_mask mask_eq_exp_minus_1)
      then show ?thesis using ih True Cons Suc.prems(1) by (simp add: Let_def)
    next
      case False
      then have "unat (x - (s + 1)) = unat (x - s) - 1" "0 < unat (x - s)"
        using offset_next by blast+
      then show ?thesis using ih False Cons Suc.prems(1) by (auto simp: Let_def nth_Cons')
    qed
  qed
qed

lemma safestrcpy_frame:
  "n < unat (x - s) \<Longrightarrow> safestrcpy_loop m s t n x = m x"
proof (induction n arbitrary: m s t)
  case 0
  then show ?case by auto
next
  case (Suc n)
  then have "x \<noteq> s" by auto
  then have x: "x \<noteq> s" "n < unat (x - (s + 1))" using offset_next [of x s] Suc.prems by auto
  then have "x \<noteq> s + 1" by auto
  with x Suc.IH show ?case by (simp add: Let_def)
qed

lemma safestrcpy_cstr:
  assumes "cstr m t xs" "n < unat (s - t)" "length xs < unat (s - t)" "n < unat (t - s)"
  shows "cstr (safestrcpy_loop m s t n) s (take n xs)"
  using assms
proof (induction n arbitrary: m s t xs)
  case 0
  then show ?case by simp
next
  case (Suc n)
  show ?case
  proof (cases xs)
    case Nil
    then show ?thesis using Suc.prems by simp
  next
    case (Cons c ys)
    have "cstr (m(s := c)) (t + 1) ys"
      using Suc.prems Cons cstr_upd [of ys s "t + 1"] offset_step [of "length xs" s t] by simp
    moreover have "n < unat ((s + 1) - (t + 1))" "length ys < unat ((s + 1) - (t + 1))"
      "n < unat ((t + 1) - (s + 1))" using Suc.prems Cons by simp_all
    ultimately have ih: "cstr (safestrcpy_loop (m(s := c)) (s + 1) (t + 1) n) (s + 1) (take n ys)"
      by (rule Suc.IH)
    have "n < unat (s - (s + 1))"
      using Suc.prems(2) unat_lt [of "s - t"] by (simp add: unsigned_minus_1_eq_mask mask_eq_exp_minus_1)
    then have "safestrcpy_loop (m(s := c)) (s + 1) (t + 1) n s = c"
      using safestrcpy_frame [of n s "s + 1" "m(s := c)" "t + 1"] by simp
    with ih show ?thesis using Cons Suc.prems(1) by (simp add: Let_def)
  qed
qed

section \<open>Properties\<close>

lemma bytes_eqI: "(\<And>i. i < n \<Longrightarrow> m (p + of_nat i) = m' (q + of_nat i)) \<Longrightarrow> bytes m p n = bytes m' q n"
  by (simp add: bytes_def)

text \<open>C34. The kernel's \<^verbatim>\<open>memset\<close>, which stores whole words when the address and the length are
  multiples of four, agrees with the byte loop of the user library on every input: it sets
  exactly the \<open>n\<close> bytes from \<open>dst\<close> to the low byte of \<open>c\<close>.\<close>

theorem memset_is_byte_loop:
  "memset m dst c n = ulib_memset m dst c n \<and>
   memset m dst c n = (\<lambda>x. if unat (x - dst) < unat n then ucast c else m x)"
  by (auto simp: memset_stosb ulib_memset_def stosb_at)

text \<open>C33. \<^verbatim>\<open>memmove\<close> is a correct move for overlapping areas too: whatever the relative position
  of source and destination, the destination ends up with the bytes the source had before the
  call and nothing else changes, as long as neither area wraps around the address space.\<close>

theorem memmove_moves:
  assumes "unat src + unat n < 2 ^ 32" "unat dst + unat n \<le> 2 ^ 32"
  shows "bytes (memmove m dst src n) dst (unat n) = bytes m src (unat n) \<and>
    (\<forall>x. unat n \<le> unat (x - dst) \<longrightarrow> memmove m dst src n x = m x)"
proof -
  have "unat (of_nat i :: addr) = i" if "i < unat n" for i
    using that unat_lt [of n] by (simp add: unat_of_nat)
  then show ?thesis by (auto intro!: bytes_eqI simp: memmove_at [OF assms])
qed

theorem memmove_moves_witness:
  "bytes (memmove (\<lambda>a. ucast a) 12 10 5) 12 5 = bytes (\<lambda>a. ucast a) 10 5"
  using memmove_moves [of 10 5 12 "\<lambda>a. ucast a"] by simp

text \<open>C40. \<^verbatim>\<open>safestrcpy\<close> into a buffer of \<open>n\<close> bytes leaves there the first \<open>n - 1\<close> characters of the
  source string, always NUL-terminated, and writes no byte outside the buffer.\<close>

theorem safestrcpy_truncates:
  assumes "cstr m t xs" "0 < n" "n \<le> int (unat (s - t))" "length xs < unat (s - t)" "n \<le> int (unat (t - s))"
  shows "cstr (safestrcpy m s t n) s (take (nat (n - 1)) xs) \<and>
    (\<forall>x. n \<le> int (unat (x - s)) \<longrightarrow> safestrcpy m s t n x = m x)"
proof -
  have "nat (n - 1) < unat (s - t)" "nat (n - 1) < unat (t - s)" using assms by linarith+
  moreover have "nat (n - 1) < unat (x - s)" if "n \<le> int (unat (x - s))" for x
    using that assms(2) by linarith
  ultimately show ?thesis
    using assms safestrcpy_cstr [of m t xs "nat (n - 1)" s] safestrcpy_frame
    by (simp add: safestrcpy_def)
qed

theorem safestrcpy_truncates_witness:
  "cstr (safestrcpy ((\<lambda>_. 0)(100 := 104, 101 := 111, 102 := 108, 103 := 97)) 200 100 3) 200 [104, 111]"
  using safestrcpy_truncates [of "(\<lambda>_. 0)(100 := 104, 101 := 111, 102 := 108, 103 := 97)" 100
      "[104, 111, 108, 97]" 3 200] by (simp add: unat_sub_if' take_Cons')

text \<open>\<^verbatim>\<open>memcmp\<close> is zero exactly on equal blocks and negative exactly when the first block comes
  before the second in the lexicographic order of unsigned bytes.\<close>

lemma memcmp_orders:
  "(memcmp m p q n = 0 \<longleftrightarrow> bytes m p n = bytes m q n) \<and>
   (memcmp m p q n < 0 \<longleftrightarrow> (bytes m p n, bytes m q n) \<in> lexord {(x, y). x < y})"
  by (simp add: memcmp_zero memcmp_neg)

end
