(* ===== verification/Mmu.thy ===== *)
theory Mmu
  imports Memory
begin

unbundle bit_operations_syntax

text \<open>
  The address arithmetic of \<^verbatim>\<open>mmu.h\<close> and \<^verbatim>\<open>memlayout.h\<close>: pages, the three-part structure
  of a virtual address, page-table entries, and the kernel's direct map.
\<close>

section \<open>Definitions\<close>

definition EXTMEM :: uint where "EXTMEM = 0x100000"
definition PHYSTOP :: uint where "PHYSTOP = 0xE000000"
definition DEVSPACE :: uint where "DEVSPACE = 0xFE000000"
definition KERNBASE :: uint where "KERNBASE = 0x80000000"
definition KERNLINK :: uint where "KERNLINK = KERNBASE + EXTMEM"

definition V2P :: "addr \<Rightarrow> uint" where "V2P a = a - KERNBASE"
definition P2V :: "uint \<Rightarrow> addr" where "P2V a = a + KERNBASE"

definition PGSIZE :: uint where "PGSIZE = 4096"
definition NPDENTRIES :: nat where "NPDENTRIES = 1024"
definition NPTENTRIES :: nat where "NPTENTRIES = 1024"
definition PTXSHIFT :: nat where "PTXSHIFT = 12"
definition PDXSHIFT :: nat where "PDXSHIFT = 22"

definition PDX :: "addr \<Rightarrow> uint" where "PDX va = drop_bit PDXSHIFT va AND 0x3FF"
definition PTX :: "addr \<Rightarrow> uint" where "PTX va = drop_bit PTXSHIFT va AND 0x3FF"

definition PGADDR :: "uint \<Rightarrow> uint \<Rightarrow> uint \<Rightarrow> addr" where
  "PGADDR d t off = push_bit PDXSHIFT d OR push_bit PTXSHIFT t OR off"

definition PGROUNDUP :: "uint \<Rightarrow> uint" where "PGROUNDUP sz = (sz + PGSIZE - 1) AND NOT (PGSIZE - 1)"
definition PGROUNDDOWN :: "uint \<Rightarrow> uint" where "PGROUNDDOWN a = a AND NOT (PGSIZE - 1)"

definition PTE_P :: uint where "PTE_P = 0x001"
definition PTE_W :: uint where "PTE_W = 0x002"
definition PTE_U :: uint where "PTE_U = 0x004"
definition PTE_ADDR :: "uint \<Rightarrow> uint" where "PTE_ADDR pte = pte AND NOT 0xFFF"
definition PTE_FLAGS :: "uint \<Rightarrow> uint" where "PTE_FLAGS pte = pte AND 0xFFF"

lemmas mmu_defs = EXTMEM_def PHYSTOP_def DEVSPACE_def KERNBASE_def KERNLINK_def PGSIZE_def
  NPDENTRIES_def NPTENTRIES_def PTXSHIFT_def PDXSHIFT_def PTE_P_def PTE_W_def PTE_U_def

section \<open>Rounding to pages\<close>

lemma mask12: "(4095 :: uint) = mask 12"
  by (simp add: mask_eq_exp_minus_1)

lemma and_not_mask: "(a :: uint) AND NOT (mask 12) = push_bit 12 (drop_bit 12 a)"
  by (rule bit_word_eqI) (auto simp: bit_simps)

lemma unat_push_drop: "unat (push_bit 12 (drop_bit 12 (a :: uint))) = unat a div 4096 * 4096"
proof -
  have "unat a div 4096 * 4096 \<le> unat a" by simp
  also have "\<dots> < 2 ^ 32" by (rule unat_lt)
  finally show ?thesis
    by (simp add: push_bit_eq_mult drop_bit_eq_div unat_word_ariths unat_div)
qed

lemma PGROUNDDOWN_push: "PGROUNDDOWN a = push_bit 12 (drop_bit 12 a)"
  by (simp add: PGROUNDDOWN_def PGSIZE_def mask12 and_not_mask del: mask_numeral)

lemma unat_PGROUNDDOWN: "unat (PGROUNDDOWN a) = unat a div 4096 * 4096"
  by (simp add: PGROUNDDOWN_push unat_push_drop)

lemma PGROUNDUP_down: "PGROUNDUP a = PGROUNDDOWN (a + 4095)"
  by (simp add: PGROUNDUP_def PGROUNDDOWN_def PGSIZE_def algebra_simps)

lemma unat_PGROUNDUP:
  assumes "unat a + 4095 < 2 ^ 32"
  shows "unat (PGROUNDUP a) = (unat a + 4095) div 4096 * 4096"
proof -
  have "unat (a + 4095) = unat a + 4095" using assms by (subst unat_add_lem [THEN iffD1]) simp_all
  then show ?thesis by (simp add: PGROUNDUP_down unat_PGROUNDDOWN)
qed

lemma PTE_ADDR_down: "PTE_ADDR p = PGROUNDDOWN p"
  by (simp add: PTE_ADDR_def PGROUNDDOWN_def PGSIZE_def)

lemma P2V_V2P [simp]: "P2V (V2P a) = a" and V2P_P2V [simp]: "V2P (P2V a) = a"
  by (simp_all add: P2V_def V2P_def)

section \<open>Bytes of different pages\<close>

definition aligned :: "addr \<Rightarrow> bool" where
  "aligned v \<longleftrightarrow> unat v mod 4096 = 0"

lemma aligned_iff: "v mod PGSIZE = 0 \<longleftrightarrow> aligned v"
  by (simp add: aligned_def PGSIZE_def word_unat_eq_iff unat_mod)

lemma aligned_mod4: "aligned v \<Longrightarrow> unat v mod 4 = 0"
  using mod_mod_cancel [of 4 4096 "unat v"] by (simp add: aligned_def)

lemma pages_apart:
  assumes "aligned x" "aligned v" "x \<noteq> v" "unat (y - x) < 4096"
  shows "4096 \<le> unat (y - v)"
proof -
  have xv: "4096 \<le> unat (x - v)" "4096 \<le> unat (v - x)"
    using assms by (auto intro!: aligned_apart simp: aligned_def)
  have "unat (x - v) + unat (v - x) = 2 ^ 32"
    using xv unat_lt [of x] unat_lt [of v] by (auto simp: unat_sub_if')
  then have "unat (y - x) + unat (x - v) < 2 ^ 32" using assms(4) xv by linarith
  moreover have "y - v = (y - x) + (x - v)" by simp
  ultimately have "unat (y - v) = unat (y - x) + unat (x - v)" by (simp only: unat_add_small)
  then show ?thesis using xv by simp
qed

end
