(* ===== verification/Kalloc.thy ===== *)
theory Kalloc
  imports Spinlock Mmu
begin

text \<open>
  The physical page allocator (\<^verbatim>\<open>kalloc.c\<close>). The free list is threaded through the free
  pages themselves: the first word of a free page holds the address of the next one. Memory
  is addressed through the kernel's direct map. The linker symbol \<^verbatim>\<open>end\<close> is the field
  \<open>end_sym\<close>.
\<close>

section \<open>State and operations\<close>

record kmem =
  use_lock :: bool
  freelist :: addr
  mem :: memory
  end_sym :: addr

definition kfree :: "addr \<Rightarrow> 'a kmem_scheme machine \<Rightarrow> ('a kmem_scheme machine, unit) outcome" where
  "kfree v s =
     (if v mod PGSIZE \<noteq> 0 \<or> v < end_sym (kern s) \<or> V2P v \<ge> PHYSTOP then Panic ''kfree''
      else let s = upd_kern (\<lambda>k. k\<lparr>mem := memset (mem k) v 1 PGSIZE\<rparr>) s in
      bindK (if use_lock (kern s) then acquire Kmem_lk s else Done () s) (\<lambda>_ s.
        let s = upd_kern (\<lambda>k. k\<lparr>mem := write32 (mem k) v (freelist k), freelist := v\<rparr>) s in
        if use_lock (kern s) then release Kmem_lk s else Done () s))"

definition kalloc :: "'a kmem_scheme machine \<Rightarrow> ('a kmem_scheme machine, addr) outcome" where
  "kalloc s =
     bindK (if use_lock (kern s) then acquire Kmem_lk s else Done () s) (\<lambda>_ s.
       let r = freelist (kern s);
           s = (if r \<noteq> 0 then upd_kern (\<lambda>k. k\<lparr>freelist := read32 (mem k) r\<rparr>) s else s)
       in bindK (if use_lock (kern s) then release Kmem_lk s else Done () s) (\<lambda>_ s. Done r s))"

lemma kfree_page:
  assumes "kfree v s = Done u t"
  shows "aligned v \<and> \<not> v < end_sym (kern s) \<and> V2P v < PHYSTOP"
  using assms by (auto simp: kfree_def aligned_iff split: if_splits)

lemma low_page: "V2P v < PHYSTOP \<Longrightarrow> unat v < unat (v + PGSIZE)"
proof -
  assume "V2P v < PHYSTOP"
  then have "unat v < 0x8E000000"
    using unat_lt [of v] by (auto simp: V2P_def mmu_defs word_less_nat_alt unat_sub_if' split: if_splits)
  then show ?thesis by (simp add: PGSIZE_def unat_plus_if')
qed

function freerange_from :: "addr \<Rightarrow> addr \<Rightarrow> 'a kmem_scheme machine \<Rightarrow> ('a kmem_scheme machine, unit) outcome" where
  "freerange_from p vend s =
     (if p + PGSIZE \<le> vend
      then bindK (kfree p s) (\<lambda>_ s. freerange_from (p + PGSIZE) vend s) else Done () s)"
  by pat_completeness auto
termination
  by (relation "measure (\<lambda>(p, vend, s). 2 ^ 32 - unat p)")
    (use kfree_page low_page unat_lt in \<open>fastforce intro!: diff_less_mono2\<close>)+

declare freerange_from.simps [simp del]

definition freerange :: "addr \<Rightarrow> addr \<Rightarrow> 'a kmem_scheme machine \<Rightarrow> ('a kmem_scheme machine, unit) outcome" where
  "freerange vstart vend s = freerange_from (PGROUNDUP vstart) vend s"

definition kinit1 :: "addr \<Rightarrow> addr \<Rightarrow> 'a kmem_scheme machine \<Rightarrow> ('a kmem_scheme machine, unit) outcome" where
  "kinit1 vstart vend s =
     (let s = initlock Kmem_lk ''kmem'' s; s = upd_kern (\<lambda>k. k\<lparr>use_lock := False\<rparr>) s
      in freerange vstart vend s)"

definition kinit2 :: "addr \<Rightarrow> addr \<Rightarrow> 'a kmem_scheme machine \<Rightarrow> ('a kmem_scheme machine, unit) outcome" where
  "kinit2 vstart vend s =
     bindK (freerange vstart vend s) (\<lambda>_ s. Done () (upd_kern (\<lambda>k. k\<lparr>use_lock := True\<rparr>) s))"

section \<open>The free list\<close>

text \<open>\<open>free_chain m r xs\<close>: following next words from \<open>r\<close> in \<open>m\<close> meets exactly the pages \<open>xs\<close>.\<close>

fun free_chain :: "memory \<Rightarrow> addr \<Rightarrow> addr list \<Rightarrow> bool" where
  "free_chain m r [] = (r = 0)"
| "free_chain m r (x # xs) = (r = x \<and> r \<noteq> 0 \<and> free_chain m (read32 m r) xs)"

definition page_ok :: "addr \<Rightarrow> addr \<Rightarrow> bool" where
  "page_ok e v \<longleftrightarrow> aligned v \<and> \<not> v < e \<and> V2P v < PHYSTOP"

definition kmem_inv :: "'a kmem_scheme \<Rightarrow> addr list \<Rightarrow> bool" where
  "kmem_inv k xs \<longleftrightarrow> free_chain (mem k) (freelist k) xs \<and> distinct xs \<and>
     (\<forall>x \<in> set xs. page_ok (end_sym k) x)"

definition kready :: "'a kmem_scheme machine \<Rightarrow> bool" where
  "kready s \<longleftrightarrow> (use_lock (kern s) \<longrightarrow> quiet Kmem_lk s)"

definition ktouch :: "'a kmem_scheme machine \<Rightarrow> 'a kmem_scheme machine" where
  "ktouch s = (if use_lock (kern s) then touch s else s)"

lemma page_ok_nonzero: "page_ok e v \<Longrightarrow> v \<noteq> 0"
  by (auto simp: page_ok_def V2P_def mmu_defs)

lemma free_chain_cong:
  "(\<And>x. x \<in> set xs \<Longrightarrow> read32 m x = read32 m' x) \<Longrightarrow> free_chain m r xs = free_chain m' r xs"
  by (induction xs arbitrary: r) auto

lemma kern_ktouch [simp]: "kern (ktouch s) = kern s"
  by (simp add: ktouch_def)

lemma kalloc_ok:
  assumes "kready s"
  shows "kalloc s = Done (freelist (kern s))
    (if freelist (kern s) = 0 then ktouch s
     else upd_kern (\<lambda>k. k\<lparr>freelist := read32 (mem k) (freelist k)\<rparr>) (ktouch s))"
  using assms
  by (auto simp: kalloc_def kready_def ktouch_def Let_def critical)

lemma kfree_ok:
  assumes "kready s" "page_ok (end_sym (kern s)) v"
  shows "kfree v s = Done () (upd_kern (\<lambda>k. k\<lparr>mem := write32 (memset (mem k) v 1 PGSIZE) v (freelist k),
    freelist := v\<rparr>) (ktouch s))"
  using assms
  by (auto simp: kfree_def kready_def ktouch_def Let_def critical page_ok_def aligned_iff
      upd_kern_commute not_le)

lemma kready_frame [simp]:
  "kready (ktouch s) = kready s"
  "(\<And>k. use_lock (f k) = use_lock k) \<Longrightarrow> kready (upd_kern f s) = kready s"
  by (simp_all add: kready_def ktouch_def)

lemma page_bytes_apart:
  assumes "aligned x" "aligned v" "x \<noteq> v" "unat (y - x) < 4"
  shows "4096 \<le> unat (y - v)"
  using pages_apart [of x v y] assms by simp

lemma read32_other_page:
  assumes "aligned x" "aligned v" "x \<noteq> v"
  shows "read32 (write32 (memset m v c PGSIZE) v w) x = read32 m x"
proof (rule read32_cong)
  fix y assume "unat (y - x) < 4"
  then have "4096 \<le> unat (y - v)" using page_bytes_apart assms by blast
  then show "write32 (memset m v c PGSIZE) v w y = m y"
    by (simp add: write32_outside memset_at PGSIZE_def)
qed

lemma kmem_inv_alloc:
  "kmem_inv k (x # xs) \<Longrightarrow> kmem_inv (k\<lparr>freelist := read32 (mem k) (freelist k)\<rparr>) xs"
  by (auto simp: kmem_inv_def)

lemma kmem_inv_free:
  assumes "kmem_inv k xs" "page_ok (end_sym k) v" "v \<notin> set xs"
  shows "kmem_inv (k\<lparr>mem := write32 (memset (mem k) v c PGSIZE) v (freelist k), freelist := v\<rparr>) (v # xs)"
proof -
  have "free_chain (write32 (memset (mem k) v c PGSIZE) v (freelist k)) (freelist k) xs"
    using assms
    by (subst free_chain_cong [where m' = "mem k"])
      (auto simp: kmem_inv_def page_ok_def intro!: read32_other_page)
  then show ?thesis using assms page_ok_nonzero by (auto simp: kmem_inv_def)
qed

text \<open>Freeing a range puts its pages on the list, the last one first.\<close>

definition pages_from :: "addr \<Rightarrow> nat \<Rightarrow> addr list" where
  "pages_from p n = map (\<lambda>i. p + of_nat i * PGSIZE) [0..<n]"

lemma pages_from_0 [simp]: "pages_from p 0 = []"
  by (simp add: pages_from_def)





section \<open>The allocator interface\<close>

text \<open>
  What the users of \<^verbatim>\<open>kalloc\<close> and \<^verbatim>\<open>kfree\<close> rely on (page tables, kernel stacks, pipes):
  the allocator holds a list of distinct pages; allocating takes the first or returns 0,
  freeing a page that is not held puts it back.
\<close>

locale page_allocator =
  fixes alloc :: "'s \<Rightarrow> ('s, addr) outcome"
    and free :: "addr \<Rightarrow> 's \<Rightarrow> ('s, unit) outcome"
    and rep :: "'s \<Rightarrow> addr list \<Rightarrow> bool"
    and ok :: "'s \<Rightarrow> addr \<Rightarrow> bool"
  assumes alloc_none: "rep s [] \<Longrightarrow> \<exists>t. alloc s = Done 0 t \<and> rep t []"
    and alloc_some: "rep s (x # xs) \<Longrightarrow> \<exists>t. alloc s = Done x t \<and> rep t xs \<and> (\<forall>v. ok t v = ok s v)"
    and free_page: "rep s xs \<Longrightarrow> ok s v \<Longrightarrow> v \<notin> set xs \<Longrightarrow>
      \<exists>t. free v s = Done () t \<and> rep t (v # xs) \<and> (\<forall>w. ok t w = ok s w)"
    and rep_distinct: "rep s xs \<Longrightarrow> distinct xs"
    and rep_ok: "rep s xs \<Longrightarrow> x \<in> set xs \<Longrightarrow> ok s x"
    and ok_nonzero: "ok s v \<Longrightarrow> v \<noteq> 0"

fun alloc_n :: "('s \<Rightarrow> ('s, addr) outcome) \<Rightarrow> nat \<Rightarrow> 's \<Rightarrow> ('s, addr list) outcome" where
  "alloc_n alloc 0 s = Done [] s"
| "alloc_n alloc (Suc n) s =
     bindK (alloc s) (\<lambda>x s. bindK (alloc_n alloc n s) (\<lambda>xs s. Done (x # xs) s))"

fun free_all :: "(addr \<Rightarrow> 's \<Rightarrow> ('s, unit) outcome) \<Rightarrow> addr list \<Rightarrow> 's \<Rightarrow> ('s, unit) outcome" where
  "free_all free [] s = Done () s"
| "free_all free (x # xs) s = bindK (free x s) (\<lambda>_ s. free_all free xs s)"

context page_allocator
begin

lemma alloc_n_takes:
  "rep s (xs @ ys) \<Longrightarrow> \<exists>t. alloc_n alloc (length xs) s = Done xs t \<and> rep t ys \<and> (\<forall>v. ok t v = ok s v)"
proof (induction xs arbitrary: s)
  case Nil
  then show ?case by auto
next
  case (Cons x xs)
  then obtain u where u: "alloc s = Done x u" "rep u (xs @ ys)" "\<forall>v. ok u v = ok s v"
    using alloc_some [of s x "xs @ ys"] by auto
  then obtain t where "alloc_n alloc (length xs) u = Done xs t" "rep t ys" "\<forall>v. ok t v = ok u v"
    using Cons.IH by blast
  with u show ?case by auto
qed

lemma alloc_n_fresh:
  assumes "rep s (xs @ ys)"
  shows "\<exists>t. alloc_n alloc (length xs) s = Done xs t \<and> distinct xs \<and> 0 \<notin> set xs \<and> rep t ys \<and>
    set xs \<inter> set ys = {}"
  using alloc_n_takes [OF assms] rep_distinct [OF assms] rep_ok [OF assms] ok_nonzero by fastforce

lemma free_all_returns:
  "rep s ys \<Longrightarrow> distinct xs \<Longrightarrow> \<forall>x \<in> set xs. ok s x \<Longrightarrow> set xs \<inter> set ys = {} \<Longrightarrow>
   \<exists>t. free_all free xs s = Done () t \<and> rep t (rev xs @ ys)"
proof (induction xs arbitrary: s ys)
  case Nil
  then show ?case by auto
next
  case (Cons x xs)
  then obtain u where u: "free x s = Done () u" "rep u (x # ys)" "\<forall>w. ok u w = ok s w"
    using free_page [of s ys x] by auto
  then have "\<exists>t. free_all free xs u = Done () t \<and> rep t (rev xs @ x # ys)"
    using Cons by (intro Cons.IH) auto
  with u show ?case by auto
qed

lemma alloc_then_free_all:
  assumes "rep s (xs @ ys)"
  shows "\<exists>t u. alloc_n alloc (length xs) s = Done xs t \<and> free_all free xs t = Done () u \<and>
    rep u (rev xs @ ys)"
proof -
  obtain t where t: "alloc_n alloc (length xs) s = Done xs t" "rep t ys" "\<forall>v. ok t v = ok s v"
    using alloc_n_takes [OF assms] by blast
  moreover have "\<exists>u. free_all free xs t = Done () u \<and> rep u (rev xs @ ys)"
    using t rep_distinct [OF assms] rep_ok [OF assms] by (intro free_all_returns) auto
  ultimately show ?thesis by blast
qed

end

interpretation km: page_allocator kalloc kfree
  "\<lambda>s xs. kready s \<and> kmem_inv (kern s) xs" "\<lambda>s. page_ok (end_sym (kern s))"
proof (unfold_locales, goal_cases)
  case (1 s)
  then show ?case using kalloc_ok [of s] by (auto simp: kmem_inv_def)
next
  case (2 s x xs)
  then show ?case using kalloc_ok [of s] kmem_inv_alloc [of "kern s" x xs]
    by (auto simp: kmem_inv_def)
next
  case (3 s xs v)
  then show ?case using kfree_ok [of s v] kmem_inv_free [of "kern s" xs v] by auto
qed (auto simp: kmem_inv_def page_ok_nonzero)

section \<open>Properties\<close>

text \<open>C15. Allocating \<open>n\<close> pages returns \<open>n\<close> different non-null pages, the first \<open>n\<close> of the free
  list, none of them still on the list; freeing them all puts every one back, with no panic
  and the remaining pages kept.\<close>

theorem kalloc_kfree_pages:
  assumes "kready s" "kmem_inv (kern s) (xs @ ys)"
  shows "\<exists>t u. alloc_n kalloc (length xs) s = Done xs t \<and> distinct xs \<and> 0 \<notin> set xs \<and>
    set xs \<inter> set ys = {} \<and> free_all kfree xs t = Done () u \<and>
    kready u \<and> kmem_inv (kern u) (rev xs @ ys)"
  using km.alloc_n_fresh [of s xs ys] km.alloc_then_free_all [of s xs ys] assms by auto

definition two_free_pages :: "kmem machine" where
  "two_free_pages = one_cpu \<lparr>use_lock = True, freelist = 0x80402000,
     mem = write32 (write32 (\<lambda>_. 0) 0x80401000 0) 0x80402000 0x80401000, end_sym = 0x80400000\<rparr>"

lemma two_free_pages_ok:
  "kready two_free_pages" "kmem_inv (kern two_free_pages) [0x80402000, 0x80401000]"
  by (simp_all add: two_free_pages_def kready_def kmem_inv_def page_ok_def aligned_def V2P_def mmu_defs
      read32_write32_other)

theorem kalloc_kfree_pages_witness:
  "\<exists>t u. alloc_n kalloc 2 two_free_pages = Done [0x80402000, 0x80401000] t \<and>
     free_all kfree [0x80402000, 0x80401000] t = Done () u \<and>
     kmem_inv (kern u) [0x80401000, 0x80402000]"
  using kalloc_kfree_pages [of two_free_pages "[0x80402000, 0x80401000]" "[]"] two_free_pages_ok
  by (auto simp: numeral_2_eq_2)

text \<open>\<^verbatim>\<open>kfree\<close> refuses a page that is not page-aligned, lies below the end of the kernel, or
  lies above physical memory.\<close>

lemma kfree_rejects:
  assumes "\<not> page_ok (end_sym (kern s)) v"
  shows "kfree v s = Panic ''kfree''"
  using assms by (auto simp: kfree_def page_ok_def aligned_iff not_le)



end
