(* ===== verification/Vm.thy ===== *)
theory Vm
  imports Kalloc
begin

unbundle bit_operations_syntax

text \<open>
  Page tables and address spaces (\<^verbatim>\<open>vm.c\<close>). Page directories and page tables live in the
  byte memory of \<open>kmem\<close>: a page directory is 1024 words, each of them with the physical
  address of a page table of 1024 words. The linker symbol \<^verbatim>\<open>data\<close> is the field \<open>data_sym\<close>,
  the address of a processor's task state is \<open>ts_addr\<close>. Console messages
  are left out. \<^verbatim>\<open>uva2ka\<close> and \<^verbatim>\<open>copyout\<close> are in \<open>Uaccess\<close>; \<^verbatim>\<open>loaduvm\<close>, which reads a file, is
  in \<open>Exec\<close>.

  The loops count addresses in steps of a page. They take a number of rounds that covers the
  whole range; \<open>Spin\<close> is the outcome of a loop that would go round the address space.
\<close>

section \<open>Segments and registers\<close>

record segdesc =
  lim_15_0 :: "16 word"
  base_15_0 :: "16 word"
  base_23_16 :: "8 word"
  seg_type :: "4 word"
  seg_s :: "1 word"
  seg_dpl :: "2 word"
  seg_p :: "1 word"
  lim_19_16 :: "4 word"
  seg_avl :: "1 word"
  seg_rsv1 :: "1 word"
  seg_db :: "1 word"
  seg_g :: "1 word"
  base_31_24 :: "8 word"

definition SEG :: "4 word \<Rightarrow> uint \<Rightarrow> uint \<Rightarrow> 2 word \<Rightarrow> segdesc" where
  "SEG type base lim dpl =
     \<lparr>lim_15_0 = ucast (drop_bit 12 lim AND 0xFFFF), base_15_0 = ucast (base AND 0xFFFF),
      base_23_16 = ucast (drop_bit 16 base AND 0xFF), seg_type = type, seg_s = 1, seg_dpl = dpl, seg_p = 1,
      lim_19_16 = ucast (drop_bit 28 lim), seg_avl = 0, seg_rsv1 = 0, seg_db = 1, seg_g = 1,
      base_31_24 = ucast (drop_bit 24 base)\<rparr>"

definition SEG16 :: "4 word \<Rightarrow> uint \<Rightarrow> uint \<Rightarrow> 2 word \<Rightarrow> segdesc" where
  "SEG16 type base lim dpl =
     \<lparr>lim_15_0 = ucast (lim AND 0xFFFF), base_15_0 = ucast (base AND 0xFFFF),
      base_23_16 = ucast (drop_bit 16 base AND 0xFF), seg_type = type, seg_s = 1, seg_dpl = dpl, seg_p = 1,
      lim_19_16 = ucast (drop_bit 16 lim), seg_avl = 0, seg_rsv1 = 0, seg_db = 1, seg_g = 0,
      base_31_24 = ucast (drop_bit 24 base)\<rparr>"

definition SEG_KCODE :: nat where "SEG_KCODE = 1"
definition SEG_KDATA :: nat where "SEG_KDATA = 2"
definition SEG_UCODE :: nat where "SEG_UCODE = 3"
definition SEG_UDATA :: nat where "SEG_UDATA = 4"
definition SEG_TSS :: nat where "SEG_TSS = 5"
definition DPL_USER :: "2 word" where "DPL_USER = 3"
definition STA_X :: "4 word" where "STA_X = 8"
definition STA_W :: "4 word" where "STA_W = 2"
definition STA_R :: "4 word" where "STA_R = 2"
definition STS_T32A :: "4 word" where "STS_T32A = 9"

text \<open>The fields of the task state the kernel sets; the 104 bytes of the structure.\<close>

record taskstate =
  esp0 :: uint
  ss0 :: ushort
  iomb :: ushort

definition sizeof_taskstate :: uint where "sizeof_taskstate = 104"

record vmk = kmem +
  data_sym :: addr
  ts_addr :: "nat \<Rightarrow> addr"
  kpgdir :: addr
  cr3 :: "uchar \<Rightarrow> uint"
  gdt :: "nat \<Rightarrow> nat \<Rightarrow> segdesc"
  gdtr :: "uchar \<Rightarrow> nat option"
  ts :: "nat \<Rightarrow> taskstate"
  tr :: "uchar \<Rightarrow> ushort"

definition upd_mem :: "(memory \<Rightarrow> memory) \<Rightarrow> 'a kmem_scheme machine \<Rightarrow> 'a kmem_scheme machine" where
  "upd_mem f = upd_kern (\<lambda>k. k\<lparr>mem := f (mem k)\<rparr>)"

definition lcr3 :: "uint \<Rightarrow> 'a vmk_scheme machine \<Rightarrow> 'a vmk_scheme machine" where
  "lcr3 v s = upd_kern (\<lambda>k. k\<lparr>cr3 := (cr3 k)(lapic_id s := v)\<rparr>) s"

definition ltr :: "ushort \<Rightarrow> 'a vmk_scheme machine \<Rightarrow> 'a vmk_scheme machine" where
  "ltr v s = upd_kern (\<lambda>k. k\<lparr>tr := (tr k)(lapic_id s := v)\<rparr>) s"

definition set_gdt :: "nat \<Rightarrow> nat \<Rightarrow> segdesc \<Rightarrow> 'a vmk_scheme machine \<Rightarrow> 'a vmk_scheme machine" where
  "set_gdt c i d = upd_kern (\<lambda>k. k\<lparr>gdt := (gdt k)(c := (gdt k c)(i := d))\<rparr>)"

definition seginit :: "'a vmk_scheme machine \<Rightarrow> ('a vmk_scheme machine, unit) outcome" where
  "seginit s =
     bindK (mycpu s) (\<lambda>c s.
       let s = set_gdt c SEG_KCODE (SEG (STA_X OR STA_R) 0 0xFFFFFFFF 0) s;
           s = set_gdt c SEG_KDATA (SEG STA_W 0 0xFFFFFFFF 0) s;
           s = set_gdt c SEG_UCODE (SEG (STA_X OR STA_R) 0 0xFFFFFFFF DPL_USER) s;
           s = set_gdt c SEG_UDATA (SEG STA_W 0 0xFFFFFFFF DPL_USER) s
       in Done () (upd_kern (\<lambda>k. k\<lparr>gdtr := (gdtr k)(lapic_id s := Some c)\<rparr>) s))"

section \<open>Page tables\<close>

definition walkpgdir :: "addr \<Rightarrow> addr \<Rightarrow> bool \<Rightarrow> 'a kmem_scheme machine \<Rightarrow>
    ('a kmem_scheme machine, addr) outcome" where
  "walkpgdir pgdir va alloc s =
     (let pde = pgdir + 4 * PDX va in
      if read32 (mem (kern s)) pde AND PTE_P \<noteq> 0
      then Done (P2V (PTE_ADDR (read32 (mem (kern s)) pde)) + 4 * PTX va) s
      else if \<not> alloc then Done 0 s
      else bindK (kalloc s) (\<lambda>pgtab s.
        if pgtab = 0 then Done 0 s
        else let s = upd_mem (\<lambda>m. memset m pgtab 0 PGSIZE) s;
                 s = upd_mem (\<lambda>m. write32 m pde (V2P pgtab OR PTE_P OR PTE_W OR PTE_U)) s
             in Done (pgtab + 4 * PTX va) s))"

fun mappages_from :: "nat \<Rightarrow> addr \<Rightarrow> addr \<Rightarrow> addr \<Rightarrow> uint \<Rightarrow> uint \<Rightarrow> 'a kmem_scheme machine \<Rightarrow>
    ('a kmem_scheme machine, int) outcome" where
  "mappages_from 0 pgdir a lastp pa perm s = Spin s"
| "mappages_from (Suc n) pgdir a lastp pa perm s =
     bindK (walkpgdir pgdir a True s) (\<lambda>pte s.
       if pte = 0 then Done (- 1) s
       else if read32 (mem (kern s)) pte AND PTE_P \<noteq> 0 then Panic ''remap''
       else let s = upd_mem (\<lambda>m. write32 m pte (pa OR perm OR PTE_P)) s
            in if a = lastp then Done 0 s
               else mappages_from n pgdir (a + PGSIZE) lastp (pa + PGSIZE) perm s)"

definition mappages :: "addr \<Rightarrow> addr \<Rightarrow> uint \<Rightarrow> uint \<Rightarrow> uint \<Rightarrow> 'a kmem_scheme machine \<Rightarrow>
    ('a kmem_scheme machine, int) outcome" where
  "mappages pgdir va sz pa perm s =
     (let a = PGROUNDDOWN va; lastp = PGROUNDDOWN (va + sz - 1)
      in mappages_from (Suc (unat (lastp - a) div 4096)) pgdir a lastp pa perm s)"

fun deallocuvm_from :: "nat \<Rightarrow> addr \<Rightarrow> uint \<Rightarrow> uint \<Rightarrow> 'a kmem_scheme machine \<Rightarrow>
    ('a kmem_scheme machine, unit) outcome" where
  "deallocuvm_from n pgdir a oldsz s =
     (if \<not> a < oldsz then Done () s
      else case n of 0 \<Rightarrow> Spin s
      | Suc n \<Rightarrow>
        bindK (walkpgdir pgdir a False s) (\<lambda>pte s.
          if pte = 0 then deallocuvm_from n pgdir (PGADDR (PDX a + 1) 0 0 - PGSIZE + PGSIZE) oldsz s
          else if read32 (mem (kern s)) pte AND PTE_P \<noteq> 0 then
            (let pa = PTE_ADDR (read32 (mem (kern s)) pte) in
             if pa = 0 then Panic ''kfree''
             else bindK (kfree (P2V pa) s) (\<lambda>_ s.
               deallocuvm_from n pgdir (a + PGSIZE) oldsz (upd_mem (\<lambda>m. write32 m pte 0) s)))
          else deallocuvm_from n pgdir (a + PGSIZE) oldsz s))"

declare deallocuvm_from.simps [simp del]

definition rounds :: "uint \<Rightarrow> nat" where
  "rounds sz = Suc (unat sz div 4096)"

definition deallocuvm :: "addr \<Rightarrow> uint \<Rightarrow> uint \<Rightarrow> 'a kmem_scheme machine \<Rightarrow>
    ('a kmem_scheme machine, uint) outcome" where
  "deallocuvm pgdir oldsz newsz s =
     (if newsz \<ge> oldsz then Done oldsz s
      else bindK (deallocuvm_from (rounds oldsz) pgdir (PGROUNDUP newsz) oldsz s) (\<lambda>_ s. Done newsz s))"

fun free_tables :: "addr \<Rightarrow> nat list \<Rightarrow> 'a kmem_scheme machine \<Rightarrow> ('a kmem_scheme machine, unit) outcome" where
  "free_tables pgdir [] s = Done () s"
| "free_tables pgdir (i # is) s =
     (let e = read32 (mem (kern s)) (pgdir + 4 * of_nat i) in
      if e AND PTE_P \<noteq> 0
      then bindK (kfree (P2V (PTE_ADDR e)) s) (\<lambda>_ s. free_tables pgdir is s)
      else free_tables pgdir is s)"

definition freevm :: "addr \<Rightarrow> 'a kmem_scheme machine \<Rightarrow> ('a kmem_scheme machine, unit) outcome" where
  "freevm pgdir s =
     (if pgdir = 0 then Panic ''freevm: no pgdir''
      else bindK (deallocuvm pgdir KERNBASE 0 s) (\<lambda>_ s.
           bindK (free_tables pgdir [0..<NPDENTRIES] s) (\<lambda>_ s. kfree pgdir s)))"

section \<open>The kernel part of an address space\<close>

definition kmap :: "addr \<Rightarrow> (addr \<times> uint \<times> uint \<times> uint) list" where
  "kmap data = [(KERNBASE, 0, EXTMEM, PTE_W), (KERNLINK, V2P KERNLINK, V2P data, 0),
     (data, V2P data, PHYSTOP, PTE_W), (DEVSPACE, DEVSPACE, 0, PTE_W)]"

fun map_kernel :: "addr \<Rightarrow> (addr \<times> uint \<times> uint \<times> uint) list \<Rightarrow> 'a kmem_scheme machine \<Rightarrow>
    ('a kmem_scheme machine, addr) outcome" where
  "map_kernel pgdir [] s = Done pgdir s"
| "map_kernel pgdir ((virt, phys_start, phys_end, perm) # ks) s =
     bindK (mappages pgdir virt (phys_end - phys_start) phys_start perm s) (\<lambda>r s.
       if r < 0 then bindK (freevm pgdir s) (\<lambda>_ s. Done 0 s) else map_kernel pgdir ks s)"

definition setupkvm :: "'a vmk_scheme machine \<Rightarrow> ('a vmk_scheme machine, addr) outcome" where
  "setupkvm s =
     bindK (kalloc s) (\<lambda>pgdir s.
       if pgdir = 0 then Done 0 s
       else let s = upd_mem (\<lambda>m. memset m pgdir 0 PGSIZE) s in
         if P2V PHYSTOP > DEVSPACE then Panic ''PHYSTOP too high''
         else map_kernel pgdir (kmap (data_sym (kern s))) s)"

definition switchkvm :: "'a vmk_scheme machine \<Rightarrow> 'a vmk_scheme machine" where
  "switchkvm s = lcr3 (V2P (kpgdir (kern s))) s"

definition kvmalloc :: "'a vmk_scheme machine \<Rightarrow> ('a vmk_scheme machine, unit) outcome" where
  "kvmalloc s =
     bindK (setupkvm s) (\<lambda>p s. Done () (switchkvm (upd_kern (\<lambda>k. k\<lparr>kpgdir := p\<rparr>) s)))"

text \<open>\<^verbatim>\<open>switchuvm\<close> reads the kernel stack and the page directory of the process it is given.\<close>

definition switchuvm :: "(addr \<times> addr) option \<Rightarrow> 'a vmk_scheme machine \<Rightarrow>
    ('a vmk_scheme machine, unit) outcome" where
  "switchuvm p s =
     (case p of None \<Rightarrow> Panic ''switchuvm: no process''
      | Some (kstack, pgdir) \<Rightarrow>
        if kstack = 0 then Panic ''switchuvm: no kstack''
        else if pgdir = 0 then Panic ''switchuvm: no pgdir''
        else bindK (pushcli s) (\<lambda>_ s.
          bindK (mycpu s) (\<lambda>c s.
            let s = set_gdt c SEG_TSS (SEG16 STS_T32A (ts_addr (kern s) c) (sizeof_taskstate - 1) 0) s;
                s = set_gdt c SEG_TSS ((gdt (kern s) c SEG_TSS)\<lparr>seg_s := 0\<rparr>) s;
                s = upd_kern (\<lambda>k. k\<lparr>ts := (ts k)(c := (ts k c)\<lparr>ss0 := of_nat SEG_KDATA * 8\<rparr>)\<rparr>) s;
                s = upd_kern (\<lambda>k. k\<lparr>ts := (ts k)(c := (ts k c)\<lparr>esp0 := kstack + of_nat KSTACKSIZE\<rparr>)\<rparr>) s;
                s = upd_kern (\<lambda>k. k\<lparr>ts := (ts k)(c := (ts k c)\<lparr>iomb := 0xFFFF\<rparr>)\<rparr>) s;
                s = ltr (of_nat SEG_TSS * 8) s;
                s = lcr3 (V2P pgdir) s
            in popcli s)))"

section \<open>User memory\<close>

definition inituvm :: "addr \<Rightarrow> addr \<Rightarrow> uint \<Rightarrow> 'a kmem_scheme machine \<Rightarrow>
    ('a kmem_scheme machine, unit) outcome" where
  "inituvm pgdir init sz s =
     (if sz \<ge> PGSIZE then Panic ''inituvm: more than a page''
      else bindK (kalloc s) (\<lambda>mem s.
        let s = upd_mem (\<lambda>m. memset m mem 0 PGSIZE) s in
        bindK (mappages pgdir 0 PGSIZE (V2P mem) (PTE_W OR PTE_U) s) (\<lambda>_ s.
          Done () (upd_mem (\<lambda>m. memmove m mem init sz) s))))"

fun allocuvm_from :: "nat \<Rightarrow> addr \<Rightarrow> addr \<Rightarrow> uint \<Rightarrow> uint \<Rightarrow> 'a kmem_scheme machine \<Rightarrow>
    ('a kmem_scheme machine, uint) outcome" where
  "allocuvm_from n pgdir a oldsz newsz s =
     (if \<not> a < newsz then Done newsz s
      else case n of 0 \<Rightarrow> Spin s
      | Suc n \<Rightarrow>
        bindK (kalloc s) (\<lambda>mem s.
          if mem = 0 then bindK (deallocuvm pgdir newsz oldsz s) (\<lambda>_ s. Done 0 s)
          else let s = upd_mem (\<lambda>m. memset m mem 0 PGSIZE) s in
            bindK (mappages pgdir a PGSIZE (V2P mem) (PTE_W OR PTE_U) s) (\<lambda>r s.
              if r < 0 then
                bindK (deallocuvm pgdir newsz oldsz s) (\<lambda>_ s. bindK (kfree mem s) (\<lambda>_ s. Done 0 s))
              else allocuvm_from n pgdir (a + PGSIZE) oldsz newsz s)))"

declare allocuvm_from.simps [simp del]

definition allocuvm :: "addr \<Rightarrow> uint \<Rightarrow> uint \<Rightarrow> 'a kmem_scheme machine \<Rightarrow>
    ('a kmem_scheme machine, uint) outcome" where
  "allocuvm pgdir oldsz newsz s =
     (if newsz \<ge> KERNBASE then Done 0 s
      else if newsz < oldsz then Done oldsz s
      else allocuvm_from (rounds newsz) pgdir (PGROUNDUP oldsz) oldsz newsz s)"

definition clearpteu :: "addr \<Rightarrow> addr \<Rightarrow> 'a kmem_scheme machine \<Rightarrow> ('a kmem_scheme machine, unit) outcome" where
  "clearpteu pgdir uva s =
     bindK (walkpgdir pgdir uva False s) (\<lambda>pte s.
       if pte = 0 then Panic ''clearpteu''
       else Done () (upd_mem (\<lambda>m. write32 m pte (read32 m pte AND NOT PTE_U)) s))"

fun copyuvm_from :: "nat \<Rightarrow> addr \<Rightarrow> addr \<Rightarrow> uint \<Rightarrow> uint \<Rightarrow> 'a kmem_scheme machine \<Rightarrow>
    ('a kmem_scheme machine, addr) outcome" where
  "copyuvm_from n pgdir d i sz s =
     (if \<not> i < sz then Done d s
      else case n of 0 \<Rightarrow> Spin s
      | Suc n \<Rightarrow>
        bindK (walkpgdir pgdir i False s) (\<lambda>pte s.
          if pte = 0 then Panic ''copyuvm: pte should exist''
          else if read32 (mem (kern s)) pte AND PTE_P = 0 then Panic ''copyuvm: page not present''
          else let pa = PTE_ADDR (read32 (mem (kern s)) pte); flags = PTE_FLAGS (read32 (mem (kern s)) pte) in
            bindK (kalloc s) (\<lambda>mem s.
              if mem = 0 then bindK (freevm d s) (\<lambda>_ s. Done 0 s)
              else let s = upd_mem (\<lambda>m. memmove m mem (P2V pa) PGSIZE) s in
                bindK (mappages d i PGSIZE (V2P mem) flags s) (\<lambda>r s.
                  if r < 0 then bindK (kfree mem s) (\<lambda>_ s. bindK (freevm d s) (\<lambda>_ s. Done 0 s))
                  else copyuvm_from n pgdir d (i + PGSIZE) sz s))))"

declare copyuvm_from.simps [simp del]

definition copyuvm :: "addr \<Rightarrow> uint \<Rightarrow> 'a vmk_scheme machine \<Rightarrow> ('a vmk_scheme machine, addr) outcome" where
  "copyuvm pgdir sz s =
     bindK (setupkvm s) (\<lambda>d s. if d = 0 then Done 0 s else copyuvm_from (rounds sz) pgdir d 0 sz s)"

end
