(* ===== verification/Pagetable.thy ===== *)
theory Pagetable
  imports Kalloc
begin

unbundle bit_operations_syntax

text \<open>
  Two-level page tables as a data structure in byte memory: what a virtual address looks up,
  which pages a table occupies, and how the two kinds of store \<^verbatim>\<open>vm.c\<close> makes (an entry of a
  page table, a fresh page table in the directory) change the lookup. No code is modelled
  here; \<open>Vm\<close> holds the operations.
\<close>

section \<open>Words of a page\<close>

lemma unat_mult4: "unat (i :: uint) < 1024 \<Longrightarrow> unat (4 * i) = 4 * unat i"
  by (simp add: unat_word_ariths)

lemma slot_in_page:
  fixes x d i :: addr
  assumes "unat i < 1024" "unat (x - (d + 4 * i)) < 4"
  shows "unat (x - d) < 4096"
proof -
  define y where "y = x - (d + 4 * i)"
  have e: "x - d = y + 4 * i" by (simp add: y_def)
  have y: "unat y < 4" using assms(2) by (simp add: y_def)
  then have "unat (y + 4 * i) = unat y + unat (4 * i)"
    using assms(1) by (intro unat_add_small) (simp add: unat_mult4)
  then show ?thesis using assms(1) y by (simp add: e unat_mult4)
qed

lemma write_slot_out:
  fixes x p i :: addr
  assumes "4096 \<le> unat (x - p)" "unat i < 1024"
  shows "write32 m (p + 4 * i) v x = m x"
proof (rule write32_outside)
  show "4 \<le> unat (x - (p + 4 * i))"
    using slot_in_page [of i x p] assms by (meson not_le)
qed

lemma aligned_bound: "aligned d \<Longrightarrow> unat d + 4096 \<le> 2 ^ 32"
proof -
  assume "aligned d"
  then obtain k where "unat d = 4096 * k" unfolding aligned_def by (metis mod_0_imp_dvd dvdE)
  then show ?thesis using unat_lt [of d] by simp
qed

lemma unat_slot: "aligned d \<Longrightarrow> unat i < 1024 \<Longrightarrow> unat (d + 4 * i) = unat d + 4 * unat i"
  using aligned_bound [of d] unat_add_small [of d "4 * i"] by (simp add: unat_mult4)

lemma slot_mod4: "aligned d \<Longrightarrow> unat i < 1024 \<Longrightarrow> unat (d + 4 * i) mod 4 = 0"
  using aligned_mod4 [of d] by (simp add: unat_slot mod_add_right_eq [symmetric])

lemma slot_inj: "unat i < 1024 \<Longrightarrow> unat j < 1024 \<Longrightarrow> (d :: addr) + 4 * i = d + 4 * j \<Longrightarrow> i = j"
proof -
  assume "unat i < 1024" "unat j < 1024" "d + 4 * i = d + 4 * j"
  then have "4 * unat i = 4 * unat j" using unat_mult4 by (metis add_left_cancel)
  then show "i = j" by (simp add: word_unat_eq_iff)
qed

lemma read_slot_write:
  assumes "aligned d" "unat i < 1024" "unat j < 1024"
  shows "read32 (write32 m (d + 4 * i) v) (d + 4 * j) = (if i = j then v else read32 m (d + 4 * j))"
  using assms slot_inj [of i j d] by (auto intro!: read32_write32_other slot_mod4)

text \<open>\<open>same_out P m m'\<close>: the memories agree on every byte outside the pages \<open>P\<close>.\<close>

definition same_out :: "addr set \<Rightarrow> memory \<Rightarrow> memory \<Rightarrow> bool" where
  "same_out P m m' \<longleftrightarrow> (\<forall>x. (\<forall>p \<in> P. 4096 \<le> unat (x - p)) \<longrightarrow> m' x = m x)"

lemma same_out_refl [simp]: "same_out P m m"
  by (simp add: same_out_def)

lemma same_out_trans: "same_out P m m' \<Longrightarrow> same_out Q m' m'' \<Longrightarrow> same_out (P \<union> Q) m m''"
  by (auto simp: same_out_def)

lemma same_out_mono: "same_out P m m' \<Longrightarrow> P \<subseteq> Q \<Longrightarrow> same_out Q m m'"
  by (auto simp: same_out_def)

lemma same_out_page:
  assumes "same_out P m m'" "\<forall>p \<in> P. aligned p" "aligned q" "q \<notin> P" "unat (x - q) < 4096"
  shows "m' x = m x"
proof -
  have "4096 \<le> unat (x - p)" if "p \<in> P" for p
    using that assms by (intro pages_apart [of q]) auto
  then show ?thesis using assms(1) by (auto simp: same_out_def)
qed

lemma same_out_slot:
  assumes "same_out P m m'" "\<forall>p \<in> P. aligned p" "aligned q" "q \<notin> P" "unat i < 1024"
  shows "read32 m' (q + 4 * i) = read32 m (q + 4 * i)"
  by (rule read32_cong) (use assms slot_in_page same_out_page in blast)

lemma same_out_write_slot: "unat i < 1024 \<Longrightarrow> same_out {p} m (write32 m (p + 4 * i) v)"
  by (auto simp: same_out_def write_slot_out)

lemma same_out_memset: "same_out {p} m (memset m p c PGSIZE)"
  by (auto simp: same_out_def memset_at PGSIZE_def)

lemma memset_slot:
  assumes "unat i < 1024"
  shows "read32 (memset m p 0 PGSIZE) (p + 4 * i) = 0"
proof -
  have "read32 (memset m p 0 PGSIZE) (p + 4 * i) = read32 (\<lambda>_. 0) (p + 4 * i)"
    using slot_in_page [of i _ p] assms by (intro read32_cong) (auto simp: memset_at PGSIZE_def)
  then show ?thesis by (simp add: read32_def)
qed

section \<open>Indices\<close>

lemma unat_and_1023: "unat (w AND 0x3FF :: uint) = unat w mod 1024"
proof -
  have "w AND 0x3FF = take_bit 10 w" by (simp add: take_bit_eq_mask mask_eq_exp_minus_1)
  then show ?thesis by (simp add: take_bit_eq_mod unat_mod)
qed

lemma unat_PDX: "unat (PDX va) = unat va div 4096 div 1024"
proof -
  have "unat va div 4194304 < 1024" using unat_lt [of va] by (simp add: less_mult_imp_div_less)
  then show ?thesis
    by (simp add: PDX_def unat_and_1023 PDXSHIFT_def drop_bit_eq_div unat_div div_mult2_eq [symmetric])
qed

lemma unat_PTX: "unat (PTX va) = unat va div 4096 mod 1024"
  by (simp add: PTX_def unat_and_1023 PTXSHIFT_def drop_bit_eq_div unat_div)

lemma PDX_lt [simp]: "unat (PDX va) < 1024"
  using unat_lt [of va] by (simp add: unat_PDX div_mult2_eq [symmetric] less_mult_imp_div_less)

lemma PTX_lt [simp]: "unat (PTX va) < 1024"
  by (simp add: unat_PTX)

definition vpn :: "addr \<Rightarrow> nat" where
  "vpn va = unat va div 4096"

lemma same_vpn: "PDX va = PDX vb \<and> PTX va = PTX vb \<longleftrightarrow> vpn va = vpn vb"
  by (auto simp: word_unat_eq_iff unat_PDX unat_PTX vpn_def) (metis div_mult_mod_eq)

lemma vpn_aligned: "aligned a \<Longrightarrow> aligned b \<Longrightarrow> vpn a = vpn b \<longleftrightarrow> a = b"
proof -
  assume "aligned a" "aligned b"
  then have "unat a = vpn a * 4096" "unat b = vpn b * 4096"
    by (auto simp: aligned_def vpn_def)
  then show ?thesis by (auto simp: word_unat_eq_iff)
qed

section \<open>Entries\<close>

definition present :: "uint \<Rightarrow> bool" where
  "present e \<longleftrightarrow> e AND PTE_P \<noteq> 0"

definition frame :: "uint \<Rightarrow> addr" where
  "frame e = P2V (PTE_ADDR e)"

lemma not_present_0 [simp]: "\<not> present 0"
  by (simp add: present_def)

lemma present_bit: "present e \<longleftrightarrow> bit e 0"
  by (simp add: present_def PTE_P_def and_one_eq odd_iff_mod_2_eq_one [symmetric] bit_0)

lemma PTE_ADDR_bit: "bit (PTE_ADDR e) n \<longleftrightarrow> bit e n \<and> 12 \<le> n"
proof -
  have "PTE_ADDR e = push_bit 12 (drop_bit 12 e)"
    by (simp add: PTE_ADDR_down PGROUNDDOWN_push)
  then show ?thesis by (auto simp: bit_simps dest: bit_imp_le_length)
qed

lemma aligned_bits: "aligned v \<Longrightarrow> n < 12 \<Longrightarrow> \<not> bit v n"
proof -
  assume "aligned v" "n < 12"
  then have "unat (PGROUNDDOWN v) = unat v"
    by (simp add: unat_PGROUNDDOWN aligned_def) (metis div_mult_mod_eq add.right_neutral)
  then have "v = PTE_ADDR v" by (simp add: PTE_ADDR_down word_unat_eq_iff)
  then show ?thesis using PTE_ADDR_bit [of v n] \<open>n < 12\<close> by auto
qed

lemma aligned_V2P: "aligned v \<Longrightarrow> aligned (V2P v)"
proof -
  assume a: "aligned v"
  then have "unat (v - KERNBASE) mod 4096 = 0"
    by (intro unat_diff_mod) (simp_all add: aligned_def KERNBASE_def)
  then show ?thesis by (simp add: aligned_def V2P_def)
qed

lemma aligned_frame: "aligned (frame e)"
proof -
  have "unat (PTE_ADDR e) mod 4096 = 0" by (simp add: PTE_ADDR_down unat_PGROUNDDOWN)
  then have "unat (PTE_ADDR e - KERNBASE) mod 4096 = 0"
    by (intro unat_diff_mod) (simp_all add: KERNBASE_def)
  moreover have "PTE_ADDR e - KERNBASE = P2V (PTE_ADDR e)"
    by (simp add: P2V_def KERNBASE_def)
  ultimately show ?thesis by (simp add: aligned_def frame_def)
qed

text \<open>An entry built from a page address and permission bits.\<close>

definition low_bits :: "uint \<Rightarrow> bool" where
  "low_bits p \<longleftrightarrow> p < 4096"

lemma low_bits_bit: "low_bits p \<Longrightarrow> bit p n \<Longrightarrow> n < 12"
proof (rule ccontr)
  assume p: "low_bits p" "bit p n" "\<not> n < 12"
  then have "unat p < 2 ^ 12" by (simp add: low_bits_def word_less_nat_alt)
  also have "(2 :: nat) ^ 12 \<le> 2 ^ n" using p by (intro power_increasing) auto
  finally have "unat p div 2 ^ n = 0" by simp
  then have "\<not> bit (unat p) n" by (simp add: bit_iff_odd)
  then show False using p(2) by (simp add: bit_unsigned_iff)
qed

lemma frame_entry:
  assumes "aligned pg" "low_bits perm"
  shows "frame (V2P pg OR perm) = pg"
proof -
  have "bit (PTE_ADDR (V2P pg OR perm)) n = bit (V2P pg) n" for n
    using aligned_bits [OF aligned_V2P [OF assms(1)], of n] low_bits_bit [OF assms(2), of n]
    by (cases "n < 12") (auto simp: PTE_ADDR_bit bit_simps)
  then have "PTE_ADDR (V2P pg OR perm) = V2P pg" by (intro bit_word_eqI)
  then show ?thesis by (simp add: frame_def)
qed

lemma present_entry [simp]: "present (e OR PTE_P)" "present (e OR PTE_P OR f)"
  by (simp_all add: present_bit PTE_P_def bit_simps)

lemma low_bits_or: "low_bits p \<Longrightarrow> low_bits q \<Longrightarrow> low_bits (p OR q)"
proof -
  assume "low_bits p" "low_bits q"
  then have "p OR q = take_bit 12 (p OR q)"
    using low_bits_bit by (intro bit_word_eqI) (auto simp: bit_simps)
  then have "unat (p OR q) = unat (take_bit 12 (p OR q))" by simp
  then show ?thesis by (simp add: low_bits_def word_less_nat_alt unat_mod take_bit_eq_mod)
qed

lemma low_bits_flags [simp]: "low_bits 0" "low_bits PTE_P" "low_bits PTE_W" "low_bits PTE_U"
  by (simp_all add: low_bits_def mmu_defs)

lemma low_bits_PTE_FLAGS [simp]: "low_bits (PTE_FLAGS e)"
proof -
  have "PTE_FLAGS e = take_bit 12 e" by (simp add: PTE_FLAGS_def take_bit_eq_mask mask_eq_exp_minus_1)
  then show ?thesis by (simp add: low_bits_def word_less_nat_alt unat_mod take_bit_eq_mod)
qed

lemma PTE_FLAGS_entry:
  assumes "aligned pg" "low_bits perm"
  shows "PTE_FLAGS (V2P pg OR perm) = perm"
proof -
  have f: "PTE_FLAGS e = take_bit 12 e" for e by (simp add: PTE_FLAGS_def take_bit_eq_mask mask_eq_exp_minus_1)
  have "bit (PTE_FLAGS (V2P pg OR perm)) n = bit perm n" for n
    using aligned_bits [OF aligned_V2P [OF assms(1)], of n] low_bits_bit [OF assms(2), of n]
    by (auto simp: f bit_simps)
  then show ?thesis by (intro bit_word_eqI)
qed

section \<open>Tables\<close>

definition pde_at :: "memory \<Rightarrow> addr \<Rightarrow> addr \<Rightarrow> uint" where
  "pde_at m d i = read32 m (d + 4 * i)"

definition pte_addr :: "memory \<Rightarrow> addr \<Rightarrow> addr \<Rightarrow> addr" where
  "pte_addr m d va = frame (pde_at m d (PDX va)) + 4 * PTX va"

definition lookup :: "memory \<Rightarrow> addr \<Rightarrow> addr \<Rightarrow> uint" where
  "lookup m d va = (if present (pde_at m d (PDX va)) then read32 m (pte_addr m d va) else 0)"

definition tables :: "memory \<Rightarrow> addr \<Rightarrow> addr set" where
  "tables m d = {p. \<exists>i. unat i < 1024 \<and> present (pde_at m d i) \<and> p = frame (pde_at m d i)}"

definition pt_pages :: "memory \<Rightarrow> addr \<Rightarrow> addr set" where
  "pt_pages m d = insert d (tables m d)"

definition pt_ok :: "addr \<Rightarrow> memory \<Rightarrow> addr \<Rightarrow> bool" where
  "pt_ok e m d \<longleftrightarrow> (\<forall>p \<in> pt_pages m d. page_ok e p) \<and> d \<notin> tables m d \<and>
     (\<forall>i j. unat i < 1024 \<longrightarrow> unat j < 1024 \<longrightarrow> present (pde_at m d i) \<longrightarrow> present (pde_at m d j) \<longrightarrow>
        frame (pde_at m d i) = frame (pde_at m d j) \<longrightarrow> i = j)"

lemma tablesI: "unat i < 1024 \<Longrightarrow> present (pde_at m d i) \<Longrightarrow> frame (pde_at m d i) \<in> tables m d"
  by (auto simp: tables_def)

lemma pt_ok_aligned: "pt_ok e m d \<Longrightarrow> aligned d" "pt_ok e m d \<Longrightarrow> p \<in> pt_pages m d \<Longrightarrow> aligned p"
  by (auto simp: pt_ok_def pt_pages_def page_ok_def)

lemma pt_ok_inj: "pt_ok e m d \<Longrightarrow> unat i < 1024 \<Longrightarrow> unat j < 1024 \<Longrightarrow> present (pde_at m d i) \<Longrightarrow>
    present (pde_at m d j) \<Longrightarrow> frame (pde_at m d i) = frame (pde_at m d j) \<Longrightarrow> i = j"
  by (auto simp: pt_ok_def)

lemma pt_ok_table_not_dir: "pt_ok e m d \<Longrightarrow> unat i < 1024 \<Longrightarrow> present (pde_at m d i) \<Longrightarrow> frame (pde_at m d i) \<noteq> d"
  using tablesI [of i m d] by (auto simp: pt_ok_def)

lemma pt_cong:
  assumes "\<And>i. unat i < 1024 \<Longrightarrow> pde_at m' d i = pde_at m d i"
  shows "tables m' d = tables m d" "pt_pages m' d = pt_pages m d" "pt_ok e m' d = pt_ok e m d"
    "pte_addr m' d va = pte_addr m d va"
proof -
  show t: "tables m' d = tables m d" using assms by (auto simp: tables_def)
  then show p: "pt_pages m' d = pt_pages m d" by (simp add: pt_pages_def)
  show "pt_ok e m' d = pt_ok e m d" unfolding pt_ok_def t p by (auto simp: assms cong: imp_cong)
  show "pte_addr m' d va = pte_addr m d va" using assms [of "PDX va"] by (simp add: pte_addr_def)
qed

lemma pt_same_out:
  assumes "same_out P m m'" "\<forall>p \<in> P. aligned p" "pt_pages m d \<inter> P = {}" "pt_ok e m d"
  shows "pt_pages m' d = pt_pages m d" "pt_ok e m' d" "lookup m' d va = lookup m d va"
proof -
  have al: "aligned d" using pt_ok_aligned [OF assms(4)] by simp
  have pde: "pde_at m' d i = pde_at m d i" if "unat i < 1024" for i
    unfolding pde_at_def
    using assms(3) that by (intro same_out_slot [OF assms(1,2) al]) (auto simp: pt_pages_def)
  note c = pt_cong [where m = m and m' = m' and d = d, OF pde]
  show "pt_pages m' d = pt_pages m d" "pt_ok e m' d" using c assms(4) by simp_all
  show "lookup m' d va = lookup m d va"
  proof (cases "present (pde_at m d (PDX va))")
    case True
    have f: "frame (pde_at m d (PDX va)) \<notin> P"
      using tablesI [of "PDX va" m d] True assms(3) by (auto simp: pt_pages_def)
    have "read32 m' (pte_addr m d va) = read32 m (pte_addr m d va)"
      unfolding pte_addr_def by (rule same_out_slot [OF assms(1,2) aligned_frame f]) simp
    then show ?thesis using True c(4) [of va] by (simp add: lookup_def pde)
  qed (simp add: lookup_def pde)
qed

lemma pde_same_out:
  assumes "same_out P m m'" "\<forall>p \<in> P. aligned p" "pt_pages m d \<inter> P = {}" "pt_ok e m d"
  shows "unat i < 1024 \<Longrightarrow> pde_at m' d i = pde_at m d i" "pte_addr m' d va = pte_addr m d va"
proof -
  show pde: "pde_at m' d i = pde_at m d i" if "unat i < 1024" for i
    unfolding pde_at_def
    using assms(3) that pt_ok_aligned [OF assms(4)]
    by (intro same_out_slot [OF assms(1,2)]) (auto simp: pt_pages_def)
  show "pte_addr m' d va = pte_addr m d va" by (simp add: pte_addr_def pde)
qed

lemma set_pte:
  assumes "pt_ok e m d" "present (pde_at m d (PDX va))"
  shows "pt_pages (write32 m (pte_addr m d va) v) d = pt_pages m d"
    "pt_ok e (write32 m (pte_addr m d va) v) d"
    "lookup (write32 m (pte_addr m d va) v) d vb = (if vpn vb = vpn va then v else lookup m d vb)"
    "same_out (pt_pages m d) m (write32 m (pte_addr m d va) v)"
proof -
  let ?t = "frame (pde_at m d (PDX va))" and ?m = "write32 m (pte_addr m d va) v"
  have ne: "?t \<noteq> d" using pt_ok_table_not_dir [OF assms(1) PDX_lt assms(2)] .
  have so: "same_out {?t} m ?m" unfolding pte_addr_def by (rule same_out_write_slot) simp
  have pde: "pde_at ?m d i = pde_at m d i" if "unat i < 1024" for i
    unfolding pde_at_def using pt_ok_aligned(1) [OF assms(1)] ne that aligned_frame
    by (intro same_out_slot [OF so]) auto
  note c = pt_cong [where m = m and m' = ?m and d = d, OF pde]
  show "pt_pages ?m d = pt_pages m d" "pt_ok e ?m d" using c assms(1) by simp_all
  show "same_out (pt_pages m d) m ?m"
    using so tablesI [OF PDX_lt assms(2)] by (auto intro: same_out_mono simp: pt_pages_def)
  show "lookup ?m d vb = (if vpn vb = vpn va then v else lookup m d vb)"
  proof (cases "present (pde_at m d (PDX vb))")
    case False
    then show ?thesis using assms(2) same_vpn [of vb va] by (auto simp: lookup_def pde)
  next
    case True
    have r: "read32 ?m (pte_addr m d vb) = (if vpn vb = vpn va then v else read32 m (pte_addr m d vb))"
    proof (cases "PDX vb = PDX va")
      case True
      then show ?thesis
        using read_slot_write [OF aligned_frame, of "PTX va" "PTX vb" m "pde_at m d (PDX va)" v] same_vpn [of vb va]
        by (auto simp: pte_addr_def)
    next
      case False
      then have "frame (pde_at m d (PDX vb)) \<noteq> ?t"
        using pt_ok_inj [OF assms(1) PDX_lt PDX_lt True assms(2)] by auto
      then have "read32 ?m (pte_addr m d vb) = read32 m (pte_addr m d vb)"
        unfolding pte_addr_def [of m d vb] using aligned_frame by (intro same_out_slot [OF so]) auto
      then show ?thesis using False same_vpn [of vb va] by auto
    qed
    then show ?thesis using True by (simp add: lookup_def pde c(4))
  qed
qed

text \<open>A zeroed page entered in the directory: the lookup does not change.\<close>

lemma new_table:
  assumes "pt_ok e m d" "\<not> present (pde_at m d (PDX va))" "page_ok e pg" "pg \<notin> pt_pages m d"
    and perm: "present (V2P pg OR perm)" "low_bits perm"
    and m': "m' = write32 (memset m pg 0 PGSIZE) (d + 4 * PDX va) (V2P pg OR perm)"
  shows "pt_pages m' d = insert pg (pt_pages m d)" "pt_ok e m' d" "lookup m' d vb = lookup m d vb"
    "present (pde_at m' d (PDX va))" "frame (pde_at m' d (PDX va)) = pg"
    "same_out {pg, d} m m'"
proof -
  have al: "aligned d" "aligned pg" and ne: "pg \<noteq> d"
    using assms(1,3,4) pt_ok_aligned by (auto simp: page_ok_def pt_pages_def)
  have so: "same_out ({pg} \<union> {d}) m m'"
    unfolding m' by (rule same_out_trans [OF same_out_memset same_out_write_slot]) simp
  then show "same_out {pg, d} m m'" by (simp add: insert_commute Un_commute)
  have f: "frame (V2P pg OR perm) = pg" by (rule frame_entry [OF al(2) perm(2)])
  have pde: "pde_at m' d i = (if i = PDX va then V2P pg OR perm else pde_at m d i)" if "unat i < 1024" for i
  proof -
    have "read32 (memset m pg 0 PGSIZE) (d + 4 * i) = read32 m (d + 4 * i)"
      using al ne that by (intro same_out_slot [OF same_out_memset]) auto
    then show ?thesis using read_slot_write [OF al(1) PDX_lt that] by (auto simp: pde_at_def m')
  qed
  show "present (pde_at m' d (PDX va))" "frame (pde_at m' d (PDX va)) = pg"
    using pde [OF PDX_lt] perm(1) f by simp_all
  have tb: "tables m' d = insert pg (tables m d)"
  proof (rule set_eqI)
    fix p
    have "p \<in> tables m' d \<longleftrightarrow> (\<exists>i. unat i < 1024 \<and> i = PDX va \<and> p = pg) \<or>
        (\<exists>i. unat i < 1024 \<and> i \<noteq> PDX va \<and> present (pde_at m d i) \<and> p = frame (pde_at m d i))"
      using pde perm(1) f unfolding tables_def mem_Collect_eq by (metis (no_types, lifting))
    also have "\<dots> \<longleftrightarrow> p = pg \<or> p \<in> tables m d"
      using assms(2) PDX_lt unfolding tables_def mem_Collect_eq by metis
    finally show "p \<in> tables m' d \<longleftrightarrow> p \<in> insert pg (tables m d)" by simp
  qed
  then show "pt_pages m' d = insert pg (pt_pages m d)" by (auto simp: pt_pages_def)
  have old: "frame (pde_at m d i) \<noteq> pg" if "unat i < 1024" "present (pde_at m d i)" for i
    using assms(4) tablesI [OF that] by (auto simp: pt_pages_def)
  have inj: "i = j" if "unat i < 1024" "unat j < 1024" "present (pde_at m' d i)" "present (pde_at m' d j)"
      "frame (pde_at m' d i) = frame (pde_at m' d j)" for i j
    using that pde [OF that(1)] pde [OF that(2)] old [of i] old [of j] f pt_ok_inj [OF assms(1), of i j]
    by (auto split: if_splits)
  have "\<forall>p \<in> pt_pages m' d. page_ok e p" "d \<notin> tables m' d"
    using assms(1,3) ne tb by (auto simp: pt_ok_def pt_pages_def)
  with inj show "pt_ok e m' d" unfolding pt_ok_def by blast
  show "lookup m' d vb = lookup m d vb"
  proof (cases "PDX vb = PDX va")
    case True
    have "read32 m' (pg + 4 * PTX vb) = read32 (memset m pg 0 PGSIZE) (pg + 4 * PTX vb)"
      unfolding m' using al ne by (intro same_out_slot [OF same_out_write_slot]) auto
    then have "read32 m' (pg + 4 * PTX vb) = 0" by (simp add: memset_slot)
    then show ?thesis using True pde [OF PDX_lt, of vb] f perm(1) assms(2) by (simp add: lookup_def pte_addr_def)
  next
    case False
    then have e: "pde_at m' d (PDX vb) = pde_at m d (PDX vb)" using pde [OF PDX_lt, of vb] by simp
    have "read32 m' (pte_addr m d vb) = read32 m (pte_addr m d vb)" if "present (pde_at m d (PDX vb))"
      unfolding pte_addr_def
      using old [OF PDX_lt that] pt_ok_table_not_dir [OF assms(1) PDX_lt that] al aligned_frame
      by (intro same_out_slot [OF so]) auto
    then show ?thesis by (simp add: lookup_def pte_addr_def e)
  qed
qed

lemma pte_addr_nonzero:
  assumes "pt_ok e m d" "present (pde_at m d (PDX va))"
  shows "pte_addr m d va \<noteq> 0"
proof -
  let ?p = "frame (pde_at m d (PDX va))"
  have "page_ok e ?p" using assms tablesI [of "PDX va" m d] by (auto simp: pt_ok_def pt_pages_def)
  then have "?p \<noteq> 0" by (rule page_ok_nonzero)
  then have "0 < unat ?p" by (simp add: unat_gt_0)
  then have "0 < unat (?p + 4 * PTX va)" using unat_slot [OF aligned_frame, of "PTX va"] by simp
  then show ?thesis unfolding pte_addr_def by (metis unat_0 less_irrefl)
qed

end
