(* ===== verification/Vm_Correct.thy ===== *)
theory Vm_Correct
  imports Vm Pagetable
begin

unbundle bit_operations_syntax

text \<open>
  Correctness of the page-table operations of \<open>Vm\<close>. The invariant \<open>vm_inv\<close> says that a page
  directory and its page tables are distinct pages of allocatable memory, none of them on the
  free list. \<open>as_inv\<close> adds the user pages: every page mapped below \<^verbatim>\<open>KERNBASE\<close> has a frame of
  its own. The lemmas give the lookup after each operation and account for every page.
\<close>

section \<open>States that differ in memory only\<close>

definition mem_only :: "'a kmem_scheme machine \<Rightarrow> 'a kmem_scheme machine \<Rightarrow> bool" where
  "mem_only s t \<longleftrightarrow> (\<exists>m f. t = upd_kern (\<lambda>k. k\<lparr>mem := m, freelist := f\<rparr>) s \<or>
     t = upd_kern (\<lambda>k. k\<lparr>mem := m, freelist := f\<rparr>) (ktouch s))"

lemma ktouch_upd: "(\<And>k. use_lock (g k) = use_lock k) \<Longrightarrow> ktouch (upd_kern g s) = upd_kern g (ktouch s)"
  by (simp add: ktouch_def upd_kern_commute)

lemma ktouch_ktouch [simp]: "ktouch (ktouch s) = ktouch s"
  by (simp add: ktouch_def)

lemma ktouch_fields [simp]:
  "lapic_id (ktouch s) = lapic_id s" "locks (ktouch s) = locks s" "this (ktouch s) = this s"
  by (simp_all add: ktouch_def)

lemma mem_only_refl [simp]: "mem_only s s"
  unfolding mem_only_def upd_kern_def
  by (rule exI [of _ "mem (kern s)"], rule exI [of _ "freelist (kern s)"]) simp

lemma mem_only_ktouch [simp]: "mem_only s (ktouch s)"
  unfolding mem_only_def upd_kern_def
  by (rule exI [of _ "mem (kern s)"], rule exI [of _ "freelist (kern s)"]) simp

lemma mem_only_trans: "mem_only s t \<Longrightarrow> mem_only t u \<Longrightarrow> mem_only s u"
  unfolding mem_only_def by (elim exE disjE; simp add: ktouch_upd; blast)

lemma mem_only_fields:
  assumes "mem_only s t"
  shows "end_sym (kern t) = end_sym (kern s)" "use_lock (kern t) = use_lock (kern s)"
    "kmem.more (kern t) = kmem.more (kern s)" "kready t = kready s" "lapic_id t = lapic_id s"
    "locks t = locks s"
  using assms by (auto simp: mem_only_def)

lemma mem_only_upd_mem [simp]: "mem_only s (upd_mem f s)"
  unfolding mem_only_def upd_kern_def upd_mem_def
  by (rule exI [of _ "f (mem (kern s))"], rule exI [of _ "freelist (kern s)"]) simp

lemma upd_mem_fields [simp]:
  "mem (kern (upd_mem f s)) = f (mem (kern s))" "freelist (kern (upd_mem f s)) = freelist (kern s)"
  "end_sym (kern (upd_mem f s)) = end_sym (kern s)" "use_lock (kern (upd_mem f s)) = use_lock (kern s)"
  "kready (upd_mem f s) = kready s" "kmem.more (kern (upd_mem f s)) = kmem.more (kern s)"
  by (simp_all add: upd_mem_def)

lemma kmem_inv_same_out:
  assumes "kmem_inv k xs" "same_out P (mem k) (mem k')" "\<forall>p \<in> P. aligned p" "P \<inter> set xs = {}"
    "freelist k' = freelist k" "end_sym k' = end_sym k"
  shows "kmem_inv k' xs"
proof -
  have "read32 (mem k') x = read32 (mem k) x" if "x \<in> set xs" for x
    using same_out_slot [OF assms(2,3), of x 0] assms(1,4) that by (auto simp: kmem_inv_def page_ok_def)
  then have "free_chain (mem k') (freelist k') xs"
    using assms(1,5) free_chain_cong [of xs "mem k'" "mem k"] by (simp add: kmem_inv_def)
  then show ?thesis using assms(1,6) by (simp add: kmem_inv_def)
qed

section \<open>Walking\<close>

definition vm_inv :: "'a kmem_scheme machine \<Rightarrow> addr \<Rightarrow> addr list \<Rightarrow> bool" where
  "vm_inv s d xs \<longleftrightarrow> kready s \<and> kmem_inv (kern s) xs \<and> KERNBASE < end_sym (kern s) \<and>
     pt_ok (end_sym (kern s)) (mem (kern s)) d \<and> pt_pages (mem (kern s)) d \<inter> set xs = {}"

lemma vm_invD:
  assumes "vm_inv s d xs"
  shows "kready s" "kmem_inv (kern s) xs" "KERNBASE < end_sym (kern s)"
    "pt_ok (end_sym (kern s)) (mem (kern s)) d" "pt_pages (mem (kern s)) d \<inter> set xs = {}"
    "p \<in> pt_pages (mem (kern s)) d \<Longrightarrow> aligned p" "x \<in> set xs \<Longrightarrow> page_ok (end_sym (kern s)) x"
    "x \<in> set xs \<Longrightarrow> aligned x" "distinct xs"
  using assms pt_ok_aligned by (auto simp: vm_inv_def kmem_inv_def page_ok_def)

text \<open>The table grew by pages taken from the front of the free list; nothing else changed.\<close>

definition grows :: "addr \<Rightarrow> 'a kmem_scheme machine \<Rightarrow> addr list \<Rightarrow> 'a kmem_scheme machine \<Rightarrow> addr list \<Rightarrow> bool" where
  "grows d s xs t ys \<longleftrightarrow> vm_inv t d ys \<and> mem_only s t \<and> (\<exists>zs. xs = zs @ ys \<and>
     pt_pages (mem (kern t)) d = pt_pages (mem (kern s)) d \<union> set zs) \<and>
     same_out (pt_pages (mem (kern s)) d \<union> set xs) (mem (kern s)) (mem (kern t))"

lemma grows_refl: "vm_inv s d xs \<Longrightarrow> grows d s xs s xs"
  by (auto simp: grows_def)

lemma grows_trans:
  assumes "grows d s xs t ys" "grows d t ys u zs"
  shows "grows d s xs u zs"
proof -
  from assms(1) obtain as where a: "xs = as @ ys" "pt_pages (mem (kern t)) d = pt_pages (mem (kern s)) d \<union> set as"
    by (auto simp: grows_def)
  from assms(2) obtain bs where b: "ys = bs @ zs" "pt_pages (mem (kern u)) d = pt_pages (mem (kern t)) d \<union> set bs"
    by (auto simp: grows_def)
  have "pt_pages (mem (kern t)) d \<union> set ys = pt_pages (mem (kern s)) d \<union> set xs" using a by auto
  then have "same_out (pt_pages (mem (kern s)) d \<union> set xs) (mem (kern s)) (mem (kern u))"
    using assms same_out_trans [of _ "mem (kern s)" "mem (kern t)" _ "mem (kern u)"]
    by (metis grows_def Un_absorb)
  moreover have "xs = (as @ bs) @ zs \<and> pt_pages (mem (kern u)) d = pt_pages (mem (kern s)) d \<union> set (as @ bs)"
    using a b by auto
  ultimately show ?thesis using assms mem_only_trans [of s t u] unfolding grows_def by metis
qed

lemma walk_noalloc:
  "walkpgdir d va False s =
     Done (if present (pde_at (mem (kern s)) d (PDX va)) then pte_addr (mem (kern s)) d va else 0) s"
  by (simp add: walkpgdir_def present_def pde_at_def pte_addr_def frame_def Let_def)

lemma walk_present:
  "present (pde_at (mem (kern s)) d (PDX va)) \<Longrightarrow> walkpgdir d va alloc s = Done (pte_addr (mem (kern s)) d va) s"
  by (simp add: walkpgdir_def present_def pde_at_def pte_addr_def frame_def Let_def)

lemma walk_full:
  assumes "vm_inv s d []" "\<not> present (pde_at (mem (kern s)) d (PDX va))"
  shows "walkpgdir d va True s = Done 0 (ktouch s)"
proof -
  have "freelist (kern s) = 0" using vm_invD(2) [OF assms(1)] by (simp add: kmem_inv_def)
  then show ?thesis
    using assms(2) kalloc_ok [OF vm_invD(1) [OF assms(1)]]
    by (simp add: walkpgdir_def present_def pde_at_def Let_def)
qed

lemma vm_inv_ktouch [simp]: "vm_inv (ktouch s) d xs = vm_inv s d xs"
  by (simp add: vm_inv_def)

lemma walk_new:
  assumes "vm_inv s d (x # xs)" "\<not> present (pde_at (mem (kern s)) d (PDX va))"
  shows "\<exists>t. walkpgdir d va True s = Done (pte_addr (mem (kern t)) d va) t \<and> grows d s (x # xs) t xs \<and>
    present (pde_at (mem (kern t)) d (PDX va)) \<and> lookup (mem (kern t)) d = lookup (mem (kern s)) d"
proof -
  let ?m = "mem (kern s)" and ?e = "V2P x OR PTE_P OR PTE_W OR PTE_U"
  note inv = vm_invD [OF assms(1)]
  have fl: "freelist (kern s) = x" and x0: "x \<noteq> 0" using inv(2) by (auto simp: kmem_inv_def)
  define t where "t = upd_mem (\<lambda>m. write32 m (d + 4 * PDX va) ?e) (upd_mem (\<lambda>m. memset m x 0 PGSIZE)
    (upd_kern (\<lambda>k. k\<lparr>freelist := read32 (mem k) (freelist k)\<rparr>) (ktouch s)))"
  define m' where "m' = write32 (memset ?m x 0 PGSIZE) (d + 4 * PDX va) ?e"
  have mt: "mem (kern t) = m'" by (simp add: t_def m'_def)
  have x: "page_ok (end_sym (kern s)) x" "x \<notin> pt_pages ?m d" using inv(5,7) by auto
  have perm: "low_bits (PTE_P OR PTE_W OR PTE_U)" by (intro low_bits_or low_bits_flags)
  have pr: "present ?e" by (simp add: present_bit bit_simps PTE_P_def)
  note n = new_table [OF inv(4) assms(2) x pr perm m'_def]
  have w: "walkpgdir d va True s = Done (pte_addr (mem (kern t)) d va) t"
    using assms(2) kalloc_ok [OF inv(1)] fl x0 n(5)
    by (simp add: walkpgdir_def present_def [symmetric] pde_at_def [symmetric] pte_addr_def Let_def mt)
      (simp add: t_def)
  have "kmem_inv ((kern s)\<lparr>freelist := read32 ?m x\<rparr>) xs" using kmem_inv_alloc [OF inv(2)] fl by simp
  moreover have "freelist (kern t) = read32 ?m x" "end_sym (kern t) = end_sym (kern s)"
    by (simp_all add: t_def fl)
  moreover have "\<forall>p \<in> {x, d}. aligned p" "{x, d} \<inter> set xs = {}"
    using inv(5,6,8,9) by (auto simp: pt_pages_def)
  ultimately have "kmem_inv (kern t) xs"
    using n(6) kmem_inv_same_out [of "(kern s)\<lparr>freelist := read32 ?m x\<rparr>" xs "{x, d}" "kern t"] by (simp add: mt)
  moreover have mo: "mem_only s t"
    unfolding t_def upd_mem_def mem_only_def
    by (rule exI [of _ m'], rule exI [of _ "read32 ?m x"]) (simp add: upd_kern_def m'_def fl)
  ultimately have "vm_inv t d xs"
    using inv(1,3,5,9) n(1,2) mem_only_fields [OF mo] by (auto simp: vm_inv_def mt)
  moreover have "x # xs = [x] @ xs \<and> pt_pages m' d = pt_pages ?m d \<union> set [x]" using n(1) by simp
  moreover have "same_out (pt_pages ?m d \<union> set (x # xs)) ?m m'"
    using n(6) by (rule same_out_mono) (auto simp: pt_pages_def)
  ultimately have "grows d s (x # xs) t xs" using mo unfolding grows_def mt by blast
  then show ?thesis using w n(3,4) by (auto simp: mt)
qed

lemma walk_alloc:
  assumes "vm_inv s d xs"
  shows "(\<exists>t ys. walkpgdir d va True s = Done (pte_addr (mem (kern t)) d va) t \<and> grows d s xs t ys \<and>
      present (pde_at (mem (kern t)) d (PDX va)) \<and> lookup (mem (kern t)) d = lookup (mem (kern s)) d) \<or>
    (\<exists>t. walkpgdir d va True s = Done 0 t \<and> xs = [] \<and> grows d s xs t [] \<and> lookup (mem (kern t)) d = lookup (mem (kern s)) d)"
proof (cases "present (pde_at (mem (kern s)) d (PDX va))")
  case True
  then show ?thesis using walk_present [of s d va True] grows_refl [OF assms] by blast
next
  case False
  show ?thesis
  proof (cases xs)
    case Nil
    have "grows d s [] (ktouch s) []" using assms Nil by (auto simp: grows_def)
    then show ?thesis using walk_full [of s d va] assms False Nil by auto
  next
    case (Cons x ys)
    then show ?thesis using walk_new [of s d x ys va] assms False by blast
  qed
qed

section \<open>Mapping\<close>

lemma write_pte_grows:
  fixes v :: uint
  assumes "vm_inv s d xs" "present (pde_at (mem (kern s)) d (PDX va))"
  defines "t \<equiv> upd_mem (\<lambda>m. write32 m (pte_addr (mem (kern s)) d va) v) s"
  shows "grows d s xs t xs"
    "lookup (mem (kern t)) d = (\<lambda>w. if vpn w = vpn va then v else lookup (mem (kern s)) d w)"
    "pt_pages (mem (kern t)) d = pt_pages (mem (kern s)) d"
proof -
  note inv = vm_invD [OF assms(1)]
  note p = set_pte [OF inv(4) assms(2), of v]
  have m: "mem (kern t) = write32 (mem (kern s)) (pte_addr (mem (kern s)) d va) v" by (simp add: t_def)
  have "kmem_inv (kern t) xs"
    using inv(5,6) p(4) by (intro kmem_inv_same_out [OF inv(2)]) (auto simp: t_def)
  then have "vm_inv t d xs" using inv p(1,2) by (auto simp: vm_inv_def t_def)
  then show "grows d s xs t xs"
    using p(1) same_out_mono [OF p(4)] unfolding grows_def m by (auto simp: t_def)
  show "lookup (mem (kern t)) d = (\<lambda>w. if vpn w = vpn va then v else lookup (mem (kern s)) d w)"
    using p(3) by (auto simp: m)
  show "pt_pages (mem (kern t)) d = pt_pages (mem (kern s)) d" using p(1) by (simp add: m)
qed

lemma vpn_next: "aligned a \<Longrightarrow> unat a + 4096 < 2 ^ 32 \<Longrightarrow> vpn (a + PGSIZE) = Suc (vpn a) \<and> aligned (a + PGSIZE)"
  using unat_add_small [of a PGSIZE] by (simp add: vpn_def aligned_def PGSIZE_def)

lemma lookup_vpn: "vpn a = vpn b \<Longrightarrow> lookup m d a = lookup m d b"
  using same_vpn [of a b] by (simp add: lookup_def pte_addr_def)

text \<open>The entries of \<open>n\<close> pages from \<open>a\<close> on after mapping them to consecutive frames.\<close>

definition mapped :: "addr \<Rightarrow> nat \<Rightarrow> uint \<Rightarrow> uint \<Rightarrow> (addr \<Rightarrow> uint) \<Rightarrow> addr \<Rightarrow> uint" where
  "mapped a n pa perm f v =
     (if vpn a \<le> vpn v \<and> vpn v < vpn a + n then (pa + of_nat (vpn v - vpn a) * PGSIZE) OR perm OR PTE_P else f v)"

lemma mapped_0 [simp]: "mapped a 0 pa perm f = f"
  by (auto simp: mapped_def fun_eq_iff)

lemma mapped_Suc:
  assumes "vpn (a + PGSIZE) = Suc (vpn a)"
    and f: "\<And>v. f' v = (if vpn v = vpn a then pa OR perm OR PTE_P else f v)"
  shows "mapped (a + PGSIZE) n (pa + PGSIZE) perm f' = mapped a (Suc n) pa perm f"
proof
  fix v
  consider "vpn v = vpn a" | "vpn v < vpn a" | k where "vpn v = Suc (vpn a) + k"
    by (metis add.commute le_Suc_ex not_less_eq_eq linorder_neqE_nat not_less)
  then show "mapped (a + PGSIZE) n (pa + PGSIZE) perm f' v = mapped a (Suc n) pa perm f v"
    unfolding mapped_def assms(1) f by cases (auto simp: algebra_simps)
qed

lemma map_step:
  fixes s :: "'a kmem_scheme machine"
  assumes "vm_inv s d xs" "\<not> present (lookup (mem (kern s)) d a)"
  shows "(\<exists>u ys. (\<forall>n lastp. mappages_from (Suc n) d a lastp pa perm s =
        (if a = lastp then Done 0 u else mappages_from n d (a + PGSIZE) lastp (pa + PGSIZE) perm u)) \<and>
      grows d s xs u ys \<and>
      lookup (mem (kern u)) d = (\<lambda>v. if vpn v = vpn a then pa OR perm OR PTE_P else lookup (mem (kern s)) d v)) \<or>
    (\<exists>t. (\<forall>n lastp. mappages_from (Suc n) d a lastp pa perm s = Done (- 1) t) \<and> grows d s xs t [] \<and>
      lookup (mem (kern t)) d = lookup (mem (kern s)) d)"
  using walk_alloc [OF assms(1), of a]
proof (elim disjE exE conjE)
  fix t :: "'a kmem_scheme machine" and ys
  let ?p = "pte_addr (mem (kern t)) d a"
  assume w: "walkpgdir d a True s = Done ?p t" and g: "grows d s xs t ys"
    and pr: "present (pde_at (mem (kern t)) d (PDX a))" and l: "lookup (mem (kern t)) d = lookup (mem (kern s)) d"
  define u where "u = upd_mem (\<lambda>m. write32 m ?p (pa OR perm OR PTE_P)) t"
  have inv: "vm_inv t d ys" using g by (simp add: grows_def)
  note gu = write_pte_grows [OF inv pr, of "pa OR perm OR PTE_P", folded u_def]
  have "\<not> present (lookup (mem (kern t)) d a)" using assms(2) l by simp
  then have np: "read32 (mem (kern t)) ?p AND PTE_P = 0" using pr by (simp add: lookup_def present_def)
  have "?p \<noteq> 0" using inv pr pte_addr_nonzero vm_invD(4) by blast
  then have "\<forall>n lastp. mappages_from (Suc n) d a lastp pa perm s =
      (if a = lastp then Done 0 u else mappages_from n d (a + PGSIZE) lastp (pa + PGSIZE) perm u)"
    using w np by (simp add: u_def Let_def)
  moreover have "grows d s xs u ys" using grows_trans [OF g gu(1)] .
  moreover have "lookup (mem (kern u)) d = (\<lambda>v. if vpn v = vpn a then pa OR perm OR PTE_P else lookup (mem (kern s)) d v)"
    unfolding gu(2) l ..
  ultimately show ?thesis by blast
next
  fix t
  assume "walkpgdir d a True s = Done 0 t" "grows d s xs t []"
    "lookup (mem (kern t)) d = lookup (mem (kern s)) d"
  then show ?thesis by (intro disjI2 exI [of _ t]) simp
qed

lemma mappages_from_ok:
  assumes "vm_inv s d xs" "aligned a" "unat a + 4096 * n < 2 ^ 32" "lastp = a + of_nat n * PGSIZE"
    "\<forall>v. vpn a \<le> vpn v \<and> vpn v \<le> vpn a + n \<longrightarrow> \<not> present (lookup (mem (kern s)) d v)"
  shows "\<exists>r t ys. mappages_from (Suc n) d a lastp pa perm s = Done r t \<and> grows d s xs t ys \<and>
    (r = 0 \<and> lookup (mem (kern t)) d = mapped a (Suc n) pa perm (lookup (mem (kern s)) d) \<or>
     r = - 1 \<and> ys = [] \<and> (\<exists>j \<le> n. lookup (mem (kern t)) d = mapped a j pa perm (lookup (mem (kern s)) d)))"
  using assms
proof (induction n arbitrary: a pa s xs)
  case (0 a pa s xs)
  have "\<not> present (lookup (mem (kern s)) d a)" using "0.prems"(5) by simp
  from map_step [OF "0.prems"(1) this, of pa perm] show ?case
  proof (elim disjE exE conjE)
    fix u ys
    assume "\<forall>n lastp. mappages_from (Suc n) d a lastp pa perm s =
        (if a = lastp then Done 0 u else mappages_from n d (a + PGSIZE) lastp (pa + PGSIZE) perm u)"
      "grows d s xs u ys"
      "lookup (mem (kern u)) d = (\<lambda>v. if vpn v = vpn a then pa OR perm OR PTE_P else lookup (mem (kern s)) d v)"
    then show ?thesis using "0.prems"(4)
      by (intro exI [of _ 0] exI [of _ u] exI [of _ ys]) (auto simp: mapped_def fun_eq_iff)
  qed (metis mapped_0 le_refl)
next
  case (Suc n a pa s xs)
  have np: "\<not> present (lookup (mem (kern s)) d a)" using Suc.prems(5) by simp
  have nx: "vpn (a + PGSIZE) = Suc (vpn a)" "aligned (a + PGSIZE)" "unat (a + PGSIZE) = unat a + 4096"
    using vpn_next [of a] Suc.prems(2,3) unat_add_small [of a PGSIZE] by (simp_all add: PGSIZE_def)
  have "lastp - a = of_nat (Suc n) * PGSIZE" using Suc.prems(4) by simp
  moreover have "of_nat (Suc n) * PGSIZE \<noteq> 0"
  proof -
    have "unat (of_nat (Suc n * 4096) :: addr) = Suc n * 4096" using Suc.prems(3) by (subst unat_of_nat) simp
    then have "(of_nat (Suc n * 4096) :: addr) \<noteq> 0" by (metis unat_0 mult_eq_0_iff nat.distinct(1) zero_neq_numeral)
    then show ?thesis by (simp add: PGSIZE_def algebra_simps)
  qed
  ultimately have al: "a \<noteq> lastp" by auto
  from map_step [OF Suc.prems(1) np, of pa perm] show ?case
  proof (elim disjE exE conjE)
    fix u ys
    assume m: "\<forall>n lastp. mappages_from (Suc n) d a lastp pa perm s =
        (if a = lastp then Done 0 u else mappages_from n d (a + PGSIZE) lastp (pa + PGSIZE) perm u)"
      and g: "grows d s xs u ys"
      and l: "lookup (mem (kern u)) d = (\<lambda>v. if vpn v = vpn a then pa OR perm OR PTE_P else lookup (mem (kern s)) d v)"
    have "\<exists>r t zs. mappages_from (Suc n) d (a + PGSIZE) lastp (pa + PGSIZE) perm u = Done r t \<and> grows d u ys t zs \<and>
      (r = 0 \<and> lookup (mem (kern t)) d = mapped (a + PGSIZE) (Suc n) (pa + PGSIZE) perm (lookup (mem (kern u)) d) \<or>
       r = - 1 \<and> zs = [] \<and>
         (\<exists>j \<le> n. lookup (mem (kern t)) d = mapped (a + PGSIZE) j (pa + PGSIZE) perm (lookup (mem (kern u)) d)))"
      using Suc.prems nx g l
      by (intro Suc.IH) (auto simp: grows_def algebra_simps)
    then obtain r t zs where t: "mappages_from (Suc n) d (a + PGSIZE) lastp (pa + PGSIZE) perm u = Done r t"
      "grows d u ys t zs" and
      c: "r = 0 \<and> lookup (mem (kern t)) d = mapped a (Suc (Suc n)) pa perm (lookup (mem (kern s)) d) \<or>
       r = - 1 \<and> zs = [] \<and> (\<exists>j \<le> n. lookup (mem (kern t)) d = mapped a (Suc j) pa perm (lookup (mem (kern s)) d))"
      using mapped_Suc [OF nx(1), of "lookup (mem (kern u)) d" pa perm "lookup (mem (kern s)) d"] l by auto
    have "mappages_from (Suc (Suc n)) d a lastp pa perm s = Done r t" using m al t(1) by simp
    moreover have "grows d s xs t zs" using grows_trans [OF g t(2)] .
    ultimately show ?thesis using c by (intro exI [of _ r] exI [of _ t] exI [of _ zs]) (auto intro: Suc_leI)
  qed (metis mapped_0 le0)
qed

lemma unat_pages: "4096 * n < 2 ^ 32 \<Longrightarrow> unat (of_nat n * PGSIZE :: addr) = 4096 * n"
proof -
  assume "4096 * n < 2 ^ 32"
  then have "unat (of_nat (4096 * n) :: addr) = 4096 * n" by (simp only: unat_of_nat) simp
  moreover have "of_nat n * PGSIZE = (of_nat (4096 * n) :: addr)" by (simp add: PGSIZE_def)
  ultimately show ?thesis by simp
qed

lemma mappages_ok:
  assumes "vm_inv s d xs" "aligned va" "0 < unat sz" "unat va + unat sz \<le> 2 ^ 32"
    and n: "n = (unat sz - 1) div 4096"
    and "\<forall>v. vpn va \<le> vpn v \<and> vpn v \<le> vpn va + n \<longrightarrow> \<not> present (lookup (mem (kern s)) d v)"
  shows "\<exists>r t ys. mappages d va sz pa perm s = Done r t \<and> grows d s xs t ys \<and>
    (r = 0 \<and> lookup (mem (kern t)) d = mapped va (Suc n) pa perm (lookup (mem (kern s)) d) \<or>
     r = - 1 \<and> ys = [] \<and> (\<exists>j \<le> n. lookup (mem (kern t)) d = mapped va j pa perm (lookup (mem (kern s)) d)))"
proof -
  have s1: "unat (sz - 1) = unat sz - 1" using assms(3) by (intro unat_minus_one) auto
  have "unat (va + (sz - 1)) = unat va + (unat sz - 1)"
    using assms(3,4) s1 by (subst unat_add_small) auto
  then have v1: "unat (va + sz - 1) = unat va + (unat sz - 1)" by (simp add: algebra_simps)
  obtain k where k: "unat va = 4096 * k" using assms(2) unfolding aligned_def by (metis mod_0_imp_dvd dvdE)
  have down: "PGROUNDDOWN va = va" using k by (simp add: word_unat_eq_iff unat_PGROUNDDOWN)
  have n4: "4096 * n \<le> unat sz - 1" by (simp add: n)
  have bound: "unat va + 4096 * n < 2 ^ 32" using n4 assms(3,4) by linarith
  then have un: "unat (of_nat n * PGSIZE :: addr) = 4096 * n" by (intro unat_pages) simp
  have "unat (PGROUNDDOWN (va + sz - 1)) = unat va + 4096 * n"
    using v1 k by (simp add: unat_PGROUNDDOWN n)
  moreover have "unat (va + of_nat n * PGSIZE) = unat va + 4096 * n"
    using un bound by (subst unat_add_small) simp_all
  ultimately have lp: "PGROUNDDOWN (va + sz - 1) = va + of_nat n * PGSIZE"
    by (simp add: word_unat_eq_iff)
  have "mappages d va sz pa perm s = mappages_from (Suc n) d va (va + of_nat n * PGSIZE) pa perm s"
    using un by (simp add: mappages_def Let_def down lp del: mappages_from.simps)
  then show ?thesis using mappages_from_ok [OF assms(1,2) bound refl, of pa perm] assms(6) by simp
qed

section \<open>Address spaces\<close>

definition uframes :: "memory \<Rightarrow> addr \<Rightarrow> addr set" where
  "uframes m d = {p. \<exists>v < KERNBASE. present (lookup m d v) \<and> p = frame (lookup m d v)}"

definition as_pages :: "memory \<Rightarrow> addr \<Rightarrow> addr set" where
  "as_pages m d = pt_pages m d \<union> uframes m d"

definition sp_ok :: "addr \<Rightarrow> memory \<Rightarrow> addr \<Rightarrow> bool" where
  "sp_ok e m d \<longleftrightarrow> pt_ok e m d \<and> (\<forall>p \<in> uframes m d. page_ok e p) \<and> uframes m d \<inter> pt_pages m d = {} \<and>
     (\<forall>v < KERNBASE. \<forall>w < KERNBASE. present (lookup m d v) \<longrightarrow> present (lookup m d w) \<longrightarrow>
        frame (lookup m d v) = frame (lookup m d w) \<longrightarrow> vpn v = vpn w)"

definition as_inv :: "'a kmem_scheme machine \<Rightarrow> addr \<Rightarrow> addr list \<Rightarrow> bool" where
  "as_inv s d xs \<longleftrightarrow> vm_inv s d xs \<and> sp_ok (end_sym (kern s)) (mem (kern s)) d \<and>
     uframes (mem (kern s)) d \<inter> set xs = {}"

lemma uframesI: "v < KERNBASE \<Longrightarrow> present (lookup m d v) \<Longrightarrow> frame (lookup m d v) \<in> uframes m d"
  by (auto simp: uframes_def)

lemma as_invD:
  assumes "as_inv s d xs"
  shows "vm_inv s d xs" "sp_ok (end_sym (kern s)) (mem (kern s)) d" "uframes (mem (kern s)) d \<inter> set xs = {}"
    "as_pages (mem (kern s)) d \<inter> set xs = {}" "p \<in> as_pages (mem (kern s)) d \<Longrightarrow> page_ok (end_sym (kern s)) p"
    "uframes (mem (kern s)) d \<inter> pt_pages (mem (kern s)) d = {}"
proof -
  show v: "vm_inv s d xs" and sp: "sp_ok (end_sym (kern s)) (mem (kern s)) d"
    and u: "uframes (mem (kern s)) d \<inter> set xs = {}"
    using assms by (simp_all add: as_inv_def)
  show "as_pages (mem (kern s)) d \<inter> set xs = {}" using u vm_invD(5) [OF v] by (simp add: as_pages_def Int_Un_distrib2)
  show "uframes (mem (kern s)) d \<inter> pt_pages (mem (kern s)) d = {}" using sp by (simp add: sp_ok_def)
  show "page_ok (end_sym (kern s)) p" if "p \<in> as_pages (mem (kern s)) d" for p
  proof (cases "p \<in> pt_pages (mem (kern s)) d")
    case True
    then show ?thesis using vm_invD(4) [OF v] by (simp add: pt_ok_def)
  next
    case False
    then show ?thesis using that sp by (simp add: as_pages_def sp_ok_def)
  qed
qed

lemma sp_ok_same_out:
  assumes "sp_ok e m d" "same_out P m m'" "\<forall>p \<in> P. aligned p" "pt_pages m d \<inter> P = {}"
  shows "sp_ok e m' d" "lookup m' d = lookup m d" "pt_pages m' d = pt_pages m d" "uframes m' d = uframes m d"
    "as_pages m' d = as_pages m d"
proof -
  have "pt_ok e m d" using assms(1) by (simp add: sp_ok_def)
  note p = pt_same_out [OF assms(2-4) this]
  show l: "lookup m' d = lookup m d" using p(3) by auto
  show pp: "pt_pages m' d = pt_pages m d" using p(1) .
  show u: "uframes m' d = uframes m d" by (simp add: uframes_def l)
  show "as_pages m' d = as_pages m d" by (simp add: as_pages_def pp u)
  show "sp_ok e m' d" using assms(1) p(2) unfolding sp_ok_def l pp u by blast
qed

text \<open>Taking a page from the free list and giving one back.\<close>

lemma kalloc_empty:
  assumes "kready s" "kmem_inv (kern s) []"
  shows "kalloc s = Done 0 (ktouch s)"
  using kalloc_ok [OF assms(1)] assms(2) by (simp add: kmem_inv_def)

lemma kalloc_page:
  assumes "kready s" "kmem_inv (kern s) (x # xs)"
  shows "\<exists>t. kalloc s = Done x t \<and> x \<noteq> 0 \<and> kready t \<and> kmem_inv (kern t) xs \<and> mem_only s t \<and> mem (kern t) = mem (kern s)"
proof -
  define t where "t = upd_kern (\<lambda>k. k\<lparr>freelist := read32 (mem k) (freelist k)\<rparr>) (ktouch s)"
  have fl: "freelist (kern s) = x" "x \<noteq> 0" using assms(2) by (auto simp: kmem_inv_def)
  have "mem_only s t"
    unfolding t_def mem_only_def
    by (rule exI [of _ "mem (kern s)"], rule exI [of _ "read32 (mem (kern s)) x"]) (simp add: upd_kern_def fl)
  moreover have "kalloc s = Done x t" using kalloc_ok [OF assms(1)] fl by (simp add: t_def)
  ultimately show ?thesis
    using fl assms kmem_inv_alloc [OF assms(2)] by (auto simp: t_def)
qed

lemma kfree_page_back:
  assumes "kready s" "kmem_inv (kern s) xs" "page_ok (end_sym (kern s)) p" "p \<notin> set xs"
  shows "\<exists>t. kfree p s = Done () t \<and> kready t \<and> kmem_inv (kern t) (p # xs) \<and> mem_only s t \<and>
    same_out {p} (mem (kern s)) (mem (kern t))"
proof -
  let ?m = "write32 (memset (mem (kern s)) p 1 PGSIZE) p (freelist (kern s))"
  define t where "t = upd_kern (\<lambda>k. k\<lparr>mem := write32 (memset (mem k) p 1 PGSIZE) p (freelist k),
    freelist := p\<rparr>) (ktouch s)"
  have k: "kfree p s = Done () t" using kfree_ok [OF assms(1,3)] by (simp add: t_def)
  have "mem_only s t"
    unfolding t_def mem_only_def
    by (rule exI [of _ ?m], rule exI [of _ p]) (simp add: upd_kern_def)
  moreover have "same_out ({p} \<union> {p}) (mem (kern s)) ?m"
    using same_out_trans [OF same_out_memset [of p "mem (kern s)" 1] same_out_write_slot [of 0 p]] by simp
  ultimately show ?thesis
    using k assms kmem_inv_free [OF assms(2-4), of 1] by (auto simp: t_def)
qed

text \<open>Changing the user part of the lookup while the tables stay allocatable pages.\<close>

lemma as_inv_frames:
  assumes "vm_inv t d ys" "\<forall>p \<in> uframes (mem (kern t)) d. page_ok (end_sym (kern t)) p \<and>
      p \<notin> pt_pages (mem (kern t)) d \<and> p \<notin> set ys"
    "\<And>v w. v < KERNBASE \<Longrightarrow> w < KERNBASE \<Longrightarrow> present (lookup (mem (kern t)) d v) \<Longrightarrow>
       present (lookup (mem (kern t)) d w) \<Longrightarrow> frame (lookup (mem (kern t)) d v) = frame (lookup (mem (kern t)) d w) \<Longrightarrow>
       vpn v = vpn w"
  shows "as_inv t d ys"
  using assms unfolding as_inv_def sp_ok_def vm_inv_def by blast

lemma sp_ok_inj:
  "sp_ok e m d \<Longrightarrow> v < KERNBASE \<Longrightarrow> w < KERNBASE \<Longrightarrow> present (lookup m d v) \<Longrightarrow> present (lookup m d w) \<Longrightarrow>
     frame (lookup m d v) = frame (lookup m d w) \<Longrightarrow> vpn v = vpn w"
  unfolding sp_ok_def by blast

lemma grows_as_inv:
  assumes "as_inv s d xs" "grows d s xs t ys" "lookup (mem (kern t)) d = lookup (mem (kern s)) d"
  shows "as_inv t d ys" "uframes (mem (kern t)) d = uframes (mem (kern s)) d"
proof -
  show u: "uframes (mem (kern t)) d = uframes (mem (kern s)) d" by (simp add: uframes_def assms(3))
  from assms(2) obtain zs where z: "xs = zs @ ys"
    "pt_pages (mem (kern t)) d = pt_pages (mem (kern s)) d \<union> set zs" and v: "vm_inv t d ys" and
    e: "end_sym (kern t) = end_sym (kern s)"
    using mem_only_fields by (auto simp: grows_def)
  show "as_inv t d ys"
  proof (rule as_inv_frames [OF v], goal_cases)
    case 1
    then show ?case using as_invD [OF assms(1)] z e u by (auto simp: as_pages_def)
  next
    case (2 v w)
    then show ?case unfolding assms(3) by (rule sp_ok_inj [OF as_invD(2) [OF assms(1)]])
  qed
qed

lemma map_frame:
  assumes "as_inv s d xs" "aligned a" "a < KERNBASE" "\<not> present (lookup (mem (kern s)) d a)"
    "page_ok (end_sym (kern s)) pg" "pg \<notin> as_pages (mem (kern s)) d" "pg \<notin> set xs" "low_bits perm"
  shows "\<exists>r t ys. mappages d a PGSIZE (V2P pg) perm s = Done r t \<and> grows d s xs t ys \<and> as_inv t d ys \<and>
    (r = 0 \<and> lookup (mem (kern t)) d = (\<lambda>v. if vpn v = vpn a then V2P pg OR perm OR PTE_P else lookup (mem (kern s)) d v) \<and>
       uframes (mem (kern t)) d = insert pg (uframes (mem (kern s)) d) \<or>
     r = - 1 \<and> ys = [] \<and> lookup (mem (kern t)) d = lookup (mem (kern s)) d)"
proof -
  let ?e = "V2P pg OR perm OR PTE_P"
  have np: "\<forall>v. vpn a \<le> vpn v \<and> vpn v \<le> vpn a + 0 \<longrightarrow> \<not> present (lookup (mem (kern s)) d v)"
    using assms(4) lookup_vpn [of _ a] by (metis add_0_right le_antisym)
  have "\<exists>r t ys. mappages d a PGSIZE (V2P pg) perm s = Done r t \<and> grows d s xs t ys \<and>
    (r = 0 \<and> lookup (mem (kern t)) d = mapped a (Suc 0) (V2P pg) perm (lookup (mem (kern s)) d) \<or>
     r = - 1 \<and> ys = [] \<and> (\<exists>j \<le> 0. lookup (mem (kern t)) d = mapped a j (V2P pg) perm (lookup (mem (kern s)) d)))"
    by (rule mappages_ok [OF as_invD(1) [OF assms(1)] assms(2) _ _ _ np])
      (use aligned_bound [OF assms(2)] in \<open>simp_all add: PGSIZE_def\<close>)
  then obtain r t ys where t: "mappages d a PGSIZE (V2P pg) perm s = Done r t" "grows d s xs t ys"
    and c: "r = 0 \<and> lookup (mem (kern t)) d = mapped a (Suc 0) (V2P pg) perm (lookup (mem (kern s)) d) \<or>
     r = - 1 \<and> ys = [] \<and> lookup (mem (kern t)) d = lookup (mem (kern s)) d" by auto
  from c show ?thesis
  proof
    assume "r = - 1 \<and> ys = [] \<and> lookup (mem (kern t)) d = lookup (mem (kern s)) d"
    then show ?thesis using t grows_as_inv(1) [OF assms(1) t(2)] by blast
  next
    assume r: "r = 0 \<and> lookup (mem (kern t)) d = mapped a (Suc 0) (V2P pg) perm (lookup (mem (kern s)) d)"
    have l: "lookup (mem (kern t)) d = (\<lambda>v. if vpn v = vpn a then ?e else lookup (mem (kern s)) d v)"
      using r by (auto simp: mapped_def fun_eq_iff)
    have f: "frame ?e = pg" "present ?e"
      using frame_entry [of pg "perm OR PTE_P"] assms(5,8) low_bits_or [OF assms(8) low_bits_flags(2)]
      by (simp_all add: page_ok_def present_bit bit_simps) (simp add: PTE_P_def bit_simps)
    have u: "uframes (mem (kern t)) d = insert pg (uframes (mem (kern s)) d)"
    proof (intro equalityI subsetI)
      fix p assume "p \<in> uframes (mem (kern t)) d"
      then show "p \<in> insert pg (uframes (mem (kern s)) d)"
        using f by (auto simp: uframes_def l split: if_splits)
    next
      fix p assume "p \<in> insert pg (uframes (mem (kern s)) d)"
      then consider "p = pg" | v where "v < KERNBASE" "present (lookup (mem (kern s)) d v)" "p = frame (lookup (mem (kern s)) d v)"
        by (auto simp: uframes_def)
      then show "p \<in> uframes (mem (kern t)) d"
      proof cases
        case 1
        then show ?thesis using uframesI [OF assms(3), of "mem (kern t)" d] f by (simp add: l)
      next
        case (2 v)
        then have "vpn v \<noteq> vpn a" using assms(4) lookup_vpn [of v a "mem (kern s)" d] by auto
        then show ?thesis using uframesI [OF 2(1), of "mem (kern t)" d] 2 by (simp add: l)
      qed
    qed
    from t(2) obtain zs where z: "xs = zs @ ys"
      "pt_pages (mem (kern t)) d = pt_pages (mem (kern s)) d \<union> set zs" and v: "vm_inv t d ys" and
      e: "end_sym (kern t) = end_sym (kern s)"
      using mem_only_fields by (auto simp: grows_def)
    have "as_inv t d ys"
    proof (rule as_inv_frames [OF v], goal_cases)
      case 1
      then show ?case using as_invD [OF assms(1)] z e u assms(5-7) by (auto simp: as_pages_def)
    next
      case (2 v w)
      have ne: "frame (lookup (mem (kern s)) d x) \<noteq> pg" if "x < KERNBASE" "present (lookup (mem (kern s)) d x)" for x
        using uframesI [OF that] assms(6) by (auto simp: as_pages_def)
      show ?case
        using 2 ne [of v] ne [of w] f sp_ok_inj [OF as_invD(2) [OF assms(1)], of v w]
        by (auto simp: l split: if_splits)
    qed
    then show ?thesis using t r l u by blast
  qed
qed

end
