(* ===== verification/Addrspace.thy ===== *)
theory Addrspace
  imports Vm_Correct
begin

unbundle bit_operations_syntax

text \<open>
  Growing, shrinking, copying and freeing user memory. Every operation is described by the
  lookup it leaves, and by an account of pages: what leaves an address space is on the free
  list and the other way round.
\<close>

section \<open>Removing user pages\<close>

lemma PTE_ADDR_frame: "P2V (PTE_ADDR e) = frame e"
  by (simp add: frame_def)

lemma user_frame_nonzero:
  assumes "page_ok e (frame x)" "KERNBASE < e"
  shows "PTE_ADDR x \<noteq> 0"
  using assms by (auto simp: frame_def P2V_def page_ok_def)

lemma unmap_page:
  assumes "as_inv s d xs" "a < KERNBASE" "present (lookup (mem (kern s)) d a)"
  defines "p \<equiv> frame (lookup (mem (kern s)) d a)"
  shows "\<exists>u t. kfree p s = Done () u \<and> t = upd_mem (\<lambda>m. write32 m (pte_addr (mem (kern s)) d a) 0) u \<and>
     as_inv t d (p # xs) \<and> mem_only s t \<and> pt_pages (mem (kern t)) d = pt_pages (mem (kern s)) d \<and>
     lookup (mem (kern t)) d = (\<lambda>v. if vpn v = vpn a then 0 else lookup (mem (kern s)) d v) \<and>
     uframes (mem (kern s)) d = insert p (uframes (mem (kern t)) d) \<and>
     same_out (insert p (pt_pages (mem (kern s)) d)) (mem (kern s)) (mem (kern t))"
proof -
  let ?m = "mem (kern s)"
  note inv = as_invD [OF assms(1)] and vi = vm_invD [OF as_invD(1) [OF assms(1)]]
  have pf: "p \<in> uframes ?m d" using uframesI [OF assms(2,3)] by (simp add: p_def)
  have pp: "p \<notin> pt_pages ?m d" "p \<notin> set xs" "page_ok (end_sym (kern s)) p" "aligned p"
    using pf inv(3,5,6) by (auto simp: as_pages_def page_ok_def)
  have pde: "present (pde_at ?m d (PDX a))" using assms(3) by (auto simp: lookup_def split: if_splits)
  obtain u where u: "kfree p s = Done () u" "kready u" "kmem_inv (kern u) (p # xs)" "mem_only s u"
    "same_out {p} ?m (mem (kern u))"
    using kfree_page_back [OF vi(1,2) pp(3,2)] by blast
  note so = u(5) and al = pp(4)
  have dj: "\<forall>q \<in> {p}. aligned q" "pt_pages ?m d \<inter> {p} = {}" using pp by auto
  note pt = pt_same_out [OF so dj vi(4)] and pd = pde_same_out [OF so dj vi(4)]
  have vu: "vm_inv u d (p # xs)"
    using u(2,3) vi(3,5) pt(1,2) mem_only_fields(1) [OF u(4)] pp(1) by (simp add: vm_inv_def)
  have pu: "present (pde_at (mem (kern u)) d (PDX a))" using pde pd(1) by simp
  define t where "t = upd_mem (\<lambda>m. write32 m (pte_addr ?m d a) 0) u"
  note w = write_pte_grows [OF vu pu, of 0, unfolded pd(2), folded t_def]
  have l: "lookup (mem (kern t)) d = (\<lambda>v. if vpn v = vpn a then 0 else lookup ?m d v)"
    unfolding w(2) pt(3) ..
  have ptt: "pt_pages (mem (kern t)) d = pt_pages ?m d" using w(3) pt(1) by simp
  have mo: "mem_only s t" using mem_only_trans [OF u(4), of t] by (simp add: t_def)
  have one: "frame (lookup ?m d v) \<noteq> p" if "v < KERNBASE" "present (lookup ?m d v)" "vpn v \<noteq> vpn a" for v
    using sp_ok_inj [OF inv(2) that(1) assms(2) that(2) assms(3)] that(3) by (auto simp: p_def)
  have uf: "uframes ?m d = insert p (uframes (mem (kern t)) d)"
  proof (intro equalityI subsetI)
    fix q assume "q \<in> uframes ?m d"
    then obtain v where v: "v < KERNBASE" "present (lookup ?m d v)" "q = frame (lookup ?m d v)"
      by (auto simp: uframes_def)
    show "q \<in> insert p (uframes (mem (kern t)) d)"
    proof (cases "vpn v = vpn a")
      case True
      then show ?thesis using lookup_vpn [OF True, of ?m d] v(3) by (simp add: p_def)
    next
      case False
      then show ?thesis using uframesI [OF v(1), of "mem (kern t)" d] v by (simp add: l)
    qed
  next
    fix q assume "q \<in> insert p (uframes (mem (kern t)) d)"
    then show "q \<in> uframes ?m d" using pf by (auto simp: uframes_def l split: if_splits)
  qed
  have np: "p \<notin> uframes (mem (kern t)) d" using one by (auto simp: uframes_def l split: if_splits)
  have as: "as_inv t d (p # xs)"
  proof (rule as_inv_frames, goal_cases)
    case 1
    then show ?case using w(1) by (simp add: grows_def)
  next
    case 2
    show ?case
      using inv(3,5,6) uf np ptt mem_only_fields(1) [OF mo] by (auto simp: as_pages_def)
  next
    case (3 v w)
    then show ?case
      using sp_ok_inj [OF inv(2), of v w] by (auto simp: l split: if_splits)
  qed
  have "same_out ({p} \<union> pt_pages (mem (kern u)) d) ?m (mem (kern t))"
    using same_out_trans [OF so] set_pte(4) [OF vm_invD(4) [OF vu] pu, of 0] by (simp add: t_def pd(2))
  then have "same_out (insert p (pt_pages ?m d)) ?m (mem (kern t))" by (simp add: pt(1))
  then show ?thesis using u(1) as mo ptt l uf t_def by blast
qed

definition cleared :: "addr \<Rightarrow> uint \<Rightarrow> (addr \<Rightarrow> uint) \<Rightarrow> addr \<Rightarrow> uint" where
  "cleared a sz f v = (if vpn a \<le> vpn v \<and> 4096 * vpn v < unat sz \<and> present (f v) then 0 else f v)"

lemma cleared_past: "aligned a \<Longrightarrow> \<not> a < sz \<Longrightarrow> cleared a sz f = f"
proof
  fix v assume "aligned a" "\<not> a < sz"
  then have "unat sz \<le> 4096 * vpn a" by (auto simp: aligned_def vpn_def word_less_nat_alt)
  also have "\<dots> \<le> 4096 * vpn v" if "vpn a \<le> vpn v" using that by simp
  finally show "cleared a sz f v = f v" by (auto simp: cleared_def)
qed

lemma cleared_skip:
  assumes "\<And>v. vpn a \<le> vpn v \<Longrightarrow> vpn v < vpn b \<Longrightarrow> \<not> present (f v)" "vpn a \<le> vpn b"
  shows "cleared b sz f = cleared a sz f"
  using assms by (fastforce simp: cleared_def)

lemma cleared_one:
  assumes "aligned a" "a < sz" "vpn (a + PGSIZE) = Suc (vpn a)" "\<And>v. vpn v = vpn a \<Longrightarrow> present (f v)"
  shows "cleared (a + PGSIZE) sz (\<lambda>v. if vpn v = vpn a then 0 else f v) = cleared a sz f"
proof
  fix v
  have "4096 * vpn a < unat sz" using assms(1,2) by (auto simp: aligned_def vpn_def word_less_nat_alt)
  then show "cleared (a + PGSIZE) sz (\<lambda>v. if vpn v = vpn a then 0 else f v) v = cleared a sz f v"
    unfolding cleared_def assms(3) using assms(4) [of v] by (auto simp: Suc_le_eq le_less)
qed

lemma next_dir:
  assumes "a < KERNBASE"
  defines "b \<equiv> PGADDR (PDX a + 1) 0 0"
  shows "aligned b" "vpn b = (unat (PDX a) + 1) * 1024" "vpn a < vpn b"
    "vpn a \<le> vpn v \<Longrightarrow> vpn v < vpn b \<Longrightarrow> PDX v = PDX a"
proof -
  have "unat a < 2 ^ 31" using assms(1) by (simp add: word_less_nat_alt KERNBASE_def)
  then have p: "unat (PDX a) < 512" by (simp add: unat_PDX div_mult2_eq [symmetric] less_mult_imp_div_less)
  have "b = push_bit 22 (PDX a + 1)" by (simp add: b_def PGADDR_def PDXSHIFT_def)
  moreover have "unat (PDX a + 1) = unat (PDX a) + 1" using p by (subst unat_add_small) simp_all
  ultimately have "unat b = (unat (PDX a) + 1) * 2 ^ 22"
    using p by (simp add: push_bit_eq_mult unat_word_ariths)
  then have u: "unat b = ((unat (PDX a) + 1) * 1024) * 4096" by simp
  then show "aligned b" unfolding aligned_def by (metis mod_mult_self2_is_0)
  show vb: "vpn b = (unat (PDX a) + 1) * 1024" unfolding vpn_def u by simp
  have pa: "unat (PDX a) = vpn a div 1024" by (simp add: unat_PDX vpn_def)
  then show "vpn a < vpn b" unfolding vb by (simp add: dividend_less_times_div)
  assume v: "vpn a \<le> vpn v" "vpn v < vpn b"
  then have "vpn v div 1024 = vpn a div 1024"
    using div_le_mono [OF v(1), of 1024] less_mult_imp_div_less [of "vpn v" "unat (PDX a) + 1" 1024] pa vb by simp
  then show "PDX v = PDX a" by (simp add: word_unat_eq_iff unat_PDX vpn_def)
qed

lemma aligned_vpn: "aligned a \<Longrightarrow> unat a = 4096 * vpn a"
  by (auto simp: aligned_def vpn_def)

lemma vpn_up:
  assumes "aligned a" "a < KERNBASE"
  shows "vpn (a + PGSIZE) = Suc (vpn a)" "aligned (a + PGSIZE)"
  using vpn_next [OF assms(1)] assms(2) by (auto simp: word_less_nat_alt KERNBASE_def)

text \<open>
  \<open>shrunk d s xs t zs\<close>: the user pages \<open>zs\<close> left the address space for the free list; the
  page tables stayed.
\<close>

definition shrunk :: "addr \<Rightarrow> 'a kmem_scheme machine \<Rightarrow> addr list \<Rightarrow> 'a kmem_scheme machine \<Rightarrow> addr list \<Rightarrow> bool" where
  "shrunk d s xs t zs \<longleftrightarrow> as_inv t d (zs @ xs) \<and> mem_only s t \<and>
     pt_pages (mem (kern t)) d = pt_pages (mem (kern s)) d \<and>
     uframes (mem (kern s)) d = uframes (mem (kern t)) d \<union> set zs \<and>
     same_out (pt_pages (mem (kern s)) d \<union> set zs) (mem (kern s)) (mem (kern t))"

lemma shrunk_refl: "as_inv s d xs \<Longrightarrow> shrunk d s xs s []"
  by (simp add: shrunk_def)

lemma shrunk_trans:
  assumes "shrunk d s xs t zs" "shrunk d t (zs @ xs) u ws"
  shows "shrunk d s xs u (ws @ zs)"
proof -
  have "same_out ((pt_pages (mem (kern s)) d \<union> set zs) \<union> (pt_pages (mem (kern t)) d \<union> set ws)) (mem (kern s)) (mem (kern u))"
    using assms same_out_trans unfolding shrunk_def by blast
  then have "same_out (pt_pages (mem (kern s)) d \<union> set (ws @ zs)) (mem (kern s)) (mem (kern u))"
    using assms(1) by (elim same_out_mono) (auto simp: shrunk_def)
  moreover have "mem_only s u" using assms mem_only_trans unfolding shrunk_def by blast
  ultimately show ?thesis using assms by (auto simp: shrunk_def)
qed

lemma deallocuvm_from_ok:
  assumes "as_inv s d xs" "aligned a" "oldsz \<le> KERNBASE" "unat oldsz \<le> unat a + 4096 * n"
  shows "\<exists>t zs. deallocuvm_from n d a oldsz s = Done () t \<and> shrunk d s xs t zs \<and>
    lookup (mem (kern t)) d = cleared a oldsz (lookup (mem (kern s)) d)"
  using assms
proof (induction n arbitrary: a s xs)
  case 0
  then have "\<not> a < oldsz" by (simp add: word_less_nat_alt)
  then show ?case
    using shrunk_refl [OF "0.prems"(1)] cleared_past [OF "0.prems"(2)]
    by (subst deallocuvm_from.simps) auto
next
  case (Suc n)
  let ?m = "mem (kern s)" and ?l = "lookup (mem (kern s)) d"
  show ?case
  proof (cases "a < oldsz")
    case False
    then show ?thesis
      using shrunk_refl [OF Suc.prems(1)] cleared_past [OF Suc.prems(2)]
      by (subst deallocuvm_from.simps) auto
  next
    case True
    then have ak: "a < KERNBASE" using Suc.prems(3) by (rule less_le_trans)
    note up = vpn_up [OF Suc.prems(2) ak]
    have fuel: "unat oldsz \<le> unat b + 4096 * n" if "aligned b" "vpn a < vpn b" for b
      using that Suc.prems(2,4) by (simp add: aligned_vpn)
    have pt: "pt_ok (end_sym (kern s)) ?m d" using as_invD(1) [OF Suc.prems(1)] by (rule vm_invD)
    show ?thesis
    proof (cases "present (?l a)")
      case pr: True
      then have pde: "present (pde_at ?m d (PDX a))" by (auto simp: lookup_def split: if_splits)
      let ?p = "frame (?l a)"
      obtain u t where u: "kfree ?p s = Done () u" "t = upd_mem (\<lambda>m. write32 m (pte_addr ?m d a) 0) u"
        and t: "as_inv t d (?p # xs)" "mem_only s t" "pt_pages (mem (kern t)) d = pt_pages ?m d"
          "lookup (mem (kern t)) d = (\<lambda>v. if vpn v = vpn a then 0 else ?l v)"
          "uframes ?m d = insert ?p (uframes (mem (kern t)) d)"
          "same_out (insert ?p (pt_pages ?m d)) ?m (mem (kern t))"
        using unmap_page [OF Suc.prems(1) ak pr] by blast
      have sh: "shrunk d s xs t [?p]" using t by (simp add: shrunk_def insert_commute Un_commute)
      obtain w zs where w: "deallocuvm_from n d (a + PGSIZE) oldsz t = Done () w" "shrunk d t (?p # xs) w zs"
        "lookup (mem (kern w)) d = cleared (a + PGSIZE) oldsz (lookup (mem (kern t)) d)"
        using Suc.IH [OF t(1) up(2) Suc.prems(3) fuel [OF up(2)]] up(1) by auto
      have e: "?l a = read32 ?m (pte_addr ?m d a)" using pde by (simp add: lookup_def)
      have pa: "PTE_ADDR (?l a) \<noteq> 0"
        using user_frame_nonzero [of "end_sym (kern s)"] uframesI [OF ak pr] as_invD(5) [OF Suc.prems(1)]
          vm_invD(3) [OF as_invD(1) [OF Suc.prems(1)]] by (simp add: as_pages_def)
      have "deallocuvm_from (Suc n) d a oldsz s = Done () w"
        using True walk_present [OF pde, of False] pte_addr_nonzero [OF pt pde] pr u w(1) pa
        by (subst deallocuvm_from.simps)
          (simp add: e [symmetric] Let_def PTE_ADDR_frame present_def [symmetric])
      moreover have "cleared (a + PGSIZE) oldsz (lookup (mem (kern t)) d) = cleared a oldsz ?l"
        unfolding t(4) using lookup_vpn pr by (intro cleared_one [OF Suc.prems(2) True up(1)]) metis
      ultimately show ?thesis
        using w(3) shrunk_trans [OF sh, of w zs] w(2) by (intro exI [of _ w] exI [of _ "zs @ [?p]"]) simp
    next
      case np: False
      define b where "b = (if present (pde_at ?m d (PDX a)) then a + PGSIZE else PGADDR (PDX a + 1) 0 0)"
      have b: "aligned b" "vpn a < vpn b" using up next_dir(1,3) [OF ak] by (simp_all add: b_def)
      have nb: "\<not> present (?l v)" if "vpn a \<le> vpn v" "vpn v < vpn b" for v
      proof (cases "present (pde_at ?m d (PDX a))")
        case True
        then have "vpn v = vpn a" using that up(1) by (simp add: b_def)
        then show ?thesis using np lookup_vpn by metis
      next
        case False
        then have "PDX v = PDX a" using that next_dir(4) [OF ak, of v] by (simp add: b_def)
        then show ?thesis using False by (simp add: lookup_def)
      qed
      obtain w zs where w: "deallocuvm_from n d b oldsz s = Done () w" "shrunk d s xs w zs"
        "lookup (mem (kern w)) d = cleared b oldsz ?l"
        using Suc.IH [OF Suc.prems(1) b(1) Suc.prems(3) fuel [OF b]] by blast
      have "deallocuvm_from (Suc n) d a oldsz s = deallocuvm_from n d b oldsz s"
        using True walk_noalloc [of d a s] np pte_addr_nonzero [OF pt, of a]
        by (subst deallocuvm_from.simps) (auto simp: b_def lookup_def present_def split: if_splits)
      moreover have "cleared b oldsz ?l = cleared a oldsz ?l" using nb b(2) by (intro cleared_skip) auto
      ultimately show ?thesis using w by auto
    qed
  qed
qed

lemma rounds_enough: "unat sz \<le> unat a + 4096 * rounds sz"
proof -
  have "unat sz \<le> 4096 * Suc (unat sz div 4096)"
    using div_mult_mod_eq [of "unat sz" 4096] mod_less_divisor [of 4096 "unat sz"] by simp
  then show ?thesis by (simp add: rounds_def)
qed

lemma PGROUNDUP_ok:
  assumes "sz \<le> KERNBASE"
  shows "aligned (PGROUNDUP sz)" "PGROUNDUP sz \<le> KERNBASE" "unat sz \<le> unat (PGROUNDUP sz)"
proof -
  have b: "unat sz \<le> 2 ^ 31" using assms by (simp add: word_le_nat_alt KERNBASE_def)
  then have u: "unat (PGROUNDUP sz) = (unat sz + 4095) div 4096 * 4096" by (intro unat_PGROUNDUP) simp
  then show "aligned (PGROUNDUP sz)" by (simp add: aligned_def)
  have "(unat sz + 4095) div 4096 \<le> (2 ^ 31 + 4095) div 4096" using b by (intro div_le_mono) simp
  then have "unat (PGROUNDUP sz) \<le> 2 ^ 31" unfolding u by simp
  then show "PGROUNDUP sz \<le> KERNBASE" by (simp add: word_le_nat_alt KERNBASE_def)
  show "unat sz \<le> unat (PGROUNDUP sz)"
    unfolding u using div_mult_mod_eq [of "unat sz + 4095" 4096] mod_less_divisor [of 4096 "unat sz + 4095"] by linarith
qed

lemma deallocuvm_ok:
  assumes "as_inv s d xs" "oldsz \<le> KERNBASE" "newsz \<le> oldsz"
  shows "\<exists>t zs. deallocuvm d oldsz newsz s = Done newsz t \<and> shrunk d s xs t zs \<and>
    lookup (mem (kern t)) d = cleared (PGROUNDUP newsz) oldsz (lookup (mem (kern s)) d)"
proof (cases "newsz < oldsz")
  case True
  have "newsz \<le> KERNBASE" using assms(2,3) by (rule order_trans [rotated])
  then have "aligned (PGROUNDUP newsz)" by (rule PGROUNDUP_ok)
  from deallocuvm_from_ok [OF assms(1) this assms(2) rounds_enough] show ?thesis
    using True by (auto simp: deallocuvm_def not_le)
next
  case False
  then have e: "newsz = oldsz" using assms(3) by simp
  have "cleared (PGROUNDUP newsz) oldsz f = f" for f
    using PGROUNDUP_ok [OF assms(2)] by (intro cleared_past) (auto simp: e word_less_nat_alt)
  then show ?thesis using shrunk_refl [OF assms(1)] e by (auto simp: deallocuvm_def)
qed

section \<open>Adding user pages\<close>

definition zeroed :: "memory \<Rightarrow> addr \<Rightarrow> bool" where
  "zeroed m p \<longleftrightarrow> (\<forall>x. unat (x - p) < 4096 \<longrightarrow> m x = 0)"

lemma zeroed_same_out:
  "zeroed m p \<Longrightarrow> same_out P m m' \<Longrightarrow> \<forall>q \<in> P. aligned q \<Longrightarrow> aligned p \<Longrightarrow> p \<notin> P \<Longrightarrow> zeroed m' p"
  unfolding zeroed_def using same_out_page by metis

text \<open>A change of memory inside pages that belong neither to the tables nor to the free list.\<close>

lemma as_inv_upd_mem:
  assumes "as_inv s d xs" "same_out P (mem (kern s)) (f (mem (kern s)))" "\<forall>p \<in> P. aligned p"
    "P \<inter> (pt_pages (mem (kern s)) d \<union> set xs) = {}"
  shows "as_inv (upd_mem f s) d xs" "lookup (mem (kern (upd_mem f s))) d = lookup (mem (kern s)) d"
    "pt_pages (mem (kern (upd_mem f s))) d = pt_pages (mem (kern s)) d"
    "uframes (mem (kern (upd_mem f s))) d = uframes (mem (kern s)) d"
proof -
  note inv = as_invD [OF assms(1)] and vi = vm_invD [OF as_invD(1) [OF assms(1)]]
  have dj: "pt_pages (mem (kern s)) d \<inter> P = {}" using assms(4) by auto
  note sp = sp_ok_same_out [OF inv(2) assms(2,3) dj]
  show "lookup (mem (kern (upd_mem f s))) d = lookup (mem (kern s)) d"
    "pt_pages (mem (kern (upd_mem f s))) d = pt_pages (mem (kern s)) d"
    "uframes (mem (kern (upd_mem f s))) d = uframes (mem (kern s)) d"
    using sp by simp_all
  have "kmem_inv (kern (upd_mem f s)) xs"
    using assms(2-4) by (intro kmem_inv_same_out [OF vi(2), where P = P]) auto
  then show "as_inv (upd_mem f s) d xs"
    using vi inv(3) sp pt_same_out(2) [OF assms(2,3) dj vi(4)] by (simp add: as_inv_def vm_inv_def)
qed

lemma as_inv_kalloc:
  assumes "as_inv s d (x # xs)"
  shows "\<exists>t. kalloc s = Done x t \<and> x \<noteq> 0 \<and> as_inv t d xs \<and> mem_only s t \<and> mem (kern t) = mem (kern s)"
proof -
  note inv = as_invD [OF assms] and vi = vm_invD [OF as_invD(1) [OF assms]]
  obtain t where t: "kalloc s = Done x t" "x \<noteq> 0" "kready t" "kmem_inv (kern t) xs" "mem_only s t"
    "mem (kern t) = mem (kern s)" using kalloc_page [OF vi(1,2)] by blast
  have "as_inv t d xs"
    using t vi inv mem_only_fields(1) [OF t(5)] by (simp add: as_inv_def vm_inv_def)
  then show ?thesis using t by blast
qed

lemma as_inv_kfree:
  assumes "as_inv s d xs" "page_ok (end_sym (kern s)) p" "p \<notin> as_pages (mem (kern s)) d" "p \<notin> set xs"
  shows "\<exists>t. kfree p s = Done () t \<and> as_inv t d (p # xs) \<and> mem_only s t \<and>
    same_out {p} (mem (kern s)) (mem (kern t)) \<and> lookup (mem (kern t)) d = lookup (mem (kern s)) d \<and>
    as_pages (mem (kern t)) d = as_pages (mem (kern s)) d \<and> pt_pages (mem (kern t)) d = pt_pages (mem (kern s)) d"
proof -
  note inv = as_invD [OF assms(1)] and vi = vm_invD [OF as_invD(1) [OF assms(1)]]
  obtain t where t: "kfree p s = Done () t" "kready t" "kmem_inv (kern t) (p # xs)" "mem_only s t"
    "same_out {p} (mem (kern s)) (mem (kern t))" using kfree_page_back [OF vi(1,2) assms(2,4)] by blast
  have dj: "\<forall>q \<in> {p}. aligned q" "pt_pages (mem (kern s)) d \<inter> {p} = {}"
    using assms(2,3) by (auto simp: page_ok_def as_pages_def)
  note sp = sp_ok_same_out [OF inv(2) t(5) dj]
  have "as_inv t d (p # xs)"
    using t vi inv sp assms(3) pt_same_out(2) [OF t(5) dj vi(4)] mem_only_fields(1) [OF t(4)]
    by (simp add: as_inv_def vm_inv_def as_pages_def)
  then show ?thesis using t sp by blast
qed

text \<open>One round of \<^verbatim>\<open>allocuvm\<close>: a zeroed page mapped at \<open>a\<close>.\<close>

definition account :: "addr \<Rightarrow> 'a kmem_scheme machine \<Rightarrow> addr list \<Rightarrow> 'a kmem_scheme machine \<Rightarrow> addr list \<Rightarrow> bool" where
  "account d s xs t ys \<longleftrightarrow> as_inv t d ys \<and> mem_only s t \<and>
     as_pages (mem (kern t)) d \<union> set ys = as_pages (mem (kern s)) d \<union> set xs \<and>
     pt_pages (mem (kern s)) d \<subseteq> pt_pages (mem (kern t)) d \<and>
     pt_pages (mem (kern t)) d \<subseteq> pt_pages (mem (kern s)) d \<union> set xs \<and>
     same_out (pt_pages (mem (kern s)) d \<union> set xs \<union> set ys) (mem (kern s)) (mem (kern t))"

lemma account_refl: "as_inv s d xs \<Longrightarrow> account d s xs s xs"
  by (auto simp: account_def)

lemma account_shrunk:
  assumes "shrunk d s xs t zs" "as_inv s d xs"
  shows "account d s xs t (zs @ xs)"
proof -
  have "same_out (pt_pages (mem (kern s)) d \<union> set xs \<union> set (zs @ xs)) (mem (kern s)) (mem (kern t))"
    using assms(1) unfolding shrunk_def by (auto elim!: same_out_mono)
  then show ?thesis using assms by (auto simp: account_def shrunk_def as_pages_def)
qed

lemma account_trans:
  assumes "account d s xs t ys" "set ys \<subseteq> set xs" "account d t ys u zs"
  shows "account d s xs u zs"
proof -
  have "same_out ((pt_pages (mem (kern s)) d \<union> set xs \<union> set ys) \<union> (pt_pages (mem (kern t)) d \<union> set ys \<union> set zs))
      (mem (kern s)) (mem (kern u))"
    using assms same_out_trans unfolding account_def by blast
  then have "same_out (pt_pages (mem (kern s)) d \<union> set xs \<union> set zs) (mem (kern s)) (mem (kern u))"
    using assms by (elim same_out_mono) (auto simp: account_def)
  moreover have "mem_only s u" using assms mem_only_trans unfolding account_def by blast
  moreover have "as_inv u d zs" "as_pages (mem (kern u)) d \<union> set zs = as_pages (mem (kern s)) d \<union> set xs"
    "pt_pages (mem (kern s)) d \<subseteq> pt_pages (mem (kern u)) d"
    "pt_pages (mem (kern u)) d \<subseteq> pt_pages (mem (kern s)) d \<union> set xs"
    using assms unfolding account_def by blast+
  ultimately show ?thesis by (simp add: account_def)
qed

lemma alloc_map:
  assumes "as_inv s d (x # xs)" "aligned a" "a < KERNBASE" "\<not> present (lookup (mem (kern s)) d a)" "low_bits perm"
    "same_out {x} (mem (kern s)) (f (mem (kern s)))"
  shows "\<exists>t1 r t ys. kalloc s = Done x t1 \<and> x \<noteq> 0 \<and> mappages d a PGSIZE (V2P x) perm (upd_mem f t1) = Done r t \<and>
    mem_only s t \<and> as_inv t d ys \<and> set ys \<subseteq> set xs \<and>
    same_out (pt_pages (mem (kern s)) d \<union> set (x # xs)) (mem (kern s)) (mem (kern t)) \<and>
    (\<forall>y. unat (y - x) < 4096 \<longrightarrow> mem (kern t) y = f (mem (kern s)) y) \<and>
    pt_pages (mem (kern s)) d \<subseteq> pt_pages (mem (kern t)) d \<and>
    pt_pages (mem (kern t)) d \<union> set ys = pt_pages (mem (kern s)) d \<union> set xs \<and>
    (r = 0 \<and> lookup (mem (kern t)) d = (\<lambda>v. if vpn v = vpn a then V2P x OR perm OR PTE_P else lookup (mem (kern s)) d v) \<and>
       uframes (mem (kern t)) d = insert x (uframes (mem (kern s)) d) \<or>
     r = - 1 \<and> ys = [] \<and> lookup (mem (kern t)) d = lookup (mem (kern s)) d \<and>
       uframes (mem (kern t)) d = uframes (mem (kern s)) d)"
proof -
  let ?m = "mem (kern s)"
  note vi = vm_invD [OF as_invD(1) [OF assms(1)]]
  have x: "page_ok (end_sym (kern s)) x" "x \<notin> as_pages ?m d" "x \<notin> set xs" "aligned x"
    using vi(7-9) as_invD(4) [OF assms(1)] by auto
  obtain t1 where t1: "kalloc s = Done x t1" "x \<noteq> 0" "as_inv t1 d xs" "mem_only s t1" "mem (kern t1) = ?m"
    using as_inv_kalloc [OF assms(1)] by blast
  let ?u = "upd_mem f t1"
  have "{x} \<inter> (pt_pages (mem (kern t1)) d \<union> set xs) = {}" using x t1(5) by (auto simp: as_pages_def)
  note u = as_inv_upd_mem [OF t1(3), of "{x}" f, unfolded t1(5), OF assms(6) _ this [unfolded t1(5)]]
  have mu: "mem (kern ?u) = f ?m" by (simp add: t1(5))
  have ui: "as_inv ?u d xs" and ul: "lookup (mem (kern ?u)) d = lookup ?m d"
    and up: "pt_pages (mem (kern ?u)) d = pt_pages ?m d" and uu: "uframes (mem (kern ?u)) d = uframes ?m d"
    using u x(4) by simp_all
  have pu: "page_ok (end_sym (kern ?u)) x" "x \<notin> as_pages (mem (kern ?u)) d" "\<not> present (lookup (mem (kern ?u)) d a)"
    using x mem_only_fields(1) [OF t1(4)] assms(4) ul up uu by (simp_all add: as_pages_def)
  obtain r t ys where t: "mappages d a PGSIZE (V2P x) perm ?u = Done r t" "grows d ?u xs t ys" "as_inv t d ys"
    and c: "r = 0 \<and> lookup (mem (kern t)) d = (\<lambda>v. if vpn v = vpn a then V2P x OR perm OR PTE_P else lookup (mem (kern ?u)) d v) \<and>
         uframes (mem (kern t)) d = insert x (uframes (mem (kern ?u)) d) \<or>
       r = - 1 \<and> ys = [] \<and> lookup (mem (kern t)) d = lookup (mem (kern ?u)) d"
    using map_frame [OF ui assms(2,3) pu(3,1,2) x(3) assms(5)] by blast
  have "\<exists>zs. xs = zs @ ys \<and> pt_pages (mem (kern t)) d = pt_pages ?m d \<union> set zs"
    using t(2) unfolding grows_def up by (elim conjE)
  then obtain zs where z: "xs = zs @ ys" "pt_pages (mem (kern t)) d = pt_pages ?m d \<union> set zs" by blast
  have so: "same_out (pt_pages ?m d \<union> set xs) (f ?m) (mem (kern t))"
    using t(2) unfolding grows_def mu up [unfolded mu] by (elim conjE)
  have mo: "mem_only ?u t" using t(2) unfolding grows_def by (elim conjE)
  have "same_out ({x} \<union> (pt_pages ?m d \<union> set xs)) ?m (mem (kern t))"
    using same_out_trans [OF assms(6) so] .
  then have so2: "same_out (pt_pages ?m d \<union> set (x # xs)) ?m (mem (kern t))" by (simp add: Un_commute)
  have page: "\<forall>y. unat (y - x) < 4096 \<longrightarrow> mem (kern t) y = f ?m y"
    using same_out_page [OF so _ x(4)] vi(6,8) x(2,3) by (auto simp: as_pages_def)
  have mos: "mem_only s t" using mem_only_trans [OF t1(4)] mem_only_trans [OF mem_only_upd_mem mo] by blast
  have uf: "uframes (mem (kern t)) d = uframes ?m d" if "lookup (mem (kern t)) d = lookup (mem (kern ?u)) d"
    using that ul by (simp add: uframes_def)
  have c2: "r = 0 \<and> lookup (mem (kern t)) d = (\<lambda>v. if vpn v = vpn a then V2P x OR perm OR PTE_P else lookup ?m d v) \<and>
        uframes (mem (kern t)) d = insert x (uframes ?m d) \<or>
      r = - 1 \<and> ys = [] \<and> lookup (mem (kern t)) d = lookup ?m d \<and> uframes (mem (kern t)) d = uframes ?m d"
    using c uf unfolding ul uu by blast
  have "pt_pages ?m d \<subseteq> pt_pages (mem (kern t)) d" "set ys \<subseteq> set xs"
    "pt_pages (mem (kern t)) d \<union> set ys = pt_pages ?m d \<union> set xs" using z by auto
  with c2 page so2 mos t(1,3) t1(1,2) show ?thesis by (intro exI conjI)
qed

text \<open>
  \<open>filled a sz s t\<close>: the pages from \<open>a\<close> up to \<open>sz\<close> are user-writable pages of zeros; every
  other entry is as before. \<open>emptied b sz s t\<close>: no page from \<open>b\<close> up to \<open>sz\<close> is mapped; every
  other entry is as before.
\<close>

definition in_range :: "addr \<Rightarrow> uint \<Rightarrow> addr \<Rightarrow> bool" where
  "in_range a sz v \<longleftrightarrow> vpn a \<le> vpn v \<and> 4096 * vpn v < unat sz"

definition fresh :: "memory \<Rightarrow> uint \<Rightarrow> bool" where
  "fresh m e \<longleftrightarrow> PTE_FLAGS e = PTE_W OR PTE_U OR PTE_P \<and> present e \<and> zeroed m (frame e)"

definition filled :: "addr \<Rightarrow> addr \<Rightarrow> uint \<Rightarrow> memory \<Rightarrow> memory \<Rightarrow> bool" where
  "filled d a sz m m' \<longleftrightarrow>
     (\<forall>v. if in_range a sz v then fresh m' (lookup m' d v) else lookup m' d v = lookup m d v)"

definition emptied :: "addr \<Rightarrow> addr \<Rightarrow> uint \<Rightarrow> memory \<Rightarrow> memory \<Rightarrow> bool" where
  "emptied d a sz m m' \<longleftrightarrow>
     (\<forall>v. if in_range a sz v then \<not> present (lookup m' d v) else lookup m' d v = lookup m d v)"

lemma emptied_cleared:
  "lookup m' d = cleared a sz (lookup m d) \<Longrightarrow> emptied d a sz m m'"
  by (auto simp: emptied_def cleared_def in_range_def)

lemma in_range_lt: "in_range a sz v \<Longrightarrow> sz \<le> KERNBASE \<Longrightarrow> v < KERNBASE"
proof -
  assume "in_range a sz v" "sz \<le> KERNBASE"
  then have "4096 * (unat v div 4096) < 2 ^ 31"
    by (simp add: in_range_def vpn_def word_le_nat_alt KERNBASE_def)
  then have "unat v div 4096 < 2 ^ 19" by simp
  then have "unat v < 2 ^ 31" by (simp add: div_less_iff_less_mult)
  then show ?thesis by (simp add: word_less_nat_alt KERNBASE_def)
qed

lemma rollback:
  assumes "as_inv s d xs" "oldsz \<le> newsz" "newsz < KERNBASE"
  shows "\<exists>t zs. deallocuvm d newsz oldsz s = Done oldsz t \<and> shrunk d s xs t zs \<and>
    emptied d (PGROUNDUP oldsz) newsz (mem (kern s)) (mem (kern t))"
  using deallocuvm_ok [OF assms(1) less_imp_le [OF assms(3)] assms(2)] emptied_cleared by blast

lemma as_inv_ktouch [simp]: "as_inv (ktouch s) d xs = as_inv s d xs"
  by (simp add: as_inv_def)

lemma alloc_fails_empty:
  assumes "as_inv s d []" "oldsz \<le> newsz" "newsz < KERNBASE" "a < newsz"
  shows "\<exists>t ys. allocuvm_from (Suc n) d a oldsz newsz s = Done 0 t \<and> account d s [] t ys \<and>
    emptied d (PGROUNDUP oldsz) newsz (mem (kern s)) (mem (kern t))"
proof -
  have "kalloc s = Done 0 (ktouch s)"
    using kalloc_empty vm_invD(1,2) [OF as_invD(1) [OF assms(1)]] by blast
  moreover obtain t zs where t: "deallocuvm d newsz oldsz (ktouch s) = Done oldsz t" "shrunk d (ktouch s) [] t zs"
    "emptied d (PGROUNDUP oldsz) newsz (mem (kern s)) (mem (kern t))"
    using rollback [of "ktouch s" d "[]", OF _ assms(2,3)] assms(1) by auto
  moreover have "account d s [] t zs"
    using account_shrunk [OF t(2)] assms(1) mem_only_trans [OF mem_only_ktouch, of s t] by (simp add: account_def)
  ultimately show ?thesis using assms(4) by (subst allocuvm_from.simps) auto
qed

lemma alloc_fails_table:
  assumes "as_inv s d (x # xs)" "oldsz \<le> newsz" "newsz < KERNBASE" "a < newsz"
    and k: "kalloc s = Done x t1" "x \<noteq> 0"
    and m: "mappages d a PGSIZE (V2P x) (PTE_W OR PTE_U) (upd_mem (\<lambda>m. memset m x 0 PGSIZE) t1) = Done (- 1) t"
    and t: "mem_only s t" "as_inv t d []" "same_out (pt_pages (mem (kern s)) d \<union> set (x # xs)) (mem (kern s)) (mem (kern t))"
      "pt_pages (mem (kern t)) d = pt_pages (mem (kern s)) d \<union> set xs"
      "lookup (mem (kern t)) d = lookup (mem (kern s)) d" "uframes (mem (kern t)) d = uframes (mem (kern s)) d"
  shows "\<exists>t ys. allocuvm_from (Suc n) d a oldsz newsz s = Done 0 t \<and> account d s (x # xs) t ys \<and>
    emptied d (PGROUNDUP oldsz) newsz (mem (kern s)) (mem (kern t))"
proof -
  let ?m = "mem (kern s)"
  have x: "page_ok (end_sym (kern s)) x" "x \<notin> as_pages ?m d" "x \<notin> set xs"
    using vm_invD(7,9) [OF as_invD(1) [OF assms(1)]] as_invD(4) [OF assms(1)] by auto
  obtain u zs where u: "deallocuvm d newsz oldsz t = Done oldsz u" "shrunk d t [] u zs"
    "emptied d (PGROUNDUP oldsz) newsz (mem (kern t)) (mem (kern u))"
    using rollback [OF t(2) assms(2,3)] by blast
  have ua: "as_inv u d zs" "mem_only t u" "pt_pages (mem (kern u)) d = pt_pages ?m d \<union> set xs"
    "uframes ?m d = uframes (mem (kern u)) d \<union> set zs"
    "same_out (pt_pages ?m d \<union> set xs \<union> set zs) (mem (kern t)) (mem (kern u))"
    using u(2) t(4,6) by (auto simp: shrunk_def)
  have mu: "mem_only s u" using mem_only_trans [OF t(1) ua(2)] .
  have xu: "x \<notin> as_pages (mem (kern u)) d" "x \<notin> set zs" "page_ok (end_sym (kern u)) x"
    using x ua(3,4) mem_only_fields(1) [OF mu] by (auto simp: as_pages_def)
  obtain w where w: "kfree x u = Done () w" "as_inv w d (x # zs)" "mem_only u w"
    "same_out {x} (mem (kern u)) (mem (kern w))" "lookup (mem (kern w)) d = lookup (mem (kern u)) d"
    "as_pages (mem (kern w)) d = as_pages (mem (kern u)) d" "pt_pages (mem (kern w)) d = pt_pages (mem (kern u)) d"
    using as_inv_kfree [OF ua(1) xu(3,1,2)] by blast
  have "same_out ((pt_pages ?m d \<union> set (x # xs)) \<union> (pt_pages ?m d \<union> set xs \<union> set zs) \<union> {x}) ?m (mem (kern w))"
    using same_out_trans [OF same_out_trans [OF t(3) ua(5)] w(4)] .
  then have so: "same_out (pt_pages ?m d \<union> set (x # xs) \<union> set (x # zs)) ?m (mem (kern w))"
    by (elim same_out_mono) auto
  have "account d s (x # xs) w (x # zs)"
    unfolding account_def using w(2,6,7) so ua(3,4) mem_only_trans [OF mu w(3)] by (auto simp: as_pages_def)
  moreover have "emptied d (PGROUNDUP oldsz) newsz ?m (mem (kern w))"
    using u(3) by (simp add: emptied_def w(5) t(5))
  moreover have "allocuvm_from (Suc n) d a oldsz newsz s = Done 0 w"
    using assms(4) k m u(1) w(1) by (subst allocuvm_from.simps) (simp add: Let_def)
  ultimately show ?thesis by blast
qed

lemma filled_step:
  assumes t: "as_inv t d ys" "x \<in> uframes (mem (kern t)) d" "\<forall>y. unat (y - x) < 4096 \<longrightarrow> mem (kern t) y = 0"
    and l: "lookup (mem (kern t)) d = (\<lambda>v. if vpn v = vpn a then V2P x OR (PTE_W OR PTE_U) OR PTE_P else lookup m d v)"
    and u: "account d t ys u zs" "set zs \<subseteq> set ys" "filled d (a + PGSIZE) sz (mem (kern t)) (mem (kern u))"
    and a: "aligned a" "a < sz" "vpn (a + PGSIZE) = Suc (vpn a)"
  shows "filled d a sz m (mem (kern u))"
proof -
  have xp: "aligned x" "x \<notin> pt_pages (mem (kern t)) d \<union> set ys \<union> set zs"
    using t(2) u(2) as_invD(3,5,6) [OF t(1)] by (auto simp: as_pages_def page_ok_def)
  have "\<forall>q \<in> pt_pages (mem (kern t)) d \<union> set ys \<union> set zs. aligned q"
    using vm_invD(6,8) [OF as_invD(1) [OF t(1)]] u(2) by auto
  then have z: "zeroed (mem (kern u)) x"
    using zeroed_same_out [of "mem (kern t)" x _ "mem (kern u)"] u(1) t(3) xp unfolding account_def zeroed_def by blast
  have lb: "low_bits ((PTE_W OR PTE_U) OR PTE_P)" by (intro low_bits_or low_bits_flags)
  have e: "fresh (mem (kern u)) (V2P x OR (PTE_W OR PTE_U) OR PTE_P)"
    using z xp(1) frame_entry [OF xp(1) lb] PTE_FLAGS_entry [OF xp(1) lb]
    by (simp add: fresh_def or.assoc present_bit bit_simps) (simp add: PTE_P_def bit_simps)
  have "4096 * vpn a < unat sz" using a(1,2) by (simp add: aligned_vpn word_less_nat_alt)
  then have r: "in_range a sz v \<longleftrightarrow> vpn v = vpn a \<or> in_range (a + PGSIZE) sz v" for v
    unfolding in_range_def a(3) by (auto simp: Suc_le_eq le_less)
  have nr: "\<not> in_range (a + PGSIZE) sz v" if "vpn v = vpn a" for v
    using that unfolding in_range_def a(3) by simp
  show ?thesis
    unfolding filled_def
  proof
    fix v
    show "if in_range a sz v then fresh (mem (kern u)) (lookup (mem (kern u)) d v)
        else lookup (mem (kern u)) d v = lookup m d v"
      using u(3) [unfolded filled_def, rule_format, of v] e nr [of v] r [of v] fun_cong [OF l, of v]
      by (cases "vpn v = vpn a"; cases "in_range (a + PGSIZE) sz v") simp_all
  qed
qed

lemma allocuvm_from_ok:
  assumes "as_inv s d xs" "aligned a" "newsz < KERNBASE" "oldsz \<le> newsz" "vpn (PGROUNDUP oldsz) \<le> vpn a"
    "unat newsz \<le> unat a + 4096 * n" "\<forall>v. in_range a newsz v \<longrightarrow> \<not> present (lookup (mem (kern s)) d v)"
  shows "\<exists>r t ys. allocuvm_from n d a oldsz newsz s = Done r t \<and> account d s xs t ys \<and>
    (r = newsz \<and> set ys \<subseteq> set xs \<and> filled d a newsz (mem (kern s)) (mem (kern t)) \<or>
     r = 0 \<and> emptied d (PGROUNDUP oldsz) newsz (mem (kern s)) (mem (kern t)))"
  using assms
proof (induction n arbitrary: a s xs)
  case 0
  then have "\<not> a < newsz" by (simp add: word_less_nat_alt)
  moreover have "filled d a newsz (mem (kern s)) (mem (kern s))"
    using "0.prems"(2,6) unfolding filled_def in_range_def by (auto simp: aligned_vpn)
  ultimately show ?case using account_refl [OF "0.prems"(1)] by (subst allocuvm_from.simps) auto
next
  case (Suc n)
  let ?m = "mem (kern s)"
  show ?case
  proof (cases "a < newsz")
    case False
    then have "filled d a newsz ?m ?m"
      using Suc.prems(2) unfolding filled_def in_range_def by (auto simp: aligned_vpn word_less_nat_alt)
    then show ?thesis using False account_refl [OF Suc.prems(1)] by (subst allocuvm_from.simps) auto
  next
    case lt: True
    have ak: "a < KERNBASE" using lt Suc.prems(3) by (rule less_trans)
    note up = vpn_up [OF Suc.prems(2) ak]
    have ra: "in_range a newsz a" using lt Suc.prems(2) by (simp add: in_range_def aligned_vpn word_less_nat_alt)
    show ?thesis
    proof (cases xs)
      case Nil
      then show ?thesis using alloc_fails_empty [of s d oldsz newsz a n] Suc.prems lt by blast
    next
      case (Cons x xs')
      have inv: "as_inv s d (x # xs')" using Suc.prems(1) Cons by simp
      have np: "\<not> present (lookup ?m d a)" using Suc.prems(7) ra by blast
      have lb: "low_bits (PTE_W OR PTE_U)" by (intro low_bits_or low_bits_flags)
      obtain t1 r t ys where t: "kalloc s = Done x t1" "x \<noteq> 0"
        "mappages d a PGSIZE (V2P x) (PTE_W OR PTE_U) (upd_mem (\<lambda>m. memset m x 0 PGSIZE) t1) = Done r t"
        "mem_only s t" "as_inv t d ys" "set ys \<subseteq> set xs'"
        "same_out (pt_pages ?m d \<union> set (x # xs')) ?m (mem (kern t))"
        "\<forall>y. unat (y - x) < 4096 \<longrightarrow> mem (kern t) y = memset ?m x 0 PGSIZE y"
        "pt_pages ?m d \<subseteq> pt_pages (mem (kern t)) d" "pt_pages (mem (kern t)) d \<union> set ys = pt_pages ?m d \<union> set xs'"
        and c: "r = 0 \<and> lookup (mem (kern t)) d = (\<lambda>v. if vpn v = vpn a then V2P x OR (PTE_W OR PTE_U) OR PTE_P else lookup ?m d v) \<and>
            uframes (mem (kern t)) d = insert x (uframes ?m d) \<or>
          r = - 1 \<and> ys = [] \<and> lookup (mem (kern t)) d = lookup ?m d \<and> uframes (mem (kern t)) d = uframes ?m d"
        using alloc_map [OF inv Suc.prems(2) ak np lb, of "\<lambda>m. memset m x 0 PGSIZE"] same_out_memset by blast
      from c show ?thesis
      proof (elim disjE conjE)
        assume "r = - 1" "ys = []" "lookup (mem (kern t)) d = lookup ?m d" "uframes (mem (kern t)) d = uframes ?m d"
        then show ?thesis
          using alloc_fails_table [OF inv Suc.prems(4,3) lt t(1,2), of t n] t Cons by auto
      next
        assume r: "r = 0" and l: "lookup (mem (kern t)) d =
            (\<lambda>v. if vpn v = vpn a then V2P x OR (PTE_W OR PTE_U) OR PTE_P else lookup ?m d v)"
          and uf: "uframes (mem (kern t)) d = insert x (uframes ?m d)"
        have acc: "account d s xs t ys"
          unfolding account_def Cons using t(4-7,9,10) uf
          by (auto simp: as_pages_def elim!: same_out_mono)
        have z: "\<forall>y. unat (y - x) < 4096 \<longrightarrow> mem (kern t) y = 0" using t(8) by (simp add: memset_at PGSIZE_def)
        have fuel: "unat newsz \<le> unat (a + PGSIZE) + 4096 * n"
          using Suc.prems(2,6) up by (simp add: aligned_vpn)
        have nx: "\<forall>v. in_range (a + PGSIZE) newsz v \<longrightarrow> \<not> present (lookup (mem (kern t)) d v)"
          using Suc.prems(7) unfolding l in_range_def up(1) by auto
        have vb: "vpn (PGROUNDUP oldsz) \<le> vpn (a + PGSIZE)" using Suc.prems(5) up(1) by simp
        obtain q u zs where u: "allocuvm_from n d (a + PGSIZE) oldsz newsz t = Done q u" "account d t ys u zs"
          and cu: "q = newsz \<and> set zs \<subseteq> set ys \<and> filled d (a + PGSIZE) newsz (mem (kern t)) (mem (kern u)) \<or>
            q = 0 \<and> emptied d (PGROUNDUP oldsz) newsz (mem (kern t)) (mem (kern u))"
          using Suc.IH [OF t(5) up(2) Suc.prems(3,4) vb fuel nx] by blast
        have run: "allocuvm_from (Suc n) d a oldsz newsz s = Done q u"
          using lt t(1-3) u(1) r by (subst allocuvm_from.simps) (simp add: Let_def)
        have accu: "account d s xs u zs" using account_trans [OF acc _ u(2)] t(6) Cons by auto
        have "q = 0 \<Longrightarrow> emptied d (PGROUNDUP oldsz) newsz (mem (kern t)) (mem (kern u)) \<Longrightarrow>
            emptied d (PGROUNDUP oldsz) newsz ?m (mem (kern u))"
          using Suc.prems(5) ra unfolding emptied_def l in_range_def by (metis le_trans)
        moreover have "filled d a newsz ?m (mem (kern u))"
          if "set zs \<subseteq> set ys" "filled d (a + PGSIZE) newsz (mem (kern t)) (mem (kern u))"
          using filled_step [OF t(5) _ z l u(2) that Suc.prems(2) lt up(1)] uf by simp
        ultimately show ?thesis using run accu cu t(6) Cons by (intro exI conjI) auto
      qed
    qed
  qed
qed

lemma allocuvm_ok:
  assumes "as_inv s d xs" "oldsz \<le> newsz" "newsz < KERNBASE"
    "\<forall>v. in_range (PGROUNDUP oldsz) newsz v \<longrightarrow> \<not> present (lookup (mem (kern s)) d v)"
  shows "\<exists>r t ys. allocuvm d oldsz newsz s = Done r t \<and> account d s xs t ys \<and>
    (r = newsz \<and> set ys \<subseteq> set xs \<and> filled d (PGROUNDUP oldsz) newsz (mem (kern s)) (mem (kern t)) \<or>
     r = 0 \<and> emptied d (PGROUNDUP oldsz) newsz (mem (kern s)) (mem (kern t)))"
proof -
  have "oldsz \<le> KERNBASE" using assms(2,3) by (meson less_imp_le order_trans)
  then have "aligned (PGROUNDUP oldsz)" by (rule PGROUNDUP_ok)
  moreover have "\<not> KERNBASE \<le> newsz" "\<not> newsz < oldsz" using assms(2,3) by auto
  ultimately show ?thesis
    using allocuvm_from_ok [OF assms(1) _ assms(3,2) order_refl rounds_enough assms(4)] by (simp add: allocuvm_def)
qed

end
