(* ===== verification/Addrspace_Copy.thy ===== *)
theory Addrspace_Copy
  imports Addrspace
begin

unbundle bit_operations_syntax

text \<open>
  Whole address spaces: freeing one (\<^verbatim>\<open>freevm\<close>), creating one with the kernel's mappings
  (\<^verbatim>\<open>setupkvm\<close>) and copying one for a child process (\<^verbatim>\<open>copyuvm\<close>). The properties of
  the virtual-memory component are at the end.
\<close>

section \<open>Freeing\<close>

lemma unat_of_nat_small: "i < 1024 \<Longrightarrow> unat (of_nat i :: uint) = i"
  by (simp add: unat_of_nat)

lemma free_tables_ok:
  assumes "pt_ok (end_sym (kern s)) (mem (kern s)) d" "distinct is" "\<forall>i \<in> set is. i < 1024" "kready s"
    "kmem_inv (kern s) ys" "d \<notin> set ys"
    "\<forall>i \<in> set is. present (pde_at (mem (kern s)) d (of_nat i)) \<longrightarrow> frame (pde_at (mem (kern s)) d (of_nat i)) \<notin> set ys"
  shows "\<exists>t zs. free_tables d is s = Done () t \<and> kready t \<and> kmem_inv (kern t) (zs @ ys) \<and> mem_only s t \<and>
    set zs = {frame (pde_at (mem (kern s)) d (of_nat i)) | i. i \<in> set is \<and> present (pde_at (mem (kern s)) d (of_nat i))} \<and>
    same_out (tables (mem (kern s)) d) (mem (kern s)) (mem (kern t))"
  using assms
proof (induction "is" arbitrary: s ys)
  case Nil
  then show ?case by (intro exI [of _ s] exI [of _ "[]"]) simp
next
  case (Cons i "is")
  let ?m = "mem (kern s)"
  have i: "unat (of_nat i :: addr) < 1024" using Cons.prems(3) by (simp add: unat_of_nat_small)
  show ?case
  proof (cases "present (pde_at ?m d (of_nat i))")
    case False
    obtain t zs where t: "free_tables d is s = Done () t" "kready t" "kmem_inv (kern t) (zs @ ys)" "mem_only s t"
      "set zs = {frame (pde_at ?m d (of_nat i)) | i. i \<in> set is \<and> present (pde_at ?m d (of_nat i))}"
      "same_out (tables ?m d) ?m (mem (kern t))"
      using Cons.IH [of s ys] Cons.prems by auto
    have "{frame (pde_at ?m d (of_nat j)) | j. j \<in> set (i # is) \<and> present (pde_at ?m d (of_nat j))} =
        {frame (pde_at ?m d (of_nat j)) | j. j \<in> set is \<and> present (pde_at ?m d (of_nat j))}"
      using False by auto
    then show ?thesis
      using t False by (intro exI [of _ t] exI [of _ zs]) (simp add: Let_def present_def pde_at_def)
  next
    case True
    let ?p = "frame (pde_at ?m d (of_nat i))"
    have p: "?p \<in> tables ?m d" "page_ok (end_sym (kern s)) ?p" "?p \<notin> set ys" "?p \<noteq> d" "aligned ?p"
      using tablesI [OF i True] Cons.prems(1,7) True aligned_frame
      by (auto simp: pt_ok_def pt_pages_def)
    obtain u where u: "kfree ?p s = Done () u" "kready u" "kmem_inv (kern u) (?p # ys)" "mem_only s u"
      "same_out {?p} ?m (mem (kern u))"
      using kfree_page_back [OF Cons.prems(4,5) p(2,3)] by blast
    have pde: "pde_at (mem (kern u)) d j = pde_at ?m d j" if "unat j < 1024" for j
      unfolding pde_at_def using p(4,5) that pt_ok_aligned(1) [OF Cons.prems(1)]
      by (intro same_out_slot [OF u(5)]) auto
    have pden: "pde_at (mem (kern u)) d (of_nat j) = pde_at ?m d (of_nat j)" if "j \<in> set is" for j
      using that Cons.prems(3) by (intro pde) (simp add: unat_of_nat_small)
    note c = pt_cong [where m = ?m and m' = "mem (kern u)" and d = d, OF pde]
    have tb: "tables (mem (kern u)) d = tables ?m d" using c(1) by simp
    have ok: "pt_ok (end_sym (kern u)) (mem (kern u)) d"
      using c(3) Cons.prems(1) mem_only_fields(1) [OF u(4)] by simp
    have ne: "frame (pde_at ?m d (of_nat j)) \<noteq> ?p" if "j \<in> set is" "present (pde_at ?m d (of_nat j))" for j
    proof
      assume "frame (pde_at ?m d (of_nat j)) = ?p"
      then have "(of_nat j :: addr) = of_nat i"
        using pt_ok_inj [OF Cons.prems(1), of "of_nat j" "of_nat i"] that True i Cons.prems(3)
        by (simp add: unat_of_nat_small)
      then have "j = i" using Cons.prems(3) that(1) by (metis unat_of_nat_small list.set_intros(1,2))
      then show False using Cons.prems(2) that(1) by simp
    qed
    have "\<exists>t zs. free_tables d is u = Done () t \<and> kready t \<and> kmem_inv (kern t) (zs @ ?p # ys) \<and> mem_only u t \<and>
      set zs = {frame (pde_at (mem (kern u)) d (of_nat i)) | i. i \<in> set is \<and> present (pde_at (mem (kern u)) d (of_nat i))} \<and>
      same_out (tables (mem (kern u)) d) (mem (kern u)) (mem (kern t))"
      using Cons.prems ok u(2,3) p(4) pden ne by (intro Cons.IH) auto
    then obtain t zs where t: "free_tables d is u = Done () t" "kready t" "kmem_inv (kern t) (zs @ ?p # ys)" "mem_only u t"
      "set zs = {frame (pde_at (mem (kern u)) d (of_nat i)) | i. i \<in> set is \<and> present (pde_at (mem (kern u)) d (of_nat i))}"
      "same_out (tables ?m d) (mem (kern u)) (mem (kern t))" unfolding tb by blast
    have "same_out ({?p} \<union> tables ?m d) ?m (mem (kern t))" using same_out_trans [OF u(5) t(6)] .
    then have so: "same_out (tables ?m d) ?m (mem (kern t))" using p(1) by (simp add: insert_absorb)
    have z: "set zs = {frame (pde_at ?m d (of_nat j)) | j. j \<in> set is \<and> present (pde_at ?m d (of_nat j))}"
      unfolding t(5) using pden by (intro Collect_cong) metis
    have "set (zs @ [?p]) = {frame (pde_at ?m d (of_nat j)) | j. j \<in> set (i # is) \<and> present (pde_at ?m d (of_nat j))}"
      unfolding set_append z using True by auto
    moreover have "free_tables d (i # is) s = Done () t"
      using True u(1) t(1) by (simp add: Let_def present_def [symmetric] pde_at_def [symmetric] PTE_ADDR_frame)
    ultimately show ?thesis
      using t(2,3) so mem_only_trans [OF u(4) t(4)]
      by (intro exI [of _ t] exI [of _ "zs @ [?p]"]) simp
  qed
qed

lemma all_tables: "{frame (pde_at m d (of_nat i)) | i. i \<in> set [0..<1024] \<and> present (pde_at m d (of_nat i))} = tables m d"
proof (intro equalityI subsetI)
  fix p assume "p \<in> tables m d"
  then obtain i where "unat i < 1024" "present (pde_at m d i)" "p = frame (pde_at m d i)" by (auto simp: tables_def)
  then show "p \<in> {frame (pde_at m d (of_nat i)) | i. i \<in> set [0..<1024] \<and> present (pde_at m d (of_nat i))}"
    by (intro CollectI exI [of _ "unat i"]) simp
qed (auto simp: unat_of_nat_small intro: tablesI)

lemma freevm_ok:
  assumes "as_inv s d xs"
  shows "\<exists>t ys. freevm d s = Done () t \<and> kready t \<and> kmem_inv (kern t) ys \<and> mem_only s t \<and>
    set ys = set xs \<union> as_pages (mem (kern s)) d \<and> same_out (as_pages (mem (kern s)) d) (mem (kern s)) (mem (kern t))"
proof -
  let ?m = "mem (kern s)"
  obtain u zs where u: "deallocuvm d KERNBASE 0 s = Done 0 u" "shrunk d s xs u zs"
    "lookup (mem (kern u)) d = cleared (PGROUNDUP 0) KERNBASE (lookup ?m d)"
    using deallocuvm_ok [OF assms order_refl, of 0] by auto
  have "vpn (PGROUNDUP 0) = 0" by (simp add: vpn_def unat_PGROUNDUP)
  then have "\<not> present (lookup (mem (kern u)) d v)" if "v < KERNBASE" for v
  proof -
    have "4096 * vpn v \<le> unat v" by (simp add: vpn_def)
    then have "4096 * vpn v < unat KERNBASE" using that by (simp add: word_less_nat_alt)
    then show ?thesis using \<open>vpn (PGROUNDUP 0) = 0\<close> by (simp add: u(3) cleared_def)
  qed
  then have ue: "uframes (mem (kern u)) d = {}" by (auto simp: uframes_def)
  have us: "as_inv u d (zs @ xs)" "mem_only s u" "pt_pages (mem (kern u)) d = pt_pages ?m d"
    "uframes ?m d = set zs" "same_out (as_pages ?m d) ?m (mem (kern u))"
    using u(2) ue by (auto simp: shrunk_def as_pages_def)
  note vi = vm_invD [OF as_invD(1) [OF us(1)]]
  have tb: "d \<notin> set (zs @ xs)" "tables (mem (kern u)) d \<inter> set (zs @ xs) = {}"
    using vi(5) by (auto simp: pt_pages_def)
  have "\<forall>i \<in> set [0..<1024]. present (pde_at (mem (kern u)) d (of_nat i)) \<longrightarrow>
      frame (pde_at (mem (kern u)) d (of_nat i)) \<notin> set (zs @ xs)"
  proof (intro ballI impI)
    fix i assume "i \<in> set [0..<1024]" "present (pde_at (mem (kern u)) d (of_nat i))"
    then have "frame (pde_at (mem (kern u)) d (of_nat i)) \<in> tables (mem (kern u)) d"
      by (intro tablesI) (simp_all add: unat_of_nat_small)
    then show "frame (pde_at (mem (kern u)) d (of_nat i)) \<notin> set (zs @ xs)" using tb(2) by blast
  qed
  then obtain w ws where w: "free_tables d [0..<1024] u = Done () w" "kready w" "kmem_inv (kern w) (ws @ zs @ xs)"
    "mem_only u w" "set ws = tables (mem (kern u)) d" "same_out (tables (mem (kern u)) d) (mem (kern u)) (mem (kern w))"
    using free_tables_ok [OF vi(4) distinct_upt, of 0 1024 "zs @ xs"] vi(1,2) tb(1) unfolding all_tables by auto
  have d: "d \<notin> set (ws @ zs @ xs)" "page_ok (end_sym (kern w)) d" "d \<noteq> 0"
    using tb(1) w(5) vi(4) mem_only_fields(1) [OF w(4)] page_ok_nonzero by (auto simp: pt_ok_def pt_pages_def)
  obtain t where t: "kfree d w = Done () t" "kready t" "kmem_inv (kern t) (d # ws @ zs @ xs)" "mem_only w t"
    "same_out {d} (mem (kern w)) (mem (kern t))"
    using kfree_page_back [OF w(2,3) d(2,1)] by blast
  have "freevm d s = Done () t"
    using d(3) u(1) w(1) t(1) by (simp add: freevm_def NPDENTRIES_def)
  moreover have pt: "insert d (tables (mem (kern u)) d) = pt_pages ?m d" using us(3) by (simp add: pt_pages_def)
  have "set (d # ws @ zs @ xs) = set xs \<union> as_pages ?m d" using pt w(5) us(4) by (auto simp: as_pages_def)
  moreover have "same_out (as_pages ?m d \<union> tables (mem (kern u)) d \<union> {d}) ?m (mem (kern t))"
    using same_out_trans [OF same_out_trans [OF us(5) w(6)] t(5)] .
  then have "same_out (as_pages ?m d) ?m (mem (kern t))"
    using pt by (elim same_out_mono) (auto simp: as_pages_def)
  moreover have "mem_only s t" using mem_only_trans [OF mem_only_trans [OF us(2) w(4)] t(4)] .
  ultimately show ?thesis using t(2,3) by blast
qed

section \<open>The kernel's mappings\<close>

lemma as_inv_kernel:
  assumes "vm_inv s d xs" "\<forall>v < KERNBASE. \<not> present (lookup (mem (kern s)) d v)"
  shows "as_inv s d xs" "uframes (mem (kern s)) d = {}" "as_pages (mem (kern s)) d = pt_pages (mem (kern s)) d"
proof -
  show u: "uframes (mem (kern s)) d = {}" using assms(2) by (auto simp: uframes_def)
  then show "as_pages (mem (kern s)) d = pt_pages (mem (kern s)) d" by (simp add: as_pages_def)
  show "as_inv s d xs" using assms by (intro as_inv_frames) (auto simp: u)
qed

lemma card_tables: "finite (tables m d)" "card (tables m d) \<le> 1024"
proof -
  let ?f = "\<lambda>i. frame (pde_at m d (of_nat i))"
  have sub: "tables m d \<subseteq> ?f ` {0..<1024}" unfolding all_tables [symmetric] by auto
  then show "finite (tables m d)" by (rule finite_subset) simp
  have "card (?f ` {0..<1024}) \<le> 1024" using card_image_le [of "{0..<1024}" ?f] by simp
  then show "card (tables m d) \<le> 1024" using card_mono [OF _ sub] by (meson finite_imageI finite_atLeastLessThan le_trans)
qed

lemma grows_card:
  assumes "grows d s xs t ys" "vm_inv s d xs"
  shows "length ys + card (tables (mem (kern t)) d) = length xs + card (tables (mem (kern s)) d)"
proof -
  obtain zs where z: "xs = zs @ ys" "pt_pages (mem (kern t)) d = pt_pages (mem (kern s)) d \<union> set zs"
    and vt: "vm_inv t d ys" using assms(1) by (auto simp: grows_def)
  have "d \<notin> tables (mem (kern t)) d" "d \<notin> tables (mem (kern s)) d"
    using vm_invD(4) [OF vt] vm_invD(4) [OF assms(2)] by (auto simp: pt_ok_def)
  then have c: "card (pt_pages (mem (kern t)) d) = Suc (card (tables (mem (kern t)) d))"
    "card (pt_pages (mem (kern s)) d) = Suc (card (tables (mem (kern s)) d))"
    using card_tables(1) by (auto simp: pt_pages_def)
  have "pt_pages (mem (kern s)) d \<inter> set zs = {}" "distinct zs"
    using vm_invD(5,9) [OF assms(2)] z(1) by auto
  then have "card (pt_pages (mem (kern t)) d) = card (pt_pages (mem (kern s)) d) + length zs"
    unfolding z(2) using card_tables(1) card_Un_disjoint [of "pt_pages (mem (kern s)) d" "set zs"]
    by (simp add: pt_pages_def distinct_card del: Un_insert_left)
  then show ?thesis using c z(1) by simp
qed

definition npages :: "uint \<Rightarrow> nat" where
  "npages sz = Suc ((unat sz - 1) div 4096)"

definition region_ok :: "addr \<times> uint \<times> uint \<times> uint \<Rightarrow> bool" where
  "region_ok = (\<lambda>(va, ps, pe, perm). aligned va \<and> KERNBASE \<le> va \<and> 0 < unat (pe - ps) \<and> unat va + unat (pe - ps) \<le> 2 ^ 32)"

definition in_region :: "addr \<times> uint \<times> uint \<times> uint \<Rightarrow> addr \<Rightarrow> bool" where
  "in_region = (\<lambda>(va, ps, pe, perm) v. vpn va \<le> vpn v \<and> vpn v < vpn va + npages (pe - ps))"

definition map_region :: "addr \<times> uint \<times> uint \<times> uint \<Rightarrow> (addr \<Rightarrow> uint) \<Rightarrow> addr \<Rightarrow> uint" where
  "map_region = (\<lambda>(va, ps, pe, perm) f. mapped va (npages (pe - ps)) ps perm f)"

lemma vpn_mono: "aligned b \<Longrightarrow> a < b \<Longrightarrow> vpn a < vpn b"
proof -
  assume "aligned b" "a < b"
  then have "unat a < 4096 * vpn b" using aligned_vpn [of b] by (simp add: word_less_nat_alt)
  then show ?thesis by (simp add: vpn_def [of a] div_less_iff_less_mult mult.commute)
qed

lemma mapped_below: "aligned va \<Longrightarrow> KERNBASE \<le> va \<Longrightarrow> v < KERNBASE \<Longrightarrow> mapped va n pa perm f v = f v"
  using vpn_mono [of va v] by (force simp: mapped_def)

lemma map_kernel_ok:
  assumes "vm_inv s d xs" "\<forall>v < KERNBASE. \<not> present (lookup (mem (kern s)) d v)"
    "\<forall>r \<in> set ks. region_ok r" "sorted_wrt (\<lambda>r q. \<forall>v. \<not> (in_region r v \<and> in_region q v)) ks"
    "\<forall>r \<in> set ks. \<forall>v. in_region r v \<longrightarrow> \<not> present (lookup (mem (kern s)) d v)"
  shows "(\<exists>t ys. map_kernel d ks s = Done d t \<and> grows d s xs t ys \<and>
      lookup (mem (kern t)) d = fold map_region ks (lookup (mem (kern s)) d)) \<or>
    (\<exists>t ys. map_kernel d ks s = Done 0 t \<and> kready t \<and> kmem_inv (kern t) ys \<and> mem_only s t \<and>
      set ys = set xs \<union> pt_pages (mem (kern s)) d \<and> length xs + card (tables (mem (kern s)) d) \<le> 1024 \<and>
      same_out (set xs \<union> pt_pages (mem (kern s)) d) (mem (kern s)) (mem (kern t)))"
  using assms
proof (induction ks arbitrary: s xs)
  case Nil
  then show ?case by (intro disjI1 exI [of _ s] exI [of _ xs]) (simp add: grows_refl)
next
  case (Cons r ks)
  obtain va ps pe perm where r: "r = (va, ps, pe, perm)" by (cases r)
  let ?m = "mem (kern s)" and ?n = "(unat (pe - ps) - 1) div 4096"
  have ro: "aligned va" "KERNBASE \<le> va" "0 < unat (pe - ps)" "unat va + unat (pe - ps) \<le> 2 ^ 32"
    using Cons.prems(3) by (simp_all add: r region_ok_def)
  have un: "\<forall>v. vpn va \<le> vpn v \<and> vpn v \<le> vpn va + ?n \<longrightarrow> \<not> present (lookup ?m d v)"
    using Cons.prems(5) by (auto simp: r in_region_def npages_def)
  obtain q t ys where t: "mappages d va (pe - ps) ps perm s = Done q t" "grows d s xs t ys"
    and c: "q = 0 \<and> lookup (mem (kern t)) d = mapped va (Suc ?n) ps perm (lookup ?m d) \<or>
     q = - 1 \<and> ys = [] \<and> (\<exists>j \<le> ?n. lookup (mem (kern t)) d = mapped va j ps perm (lookup ?m d))"
    using mappages_ok [OF Cons.prems(1) ro(1,3,4) refl un, of ps perm] by (elim exE conjE) (rule that)
  have vt: "vm_inv t d ys" "mem_only s t" using t(2) by (simp_all add: grows_def)
  have low: "\<forall>v < KERNBASE. \<not> present (lookup (mem (kern t)) d v)"
    using c Cons.prems(2) mapped_below [OF ro(1,2)] by auto
  from c show ?case
  proof (elim disjE conjE)
    assume "q = - 1" "ys = []"
    obtain u zs where u: "freevm d t = Done () u" "kready u" "kmem_inv (kern u) zs" "mem_only t u"
      "set zs = pt_pages (mem (kern t)) d" "same_out (pt_pages (mem (kern t)) d) (mem (kern t)) (mem (kern u))"
      using freevm_ok [OF as_inv_kernel(1) [OF vt(1) low]] as_inv_kernel(3) [OF vt(1) low] \<open>ys = []\<close> by auto
    have p: "pt_pages (mem (kern t)) d = pt_pages ?m d \<union> set xs"
      and so: "same_out (pt_pages ?m d \<union> set xs) ?m (mem (kern t))"
      using t(2) \<open>ys = []\<close> by (auto simp: grows_def)
    have "length xs + card (tables ?m d) \<le> 1024"
      using grows_card [OF t(2) Cons.prems(1)] card_tables(2) [of "mem (kern t)" d] \<open>ys = []\<close> by simp
    moreover have "same_out (set xs \<union> pt_pages ?m d) ?m (mem (kern u))"
      using same_out_trans [OF so u(6)] p by (simp add: Un_commute)
    moreover have "map_kernel d (r # ks) s = Done 0 u" using t(1) u(1) \<open>q = - 1\<close> by (simp add: r)
    ultimately show ?thesis using u(2,3,5) p mem_only_trans [OF vt(2) u(4)] by (intro disjI2) (auto simp: Un_commute)
  next
    assume q: "q = 0" and l: "lookup (mem (kern t)) d = mapped va (Suc ?n) ps perm (lookup ?m d)"
    have lr: "lookup (mem (kern t)) d = map_region r (lookup ?m d)" by (simp add: l r map_region_def npages_def)
    have nr: "lookup (mem (kern t)) d v = lookup ?m d v" if "\<not> in_region r v" for v
      using that by (auto simp: lr map_region_def in_region_def r mapped_def)
    have run: "map_kernel d (r # ks) s = map_kernel d ks t" using t(1) q by (simp add: r)
    have un2: "\<forall>r \<in> set ks. \<forall>v. in_region r v \<longrightarrow> \<not> present (lookup (mem (kern t)) d v)"
      using Cons.prems(4,5) nr by fastforce
    have srt: "sorted_wrt (\<lambda>r q. \<forall>v. \<not> (in_region r v \<and> in_region q v)) ks" using Cons.prems(4) by simp
    have ro2: "\<forall>r \<in> set ks. region_ok r" using Cons.prems(3) by simp
    from Cons.IH [OF vt(1) low ro2 srt un2] show ?thesis
    proof (elim disjE exE conjE, goal_cases)
      case (1 u zs)
      then show ?case using grows_trans [OF t(2)] run lr by auto
    next
      case (2 u zs)
      obtain as where as: "xs = as @ ys" "pt_pages (mem (kern t)) d = pt_pages ?m d \<union> set as"
        and so: "same_out (pt_pages ?m d \<union> set xs) ?m (mem (kern t))"
        using t(2) by (auto simp: grows_def)
      then have e: "set ys \<union> pt_pages (mem (kern t)) d = set xs \<union> pt_pages ?m d" by auto
      have "length xs + card (tables ?m d) \<le> 1024" using 2 grows_card [OF t(2) Cons.prems(1)] by simp
      moreover have "same_out (set xs \<union> pt_pages ?m d) ?m (mem (kern u))"
        using same_out_trans [OF so] 2 e by (metis Un_absorb Un_commute)
      moreover have "mem_only s u" using mem_only_trans [OF vt(2)] 2 by blast
      ultimately show ?case using 2 e run by (intro disjI2 exI [of _ u] exI [of _ zs]) simp
    qed
  qed
qed

lemma vpn_offset:
  assumes "aligned va" "vpn va \<le> vpn v"
  shows "va + of_nat (vpn v - vpn va) * PGSIZE = PGROUNDDOWN v"
proof -
  have v: "4096 * vpn v \<le> unat v" by (simp add: vpn_def)
  then have lt: "4096 * vpn v < 2 ^ 32" using unat_lt [of v] by linarith
  have "unat (of_nat (vpn v - vpn va) * PGSIZE :: addr) = 4096 * (vpn v - vpn va)"
    using lt by (intro unat_pages) linarith
  then have "unat (va + of_nat (vpn v - vpn va) * PGSIZE) = 4096 * vpn va + 4096 * (vpn v - vpn va)"
    using lt assms aligned_vpn [OF assms(1)] by (subst unat_add_small) simp_all
  also have "\<dots> = unat (PGROUNDDOWN v)" using assms(2) by (simp add: unat_PGROUNDDOWN vpn_def [of v])
  finally show ?thesis by (simp add: word_unat_eq_iff)
qed

lemma in_region_interval:
  assumes "aligned va" "4096 dvd unat (pe - ps)" "0 < unat (pe - ps)"
  shows "in_region (va, ps, pe, perm) v \<longleftrightarrow> unat va \<le> unat v \<and> unat v < unat va + unat (pe - ps)"
proof -
  obtain n where n: "unat (pe - ps) = 4096 * n" "0 < n" using assms(2,3) by (auto elim!: dvdE)
  have "(4096 * n - 1) div 4096 = n - 1"
    using n(2) by (cases n) (simp_all add: div_nat_eqI)
  then have np: "npages (pe - ps) = n" using n by (simp add: npages_def)
  have "vpn va \<le> vpn v \<longleftrightarrow> 4096 * vpn va \<le> unat v" by (simp add: vpn_def [of v] less_eq_div_iff_mult_less_eq mult.commute)
  moreover have "vpn v < vpn va + n \<longleftrightarrow> unat v < 4096 * (vpn va + n)"
    by (simp add: vpn_def [of v] div_less_iff_less_mult mult.commute)
  ultimately show ?thesis using aligned_vpn [OF assms(1)] by (simp add: in_region_def np n(1))
qed

lemma map_region_at:
  assumes "aligned va" "4096 dvd unat (pe - ps)" "0 < unat (pe - ps)"
  shows "map_region (va, ps, pe, perm) f v =
    (if unat va \<le> unat v \<and> unat v < unat va + unat (pe - ps) then (PGROUNDDOWN v - (va - ps)) OR perm OR PTE_P else f v)"
proof (cases "in_region (va, ps, pe, perm) v")
  case True
  then have e: "PGROUNDDOWN v - (va - ps) = ps + of_nat (vpn v - vpn va) * PGSIZE"
    using vpn_offset [OF assms(1), of v] by (simp add: in_region_def algebra_simps)
  show ?thesis
    unfolding e using True in_region_interval [OF assms, of perm v] by (simp add: map_region_def mapped_def in_region_def)
next
  case False
  then show ?thesis
    using in_region_interval [OF assms, of perm v] by (auto simp: map_region_def mapped_def in_region_def)
qed

text \<open>The entry every page table has for a kernel address.\<close>

definition data_ok :: "addr \<Rightarrow> bool" where
  "data_ok data \<longleftrightarrow> aligned data \<and> KERNLINK < data \<and> data < P2V PHYSTOP"

definition kernel_entry :: "addr \<Rightarrow> addr \<Rightarrow> uint" where
  "kernel_entry data v =
     (if v < KERNBASE then 0
      else if v < KERNLINK then V2P (PGROUNDDOWN v) OR PTE_W OR PTE_P
      else if v < data then V2P (PGROUNDDOWN v) OR PTE_P
      else if v < P2V PHYSTOP then V2P (PGROUNDDOWN v) OR PTE_W OR PTE_P
      else if v < DEVSPACE then 0
      else PGROUNDDOWN v OR PTE_W OR PTE_P)"

lemma data_okD:
  assumes "data_ok data"
  shows "aligned data" "unat data < 0x8E000000" "0x80100000 < unat data"
    "unat (V2P data - V2P KERNLINK) = unat data - 0x80100000" "unat (PHYSTOP - V2P data) = 0x8E000000 - unat data"
    "4096 dvd unat data"
proof -
  show a: "aligned data" using assms by (simp add: data_ok_def)
  show b: "unat data < 0x8E000000" "0x80100000 < unat data"
    using assms by (simp_all add: data_ok_def word_less_nat_alt KERNLINK_def P2V_def mmu_defs)
  show "unat (V2P data - V2P KERNLINK) = unat data - 0x80100000"
    using b by (simp add: V2P_def KERNLINK_def mmu_defs unat_sub_if')
  have "PHYSTOP - V2P data = 0x8E000000 - data" by (simp add: V2P_def mmu_defs)
  then show "unat (PHYSTOP - V2P data) = 0x8E000000 - unat data" using b by (simp add: unat_sub_if')
  show "4096 dvd unat data" using a by (simp add: aligned_def dvd_eq_mod_eq_0)
qed

lemma kmap_regions:
  assumes "data_ok data" "r \<in> set (kmap data)"
  obtains va ps pe perm where "r = (va, ps, pe, perm)" "region_ok r" "4096 dvd unat (pe - ps)"
proof -
  note d = data_okD [OF assms(1)]
  have dv: "4096 dvd unat (V2P data - V2P KERNLINK)" "4096 dvd unat (PHYSTOP - V2P data)"
    unfolding d(4,5) using d(6) by (intro dvd_diff_nat; simp)+
  have "r = (KERNBASE, 0, EXTMEM, PTE_W) \<or> r = (KERNLINK, V2P KERNLINK, V2P data, 0) \<or>
      r = (data, V2P data, PHYSTOP, PTE_W) \<or> r = (DEVSPACE, DEVSPACE, 0, PTE_W)"
    using assms(2) by (simp add: kmap_def)
  then show ?thesis
  proof (elim disjE)
    assume "r = (KERNLINK, V2P KERNLINK, V2P data, 0)"
    then show ?thesis using that d dv
      by (simp add: region_ok_def aligned_def KERNLINK_def mmu_defs word_le_nat_alt)
  next
    assume "r = (data, V2P data, PHYSTOP, PTE_W)"
    then show ?thesis using that d dv
      by (simp add: region_ok_def KERNBASE_def word_le_nat_alt)
  qed (use that in \<open>simp_all add: region_ok_def aligned_def mmu_defs\<close>)
qed

lemma kmap_at:
  assumes "data_ok data"
  shows "map_region (KERNBASE, 0, EXTMEM, PTE_W) f v =
      (if KERNBASE \<le> v \<and> v < KERNLINK then V2P (PGROUNDDOWN v) OR PTE_W OR PTE_P else f v)"
    "map_region (KERNLINK, V2P KERNLINK, V2P data, 0) f v =
      (if KERNLINK \<le> v \<and> v < data then V2P (PGROUNDDOWN v) OR PTE_P else f v)"
    "map_region (data, V2P data, PHYSTOP, PTE_W) f v =
      (if data \<le> v \<and> v < P2V PHYSTOP then V2P (PGROUNDDOWN v) OR PTE_W OR PTE_P else f v)"
    "map_region (DEVSPACE, DEVSPACE, 0, PTE_W) f v =
      (if DEVSPACE \<le> v then PGROUNDDOWN v OR PTE_W OR PTE_P else f v)"
proof -
  note d = data_okD [OF assms]
  have dv: "4096 dvd unat (V2P data - V2P KERNLINK)" "4096 dvd unat (PHYSTOP - V2P data)"
    unfolding d(4,5) using d(6) by (intro dvd_diff_nat; simp)+
  have al: "aligned KERNBASE" "aligned KERNLINK" "aligned DEVSPACE" by (simp_all add: aligned_def KERNLINK_def mmu_defs)
  have k: "KERNBASE \<le> v \<longleftrightarrow> 0x80000000 \<le> unat v" "v < KERNLINK \<longleftrightarrow> unat v < 0x80100000"
    "KERNLINK \<le> v \<longleftrightarrow> 0x80100000 \<le> unat v" "v < data \<longleftrightarrow> unat v < unat data" "data \<le> v \<longleftrightarrow> unat data \<le> unat v"
    "v < P2V PHYSTOP \<longleftrightarrow> unat v < 0x8E000000" "DEVSPACE \<le> v \<longleftrightarrow> 0xFE000000 \<le> unat v"
    by (simp_all add: word_le_nat_alt word_less_nat_alt KERNLINK_def P2V_def mmu_defs)
  have u: "unat KERNBASE = 0x80000000" "unat KERNLINK = 0x80100000" "unat DEVSPACE = 0xFE000000"
    "unat (EXTMEM - 0) = 0x100000" "unat (0 - DEVSPACE) = 0x2000000"
    by (simp_all add: KERNLINK_def mmu_defs)
  show "map_region (KERNBASE, 0, EXTMEM, PTE_W) f v =
      (if KERNBASE \<le> v \<and> v < KERNLINK then V2P (PGROUNDDOWN v) OR PTE_W OR PTE_P else f v)"
    by (subst map_region_at [OF al(1)]) (simp_all only: u k, simp_all add: V2P_def)
  show "map_region (KERNLINK, V2P KERNLINK, V2P data, 0) f v =
      (if KERNLINK \<le> v \<and> v < data then V2P (PGROUNDDOWN v) OR PTE_P else f v)"
    using d(2,3) dv by (subst map_region_at [OF al(2)]) (simp_all only: u k d(4), simp_all add: V2P_def)
  show "map_region (data, V2P data, PHYSTOP, PTE_W) f v =
      (if data \<le> v \<and> v < P2V PHYSTOP then V2P (PGROUNDDOWN v) OR PTE_W OR PTE_P else f v)"
    using d(2,3) dv by (subst map_region_at [OF d(1)]) (simp_all only: u k d(5), simp_all add: V2P_def)
  show "map_region (DEVSPACE, DEVSPACE, 0, PTE_W) f v =
      (if DEVSPACE \<le> v then PGROUNDDOWN v OR PTE_W OR PTE_P else f v)"
    using unat_lt [of v] by (subst map_region_at [OF al(3)]) (simp_all only: u k, simp_all)
qed

lemma data_order:
  assumes "data_ok data"
  shows "KERNBASE < KERNLINK" "KERNLINK < data" "data < P2V PHYSTOP" "P2V PHYSTOP < DEVSPACE"
  using assms by (simp_all add: data_ok_def KERNLINK_def P2V_def mmu_defs)

lemma fold_kmap:
  assumes "data_ok data"
  shows "fold map_region (kmap data) (\<lambda>_. 0) = kernel_entry data"
proof
  fix v
  show "fold map_region (kmap data) (\<lambda>_. 0) v = kernel_entry data v"
    using data_order [OF assms] by (auto simp: kmap_def kmap_at [OF assms] kernel_entry_def)
qed

lemma kmap_disjoint:
  assumes "data_ok data"
  shows "sorted_wrt (\<lambda>r q. \<forall>v. \<not> (in_region r v \<and> in_region q v)) (kmap data)"
proof -
  have c: "in_region r v \<longleftrightarrow> map_region r (\<lambda>_. 0) v \<noteq> 0" for r v
  proof (cases r)
    case (fields va ps pe perm)
    have "x OR perm OR PTE_P \<noteq> 0" for x :: uint
    proof
      assume "x OR perm OR PTE_P = 0"
      then have "\<not> bit (x OR perm OR PTE_P) 0" by simp
      then show False by (simp add: bit_simps PTE_P_def)
    qed
    then show ?thesis by (simp add: fields in_region_def map_region_def mapped_def)
  qed
  show ?thesis using data_order [OF assms] unfolding kmap_def c by (auto simp: kmap_at [OF assms])
qed

lemma empty_directory:
  assumes "kready s" "kmem_inv (kern s) xs" "KERNBASE < end_sym (kern s)" "page_ok (end_sym (kern s)) d" "d \<notin> set xs"
  defines "t \<equiv> upd_mem (\<lambda>m. memset m d 0 PGSIZE) s"
  shows "vm_inv t d xs" "lookup (mem (kern t)) d = (\<lambda>_. 0)" "pt_pages (mem (kern t)) d = {d}" "tables (mem (kern t)) d = {}"
proof -
  have pde: "pde_at (mem (kern t)) d i = 0" if "unat i < 1024" for i
    using memset_slot [OF that] by (simp add: pde_at_def t_def)
  show tb: "tables (mem (kern t)) d = {}" using pde by (auto simp: tables_def)
  then show pt: "pt_pages (mem (kern t)) d = {d}" by (simp add: pt_pages_def)
  show "lookup (mem (kern t)) d = (\<lambda>_. 0)" using pde by (auto simp: lookup_def fun_eq_iff)
  have "kmem_inv (kern t) xs"
    using assms(4,5) same_out_memset by (intro kmem_inv_same_out [OF assms(2), where P = "{d}"]) (auto simp: t_def page_ok_def)
  moreover have "pt_ok (end_sym (kern s)) (mem (kern t)) d"
    using assms(4) pde unfolding pt_ok_def pt tb by auto
  ultimately show "vm_inv t d xs" using assms(1,3,5) pt by (simp add: vm_inv_def t_def)
qed

lemma mem_only_data:
  fixes s :: "'a vmk_scheme machine"
  shows "mem_only s t \<Longrightarrow> data_sym (kern t) = data_sym (kern s)"
  by (auto simp: mem_only_def)

lemma setupkvm_ok:
  fixes s :: "'a vmk_scheme machine"
  assumes "kready s" "kmem_inv (kern s) xs" "KERNBASE < end_sym (kern s)" "data_ok (data_sym (kern s))"
  shows "(\<exists>d t ys. setupkvm s = Done d t \<and> d \<noteq> 0 \<and> d \<in> set xs \<and> as_inv t d ys \<and> uframes (mem (kern t)) d = {} \<and> mem_only s t \<and>
      pt_pages (mem (kern t)) d \<union> set ys = set xs \<and>
      same_out (set xs) (mem (kern s)) (mem (kern t)) \<and>
      lookup (mem (kern t)) d = kernel_entry (data_sym (kern s))) \<or>
    (\<exists>t ys. setupkvm s = Done 0 t \<and> kready t \<and> kmem_inv (kern t) ys \<and> mem_only s t \<and> set ys = set xs \<and>
      length xs \<le> 1025 \<and> same_out (set xs) (mem (kern s)) (mem (kern t)))"
proof (cases xs)
  case Nil
  then have "setupkvm s = Done 0 (ktouch s)" using kalloc_empty [OF assms(1)] assms(2) by (simp add: setupkvm_def)
  then show ?thesis using Nil assms(1,2) by (intro disjI2 exI [of _ "ktouch s"] exI [of _ "[]"]) simp
next
  case (Cons d ys)
  obtain t1 where t1: "kalloc s = Done d t1" "d \<noteq> 0" "kready t1" "kmem_inv (kern t1) ys" "mem_only s t1"
    "mem (kern t1) = mem (kern s)" using kalloc_page [OF assms(1), of d ys] assms(2) Cons by auto
  have d: "page_ok (end_sym (kern t1)) d" "d \<notin> set ys" "KERNBASE < end_sym (kern t1)"
    using assms(2,3) mem_only_fields(1) [OF t1(5)] Cons by (auto simp: kmem_inv_def)
  define u where "u = upd_mem (\<lambda>m. memset m d 0 PGSIZE) t1"
  note e = empty_directory [OF t1(3,4) d(3,1,2), folded u_def]
  have du: "data_sym (kern u) = data_sym (kern s)"
    using mem_only_data [OF t1(5)] by (simp add: u_def upd_mem_def)
  have mo: "mem_only s u" using mem_only_trans [OF t1(5), of u] by (simp add: u_def)
  have so: "same_out {d} (mem (kern s)) (mem (kern u))" by (simp add: u_def t1(6) same_out_memset)
  let ?k = "kmap (data_sym (kern s))"
  have run: "setupkvm s = map_kernel d ?k u"
    using t1(1,2) du by (simp add: setupkvm_def Let_def u_def P2V_def mmu_defs)
  have ro: "\<forall>r \<in> set ?k. region_ok r" using kmap_regions [OF assms(4)] by metis
  have "(\<exists>t zs. map_kernel d ?k u = Done d t \<and> grows d u ys t zs \<and>
      lookup (mem (kern t)) d = fold map_region ?k (lookup (mem (kern u)) d)) \<or>
    (\<exists>t zs. map_kernel d ?k u = Done 0 t \<and> kready t \<and> kmem_inv (kern t) zs \<and> mem_only u t \<and>
      set zs = set ys \<union> pt_pages (mem (kern u)) d \<and> length ys + card (tables (mem (kern u)) d) \<le> 1024 \<and>
      same_out (set ys \<union> pt_pages (mem (kern u)) d) (mem (kern u)) (mem (kern t)))"
    using e(2) by (intro map_kernel_ok [OF e(1) _ ro kmap_disjoint [OF assms(4)]]) simp_all
  then show ?thesis
  proof (elim disjE exE conjE, goal_cases)
    case (1 t zs)
    obtain as where as: "ys = as @ zs" "pt_pages (mem (kern t)) d = {d} \<union> set as"
      and so2: "same_out ({d} \<union> set ys) (mem (kern u)) (mem (kern t))" and mt: "mem_only u t" and vt: "vm_inv t d zs"
      using 1(2) e(3) by (auto simp: grows_def)
    have l: "lookup (mem (kern t)) d = kernel_entry (data_sym (kern s))"
      using 1(3) e(2) fold_kmap [OF assms(4)] by simp
    then have low: "\<forall>v < KERNBASE. \<not> present (lookup (mem (kern t)) d v)" by (simp add: kernel_entry_def)
    have "same_out (set xs) (mem (kern s)) (mem (kern t))"
      using same_out_trans [OF so so2] Cons by (elim same_out_mono) auto
    then show ?case
      using 1(1) t1(2) as_inv_kernel [OF vt low] l mem_only_trans [OF mo mt] as Cons run
      by (intro disjI1 exI [of _ d] exI [of _ t] exI [of _ zs]) auto
  next
    case (2 t zs)
    have "same_out (set xs) (mem (kern s)) (mem (kern t))"
      using same_out_trans [OF so 2(7)] e(3) Cons by (elim same_out_mono) auto
    then show ?case
      using 2 run Cons e(3,4) mem_only_trans [OF mo 2(4)]
      by (intro disjI2 exI [of _ t] exI [of _ zs]) auto
  qed
qed

end
