(* ===== verification/Copyuvm.thy ===== *)
theory Copyuvm
  imports Addrspace_Copy
begin

unbundle bit_operations_syntax

text \<open>
  Copying an address space for a child process, and the properties of the virtual-memory
  component.
\<close>

section \<open>Two address spaces side by side\<close>

lemma other_space:
  assumes "as_inv s p xs" "same_out P (mem (kern s)) (mem (kern t))" "\<forall>q \<in> P. aligned q"
    "P \<inter> as_pages (mem (kern s)) p = {}" "kready t" "kmem_inv (kern t) ys" "set ys \<inter> as_pages (mem (kern s)) p = {}"
    "mem_only s t"
  shows "as_inv t p ys" "lookup (mem (kern t)) p = lookup (mem (kern s)) p"
    "as_pages (mem (kern t)) p = as_pages (mem (kern s)) p"
proof -
  note inv = as_invD [OF assms(1)] and vi = vm_invD [OF as_invD(1) [OF assms(1)]]
  have dj: "pt_pages (mem (kern s)) p \<inter> P = {}" using assms(4) by (auto simp: as_pages_def)
  note sp = sp_ok_same_out [OF inv(2) assms(2,3) dj]
  show "lookup (mem (kern t)) p = lookup (mem (kern s)) p" "as_pages (mem (kern t)) p = as_pages (mem (kern s)) p"
    using sp by simp_all
  have "set ys \<inter> pt_pages (mem (kern s)) p = {}" "set ys \<inter> uframes (mem (kern s)) p = {}"
    using assms(7) by (auto simp: as_pages_def)
  then show "as_inv t p ys"
    using assms(5,6) vi(3) mem_only_fields(1) [OF assms(8)] sp pt_same_out(2) [OF assms(2,3) dj vi(4)]
    by (simp add: as_inv_def vm_inv_def Int_commute)
qed

definition copied :: "memory \<Rightarrow> uint \<Rightarrow> uint \<Rightarrow> bool" where
  "copied m e e' \<longleftrightarrow> present e' \<and> PTE_FLAGS e' = PTE_FLAGS e \<and>
     (\<forall>y. unat (y - frame e') < 4096 \<longrightarrow> m y = m (frame e + (y - frame e')))"

lemma copied_keep:
  assumes "copied m e e'" "same_out P m m'" "\<forall>q \<in> P. aligned q" "frame e \<notin> P" "frame e' \<notin> P"
  shows "copied m' e e'"
  using assms(1) same_out_page [OF assms(2,3) aligned_frame assms(4)]
    same_out_page [OF assms(2,3) aligned_frame assms(5)] by (auto simp: copied_def)

lemma page_high: "page_ok e p \<Longrightarrow> unat p < 0x8E000000"
  using unat_lt [of p]
  by (auto simp: page_ok_def V2P_def mmu_defs word_less_nat_alt unat_sub_if' split: if_splits)

lemma memmove_page:
  assumes "page_ok e x" "page_ok e src"
  shows "memmove m x src PGSIZE y = (if unat (y - x) < 4096 then m (src + (y - x)) else m y)"
  using memmove_at [of src PGSIZE x m y] page_high [OF assms(1)] page_high [OF assms(2)] by (simp add: PGSIZE_def)

lemma copied_entry:
  assumes "aligned x" "present e"
    and c: "\<forall>y. unat (y - x) < 4096 \<longrightarrow> m y = m (frame e + (y - x))"
  shows "copied m e (V2P x OR PTE_FLAGS e OR PTE_P)"
proof -
  have lb: "low_bits (PTE_FLAGS e OR PTE_P)" by (intro low_bits_or low_bits_PTE_FLAGS low_bits_flags)
  have "bit (PTE_FLAGS e OR PTE_P) n = bit (PTE_FLAGS e) n" for n
    using assms(2) by (cases "n = 0")
      (simp_all add: present_bit bit_simps PTE_FLAGS_def PTE_P_def bit_1_iff)
  then have e: "PTE_FLAGS e OR PTE_P = PTE_FLAGS e" by (intro bit_word_eqI)
  have "present (V2P x OR PTE_FLAGS e OR PTE_P)" by (simp add: present_bit bit_simps) (simp add: PTE_P_def)
  then show ?thesis
    using frame_entry [OF assms(1) lb] PTE_FLAGS_entry [OF assms(1) lb] c unfolding copied_def e by simp
qed

section \<open>Copying\<close>

definition disjoint_spaces :: "memory \<Rightarrow> addr \<Rightarrow> addr \<Rightarrow> bool" where
  "disjoint_spaces m p d \<longleftrightarrow> as_pages m p \<inter> as_pages m d = {}"

text \<open>When the copy fails, the half-made child is freed and the parent is as before.\<close>

lemma copy_abandoned:
  assumes "as_inv s p xs" "as_inv t d ys" "mem_only s t"
    "same_out P (mem (kern s)) (mem (kern t))" "\<forall>q \<in> P. aligned q" "P \<inter> as_pages (mem (kern s)) p = {}"
    "set ys \<union> as_pages (mem (kern t)) d = A" "A \<inter> as_pages (mem (kern s)) p = {}" "P \<subseteq> A"
  shows "\<exists>u zs. freevm d t = Done () u \<and> as_inv u p zs \<and> mem_only s u \<and> set zs = A \<and>
    same_out A (mem (kern s)) (mem (kern u))"
proof -
  obtain u zs where u: "freevm d t = Done () u" "kready u" "kmem_inv (kern u) zs" "mem_only t u"
    "set zs = set ys \<union> as_pages (mem (kern t)) d" "same_out (as_pages (mem (kern t)) d) (mem (kern t)) (mem (kern u))"
    using freevm_ok [OF assms(2)] by (elim exE conjE) (rule that)
  have so: "same_out A (mem (kern s)) (mem (kern u))"
    using same_out_trans [OF assms(4) u(6)] assms(7,9) by (elim same_out_mono) auto
  have al: "\<forall>q \<in> A. aligned q"
    using assms(7) vm_invD(8) [OF as_invD(1) [OF assms(2)]] as_invD(5) [OF assms(2)] by (auto simp: page_ok_def)
  have mo: "mem_only s u" using mem_only_trans [OF assms(3) u(4)] .
  have "as_inv u p zs"
    using other_space(1) [OF assms(1) so al assms(8) u(2,3) _ mo] u(5) assms(7,8) by simp
  then show ?thesis using u(1,5) assms(7) mo so by blast
qed

lemma copyuvm_from_fails_empty:
  assumes "as_inv s p []" "as_inv s d []" "disjoint_spaces (mem (kern s)) p d"
    "present (lookup (mem (kern s)) p i)" "i < sz"
  shows "\<exists>t ys. copyuvm_from (Suc n) p d i sz s = Done 0 t \<and> as_inv t p ys \<and> mem_only s t \<and>
    set ys = as_pages (mem (kern s)) d \<and> same_out (as_pages (mem (kern s)) d) (mem (kern s)) (mem (kern t))"
proof -
  have pde: "present (pde_at (mem (kern s)) p (PDX i))" using assms(4) by (auto simp: lookup_def split: if_splits)
  have ka: "kalloc s = Done 0 (ktouch s)" using kalloc_empty vm_invD(1,2) [OF as_invD(1) [OF assms(1)]] by blast
  have "\<exists>u zs. freevm d (ktouch s) = Done () u \<and> as_inv u p zs \<and> mem_only s u \<and> set zs = as_pages (mem (kern s)) d \<and>
    same_out (as_pages (mem (kern s)) d) (mem (kern s)) (mem (kern u))"
    using assms(1-3) by (intro copy_abandoned [where P = "{}" and ys = "[]"]) (auto simp: disjoint_spaces_def)
  then obtain u zs where u: "freevm d (ktouch s) = Done () u" "as_inv u p zs" "mem_only s u"
    "set zs = as_pages (mem (kern s)) d" "same_out (as_pages (mem (kern s)) d) (mem (kern s)) (mem (kern u))"
    by (elim exE conjE) (rule that)
  have "copyuvm_from (Suc n) p d i sz s = Done 0 u"
    using assms(4,5) walk_present [OF pde] ka u(1) pte_addr_nonzero [OF vm_invD(4) [OF as_invD(1) [OF assms(1)]] pde] pde
    by (subst copyuvm_from.simps) (simp add: Let_def lookup_def present_def)
  then show ?thesis using u by blast
qed

lemma copyuvm_from_fails_table:
  assumes "as_inv s p (x # xs)" "as_inv s d (x # xs)" "disjoint_spaces (mem (kern s)) p d"
    "present (lookup (mem (kern s)) p i)" "i < sz"
    and k: "kalloc s = Done x t1" "x \<noteq> 0"
    and m: "mappages d i PGSIZE (V2P x) (PTE_FLAGS (lookup (mem (kern s)) p i))
        (upd_mem (\<lambda>m. memmove m x (frame (lookup (mem (kern s)) p i)) PGSIZE) t1) = Done (- 1) t"
    and t: "mem_only s t" "as_inv t d []" "same_out (pt_pages (mem (kern s)) d \<union> set (x # xs)) (mem (kern s)) (mem (kern t))"
      "pt_pages (mem (kern t)) d = pt_pages (mem (kern s)) d \<union> set xs"
      "uframes (mem (kern t)) d = uframes (mem (kern s)) d" and t1: "mem (kern t1) = mem (kern s)"
  shows "\<exists>t ys. copyuvm_from (Suc n) p d i sz s = Done 0 t \<and> as_inv t p ys \<and> mem_only s t \<and>
    set ys = set (x # xs) \<union> as_pages (mem (kern s)) d \<and>
    same_out (set (x # xs) \<union> as_pages (mem (kern s)) d) (mem (kern s)) (mem (kern t))"
proof -
  let ?m = "mem (kern s)"
  have x: "page_ok (end_sym (kern t)) x" "x \<notin> as_pages (mem (kern t)) d"
    using vm_invD(7,9) [OF as_invD(1) [OF assms(2)]] as_invD(4) [OF assms(2)] t(4,5) mem_only_fields(1) [OF t(1)]
    by (auto simp: as_pages_def)
  obtain u where u: "kfree x t = Done () u" "as_inv u d [x]" "mem_only t u" "same_out {x} (mem (kern t)) (mem (kern u))"
    "as_pages (mem (kern u)) d = as_pages (mem (kern t)) d"
    using as_inv_kfree [OF t(2) x] by auto
  let ?A = "set (x # xs) \<union> as_pages ?m d" and ?P = "pt_pages ?m d \<union> set (x # xs) \<union> {x}"
  have so: "same_out ?P ?m (mem (kern u))" using same_out_trans [OF t(3) u(4)] .
  have dj: "?A \<inter> as_pages ?m p = {}" using as_invD(4) [OF assms(1)] assms(3) by (auto simp: disjoint_spaces_def)
  have al: "\<forall>q \<in> ?A. aligned q"
    using vm_invD(8) [OF as_invD(1) [OF assms(2)]] as_invD(5) [OF assms(2)] by (auto simp: page_ok_def)
  have PA: "?P \<subseteq> ?A" by (auto simp: as_pages_def)
  have A: "set [x] \<union> as_pages (mem (kern u)) d = ?A" using u(5) t(4,5) by (auto simp: as_pages_def)
  have "\<exists>w zs. freevm d u = Done () w \<and> as_inv w p zs \<and> mem_only s w \<and> set zs = ?A \<and> same_out ?A ?m (mem (kern w))"
    using al PA dj by (intro copy_abandoned [OF assms(1) u(2) mem_only_trans [OF t(1) u(3)] so _ _ A dj PA]) blast+
  then obtain w zs where w: "freevm d u = Done () w" "as_inv w p zs" "mem_only s w" "set zs = ?A"
    "same_out ?A ?m (mem (kern w))" by (elim exE conjE) (rule that)
  have pde: "present (pde_at ?m p (PDX i))" using assms(4) by (auto simp: lookup_def split: if_splits)
  have "copyuvm_from (Suc n) p d i sz s = Done 0 w"
    using assms(4,5) walk_present [OF pde] k m u(1) w(1) pte_addr_nonzero [OF vm_invD(4) [OF as_invD(1) [OF assms(1)]] pde] pde
    by (subst copyuvm_from.simps) (simp add: Let_def lookup_def present_def PTE_ADDR_frame)
  then show ?thesis using w(2-5) by blast
qed

text \<open>\<open>copy_of i sz p d m m'\<close>: the pages from \<open>i\<close> to \<open>sz\<close> of \<open>p\<close> have a copy in \<open>d\<close>; the rest of \<open>d\<close> is as before.\<close>

definition copy_of :: "addr \<Rightarrow> uint \<Rightarrow> addr \<Rightarrow> addr \<Rightarrow> memory \<Rightarrow> memory \<Rightarrow> bool" where
  "copy_of i sz p d m m' \<longleftrightarrow>
     (\<forall>v. if in_range i sz v then copied m' (lookup m' p v) (lookup m' d v) else lookup m' d v = lookup m d v)"

lemma copy_of_step:
  assumes l: "lookup m1 d = (\<lambda>v. if vpn v = vpn i then e else lookup m d v)" "lookup m2 p = lookup m1 p"
    and c: "copied m2 (lookup m1 p i) e" "copy_of (i + PGSIZE) sz p d m1 m2"
    and a: "aligned i" "i < sz" "vpn (i + PGSIZE) = Suc (vpn i)"
  shows "copy_of i sz p d m m2"
proof -
  have "4096 * vpn i < unat sz" using a(1,2) by (simp add: aligned_vpn word_less_nat_alt)
  then have r: "in_range i sz v \<longleftrightarrow> vpn v = vpn i \<or> in_range (i + PGSIZE) sz v" for v
    unfolding in_range_def a(3) by (auto simp: Suc_le_eq le_less)
  have nr: "\<not> in_range (i + PGSIZE) sz v" if "vpn v = vpn i" for v
    using that unfolding in_range_def a(3) by simp
  show ?thesis
    unfolding copy_of_def
  proof
    fix v
    show "if in_range i sz v then copied m2 (lookup m2 p v) (lookup m2 d v) else lookup m2 d v = lookup m d v"
    proof (cases "vpn v = vpn i")
      case True
      then have "lookup m2 d v = e" "lookup m2 p v = lookup m1 p i"
        using c(2) nr [OF True] lookup_vpn [OF True, of m1 p] l by (auto simp: copy_of_def)
      then show ?thesis using r True c(1) by simp
    next
      case False
      then show ?thesis using c(2) [unfolded copy_of_def, rule_format, of v] r [of v] l(1) by simp
    qed
  qed
qed

lemma copyuvm_from_ok:
  assumes "as_inv s p xs" "as_inv s d xs" "disjoint_spaces (mem (kern s)) p d" "sz \<le> KERNBASE" "aligned i"
    "unat sz \<le> unat i + 4096 * n" "\<forall>v. in_range 0 sz v \<longrightarrow> present (lookup (mem (kern s)) p v)"
    "\<forall>v. in_range i sz v \<longrightarrow> \<not> present (lookup (mem (kern s)) d v)"
  shows "(\<exists>t ys. copyuvm_from n p d i sz s = Done d t \<and> as_inv t p ys \<and> as_inv t d ys \<and>
      disjoint_spaces (mem (kern t)) p d \<and> mem_only s t \<and> set ys \<subseteq> set xs \<and>
      same_out (pt_pages (mem (kern s)) d \<union> set xs) (mem (kern s)) (mem (kern t)) \<and>
      copy_of i sz p d (mem (kern s)) (mem (kern t))) \<or>
    (\<exists>t ys. copyuvm_from n p d i sz s = Done 0 t \<and> as_inv t p ys \<and> mem_only s t \<and>
      set ys = set xs \<union> as_pages (mem (kern s)) d \<and>
      same_out (set xs \<union> as_pages (mem (kern s)) d) (mem (kern s)) (mem (kern t)))"
  using assms
proof (induction n arbitrary: i s xs)
  case 0
  then have "\<not> i < sz" by (simp add: word_less_nat_alt)
  moreover have "copy_of i sz p d (mem (kern s)) (mem (kern s))"
    using "0.prems"(5,6) by (auto simp: copy_of_def in_range_def aligned_vpn)
  ultimately show ?case using "0.prems"(1-3)
    by (intro disjI1 exI [of _ s] exI [of _ xs]) (subst copyuvm_from.simps, simp)
next
  case (Suc n)
  let ?m = "mem (kern s)"
  show ?case
  proof (cases "i < sz")
    case False
    then have "copy_of i sz p d ?m ?m"
      using Suc.prems(5) by (auto simp: copy_of_def in_range_def aligned_vpn word_less_nat_alt)
    then show ?thesis using False Suc.prems(1-3)
      by (intro disjI1 exI [of _ s] exI [of _ xs]) (subst copyuvm_from.simps, simp)
  next
    case lt: True
    have ik: "i < KERNBASE" using lt Suc.prems(4) by (rule less_le_trans)
    note up = vpn_up [OF Suc.prems(5) ik]
    have ri: "in_range i sz i" "in_range 0 sz i"
      using lt Suc.prems(5) by (simp_all add: in_range_def aligned_vpn word_less_nat_alt vpn_def [of 0])
    let ?e = "lookup ?m p i"
    have pr: "present ?e" using Suc.prems(7) ri by blast
    show ?thesis
    proof (cases xs)
      case Nil
      show ?thesis
        using copyuvm_from_fails_empty [of s p d i sz n] Suc.prems(1-3) pr lt unfolding Nil by (intro disjI2) simp
    next
      case (Cons x xs')
      have inv: "as_inv s p (x # xs')" "as_inv s d (x # xs')" using Suc.prems(1,2) Cons by simp_all
      have src: "frame ?e \<in> uframes ?m p" using uframesI [OF ik pr] .
      have pg: "page_ok (end_sym (kern s)) x" "page_ok (end_sym (kern s)) (frame ?e)"
        using vm_invD(7) [OF as_invD(1) [OF inv(1)], of x] as_invD(5) [OF inv(1), of "frame ?e"] src
        by (simp_all add: as_pages_def)
      let ?f = "\<lambda>m. memmove m x (frame ?e) PGSIZE"
      have mv: "?f m y = (if unat (y - x) < 4096 then m (frame ?e + (y - x)) else m y)" for m y
        using memmove_page [OF pg] .
      have so1: "same_out {x} ?m (?f ?m)" by (simp add: same_out_def mv)
      have np: "\<not> present (lookup ?m d i)" using Suc.prems(8) ri by blast
      obtain t1 r t ys where t: "kalloc s = Done x t1" "x \<noteq> 0"
        "mappages d i PGSIZE (V2P x) (PTE_FLAGS ?e) (upd_mem ?f t1) = Done r t"
        "mem_only s t" "as_inv t d ys" "set ys \<subseteq> set xs'"
        "same_out (pt_pages ?m d \<union> set (x # xs')) ?m (mem (kern t))"
        "\<forall>y. unat (y - x) < 4096 \<longrightarrow> mem (kern t) y = ?f ?m y"
        "pt_pages ?m d \<subseteq> pt_pages (mem (kern t)) d" "pt_pages (mem (kern t)) d \<union> set ys = pt_pages ?m d \<union> set xs'"
        and c: "r = 0 \<and> lookup (mem (kern t)) d = (\<lambda>v. if vpn v = vpn i then V2P x OR PTE_FLAGS ?e OR PTE_P else lookup ?m d v) \<and>
            uframes (mem (kern t)) d = insert x (uframes ?m d) \<or>
          r = - 1 \<and> ys = [] \<and> lookup (mem (kern t)) d = lookup ?m d \<and> uframes (mem (kern t)) d = uframes ?m d"
        using alloc_map [where f = ?f and perm = "PTE_FLAGS ?e", OF inv(2) Suc.prems(5) ik np low_bits_PTE_FLAGS so1]
        by (elim exE conjE) (rule that)
      from c show ?thesis
      proof (elim disjE conjE)
        assume r: "r = - 1" "ys = []" and u: "uframes (mem (kern t)) d = uframes ?m d"
        have m1: "mem (kern t1) = ?m"
          using kalloc_page [OF vm_invD(1,2) [OF as_invD(1) [OF inv(1)]]] t(1) by auto
        have "pt_pages (mem (kern t)) d = pt_pages ?m d \<union> set xs'" using t(10) r(2) by simp
        from copyuvm_from_fails_table [OF inv Suc.prems(3) pr lt t(1,2) t(3) [unfolded r(1)] t(4)
            t(5) [unfolded r(2)] t(7) this u m1, of n]
        show ?thesis unfolding Cons by (rule disjI2)
      next
        assume r: "r = 0" and l: "lookup (mem (kern t)) d =
            (\<lambda>v. if vpn v = vpn i then V2P x OR PTE_FLAGS ?e OR PTE_P else lookup ?m d v)"
          and uf: "uframes (mem (kern t)) d = insert x (uframes ?m d)"
        let ?P = "pt_pages ?m d \<union> set (x # xs')" and ?Q = "pt_pages (mem (kern t)) d \<union> set ys"
        have al: "\<forall>q \<in> ?P. aligned q" "\<forall>q \<in> ?Q. aligned q"
          using vm_invD(6,8) [OF as_invD(1) [OF inv(2)]] vm_invD(6,8) [OF as_invD(1) [OF t(5)]] by auto
        have dj: "?P \<inter> as_pages ?m p = {}" "set ys \<inter> as_pages ?m p = {}"
          using as_invD(4) [OF inv(1)] Suc.prems(3) t(6) by (auto simp: disjoint_spaces_def as_pages_def)
        note ot = other_space [OF inv(1) t(7) al(1) dj(1) vm_invD(1,2) [OF as_invD(1) [OF t(5)]] dj(2) t(4)]
        have pages: "as_pages (mem (kern t)) d \<union> set ys = as_pages ?m d \<union> set xs"
          using t(10) uf Cons by (auto simp: as_pages_def)
        have ds: "disjoint_spaces (mem (kern t)) p d"
          using pages ot(3) Suc.prems(3) as_invD(4) [OF Suc.prems(1)] by (auto simp: disjoint_spaces_def)
        have fuel: "unat sz \<le> unat (i + PGSIZE) + 4096 * n" using Suc.prems(5,6) up by (simp add: aligned_vpn)
        have nx: "\<forall>v. in_range (i + PGSIZE) sz v \<longrightarrow> \<not> present (lookup (mem (kern t)) d v)"
          using Suc.prems(8) unfolding l in_range_def up(1) by auto
        have px: "\<forall>v. in_range 0 sz v \<longrightarrow> present (lookup (mem (kern t)) p v)" using Suc.prems(7) ot(2) by simp
        have run: "copyuvm_from (Suc n) p d i sz s = copyuvm_from n p d (i + PGSIZE) sz t"
        proof -
          have pde: "present (pde_at ?m p (PDX i))" using pr by (auto simp: lookup_def split: if_splits)
          then show ?thesis
            using pr lt walk_present [OF pde] t(1-3) r pte_addr_nonzero [OF vm_invD(4) [OF as_invD(1) [OF inv(1)]] pde]
            by (subst copyuvm_from.simps) (simp add: Let_def lookup_def present_def PTE_ADDR_frame)
        qed
        have fe: "frame ?e \<notin> ?P" "frame ?e \<notin> ?Q"
          using src dj(1) ot(1,3) ds as_invD(4) [OF ot(1)] by (auto simp: as_pages_def disjoint_spaces_def)
        have xQ: "x \<notin> ?Q" "aligned x"
          using uf as_invD(3,6) [OF t(5)] pg(1) by (auto simp: page_ok_def)
        have "\<forall>y. unat (y - x) < 4096 \<longrightarrow> mem (kern t) y = mem (kern t) (frame ?e + (y - x))"
          using t(8) mv same_out_page [OF t(7) al(1) aligned_frame fe(1)] by simp
        then have cp: "copied (mem (kern t)) ?e (V2P x OR PTE_FLAGS ?e OR PTE_P)"
          using copied_entry [OF xQ(2) pr] by blast
        have fx: "frame (V2P x OR PTE_FLAGS ?e OR PTE_P) = x"
          using frame_entry [OF xQ(2)] low_bits_or [OF low_bits_PTE_FLAGS low_bits_flags(2)] by blast
        from Suc.IH [OF ot(1) t(5) ds Suc.prems(4) up(2) fuel px nx] show ?thesis
        proof (elim disjE exE conjE, goal_cases)
          case (1 u zs)
          have so: "same_out (pt_pages ?m d \<union> set xs) ?m (mem (kern u))"
            using same_out_trans [OF t(7) 1(7)] t(6,10) Cons by (elim same_out_mono) auto
          have lp: "lookup (mem (kern u)) p = lookup (mem (kern t)) p"
            using sp_ok_same_out(2) [OF as_invD(2) [OF ot(1)] 1(7) al(2)] ds as_invD(4) [OF ot(1)]
            by (auto simp: as_pages_def disjoint_spaces_def)
          have "copied (mem (kern u)) (lookup (mem (kern t)) p i) (V2P x OR PTE_FLAGS ?e OR PTE_P)"
            unfolding ot(2) using copied_keep [OF cp 1(7) al(2) fe(2)] fx xQ(1) by simp
          then have "copy_of i sz p d ?m (mem (kern u))"
            using copy_of_step [OF l lp _ 1(8) Suc.prems(5) lt up(1)] by blast
          then show ?case
            using 1 run so mem_only_trans [OF t(4)] t(6) Cons by (intro disjI1 exI [of _ u] exI [of _ zs]) auto
        next
          case (2 u zs)
          have A: "set ys \<union> as_pages (mem (kern t)) d = set xs \<union> as_pages ?m d" using pages by auto
          have "same_out (set xs \<union> as_pages ?m d) ?m (mem (kern u))"
            using same_out_trans [OF t(7) 2(5)] A Cons by (elim same_out_mono) (auto simp: as_pages_def)
          then show ?case
            using 2 run A mem_only_trans [OF t(4)] by (intro disjI2 exI [of _ u] exI [of _ zs]) auto
        qed
      qed
    qed
  qed
qed

lemma in_range_user: "in_range 0 sz v \<Longrightarrow> sz \<le> KERNBASE \<Longrightarrow> v < KERNBASE"
  by (rule in_range_lt)

lemma copyuvm_ok:
  fixes s :: "'a vmk_scheme machine"
  assumes "as_inv s p xs" "data_ok (data_sym (kern s))" "sz \<le> KERNBASE"
    "\<forall>v. in_range 0 sz v \<longrightarrow> present (lookup (mem (kern s)) p v)"
  shows "\<exists>d t ys. copyuvm p sz s = Done d t \<and> mem_only s t \<and> as_inv t p ys \<and>
    same_out (set xs) (mem (kern s)) (mem (kern t)) \<and> lookup (mem (kern t)) p = lookup (mem (kern s)) p \<and>
    (d = 0 \<and> set ys = set xs \<or>
     d \<noteq> 0 \<and> as_inv t d ys \<and> disjoint_spaces (mem (kern t)) p d \<and>
     (\<forall>v. if in_range 0 sz v then copied (mem (kern t)) (lookup (mem (kern t)) p v) (lookup (mem (kern t)) d v)
          else lookup (mem (kern t)) d v = kernel_entry (data_sym (kern s)) v))"
proof -
  let ?m = "mem (kern s)"
  note vi = vm_invD [OF as_invD(1) [OF assms(1)]]
  have al: "\<forall>q \<in> set xs. aligned q" using vi(8) by blast
  have dj: "set xs \<inter> as_pages ?m p = {}" using as_invD(4) [OF assms(1)] by auto
  from setupkvm_ok [OF vi(1-3) assms(2)] show ?thesis
  proof (elim disjE exE conjE, goal_cases)
    case (2 t ys)
    note o = other_space [OF assms(1) 2(7) al dj 2(2,3) _ 2(4)]
    then show ?case using 2 dj by (intro exI [of _ 0] exI [of _ t] exI [of _ ys]) (simp add: copyuvm_def)
  next
    case (1 d t ys)
    have ky: "kready t" "kmem_inv (kern t) ys" using vm_invD(1,2) [OF as_invD(1) [OF 1(4)]] by auto
    have "set ys \<inter> as_pages ?m p = {}" using dj 1(7) by auto
    note o = other_space [OF assms(1) 1(8) al dj ky this 1(6)]
    have pd: "as_pages (mem (kern t)) d = pt_pages (mem (kern t)) d" using 1(5) by (simp add: as_pages_def)
    then have ds: "disjoint_spaces (mem (kern t)) p d" using o(3) dj 1(7) by (auto simp: disjoint_spaces_def)
    have px: "\<forall>v. in_range 0 sz v \<longrightarrow> present (lookup (mem (kern t)) p v)" using assms(4) o(2) by simp
    have nd: "\<forall>v. in_range 0 sz v \<longrightarrow> \<not> present (lookup (mem (kern t)) d v)"
      using in_range_user [OF _ assms(3)] 1(9) by (simp add: kernel_entry_def)
    note l = \<open>lookup (mem (kern t)) d = kernel_entry _\<close>
    have run: "copyuvm p sz s = copyuvm_from (rounds sz) p d 0 sz t" using 1(1,2) by (simp add: copyuvm_def)
    have A: "set ys \<union> as_pages (mem (kern t)) d = set xs" using pd 1(7) by auto
    have al0: "aligned 0" by (simp add: aligned_def)
    from copyuvm_from_ok [OF o(1) 1(4) ds assms(3) al0 rounds_enough px nd] show ?case
    proof (elim disjE exE conjE, goal_cases)
      case (1 u zs)
      have so: "same_out (set xs) ?m (mem (kern u))"
        using same_out_trans [OF \<open>same_out (set xs) ?m (mem (kern t))\<close> 1(7)] A pd by (elim same_out_mono) auto
      have lp: "lookup (mem (kern u)) p = lookup ?m p"
        using sp_ok_same_out(2) [OF as_invD(2) [OF assms(1)] so al] dj by (auto simp: as_pages_def)
      have "copyuvm p sz s = Done d u" using run 1(1) by simp
      then show ?case
        using 1(2-5) 1(8) [unfolded copy_of_def l] so lp \<open>d \<noteq> 0\<close> mem_only_trans [OF \<open>mem_only s t\<close> 1(5)]
        by (intro exI conjI disjI2)
    next
      case (2 u zs)
      have so: "same_out (set xs) ?m (mem (kern u))"
        using same_out_trans [OF \<open>same_out (set xs) ?m (mem (kern t))\<close> 2(5)] unfolding A by simp
      have "lookup (mem (kern u)) p = lookup ?m p"
        using sp_ok_same_out(2) [OF as_invD(2) [OF assms(1)] so al] dj by (auto simp: as_pages_def)
      then show ?case
        using 2 so run A mem_only_trans [OF \<open>mem_only s t\<close>]
        by (intro exI [of _ 0] exI [of _ u] exI [of _ zs]) simp
    qed
  qed
qed

section \<open>A concrete address space\<close>

text \<open>One user page, at virtual address 0, and one page on the free list.\<close>

definition one_page_mem :: memory where
  "one_page_mem = write32 (write32 (memset (\<lambda>_. 0) 0x80403000 0 PGSIZE) (0x80402000 + 4 * PDX 0)
      (V2P 0x80403000 OR PTE_P OR PTE_W OR PTE_U)) (0x80403000 + 4 * PTX 0) (V2P 0x80404000 OR (PTE_W OR PTE_U) OR PTE_P)"

definition one_page_machine :: "vmk machine" where
  "one_page_machine = one_cpu \<lparr>use_lock = True, freelist = 0x80405000, mem = one_page_mem, end_sym = 0x80400000,
     data_sym = 0x80200000, ts_addr = (\<lambda>_. 0), kpgdir = 0, cr3 = (\<lambda>_. 0), gdt = (\<lambda>_ _. SEG 0 0 0 0),
     gdtr = (\<lambda>_. None), ts = (\<lambda>_. \<lparr>esp0 = 0, ss0 = 0, iomb = 0\<rparr>), tr = (\<lambda>_. 0)\<rparr>"

lemma one_page_lookup:
  "pt_ok 0x80400000 one_page_mem 0x80402000" "pt_pages one_page_mem 0x80402000 = {0x80402000, 0x80403000}"
  "lookup one_page_mem 0x80402000 = (\<lambda>v. if vpn v = 0 then V2P 0x80404000 OR (PTE_W OR PTE_U) OR PTE_P else 0)"
  "same_out {0x80402000, 0x80403000} (\<lambda>_. 0) one_page_mem"
proof -
  let ?d = "0x80402000 :: addr" and ?t = "0x80403000 :: addr" and ?e = "0x80400000 :: addr"
  let ?p = "PTE_P OR PTE_W OR PTE_U" and ?z = "\<lambda>_ :: addr. 0 :: uchar"
  have z: "pde_at ?z ?d i = 0" for i by (simp add: pde_at_def read32_def)
  have pg: "page_ok ?e ?d" "page_ok ?e ?t" by (simp_all add: page_ok_def aligned_def V2P_def mmu_defs)
  have t0: "tables ?z ?d = {}" by (auto simp: tables_def z)
  have ok: "pt_ok ?e ?z ?d" using pg(1) by (auto simp: pt_ok_def pt_pages_def t0 z)
  have lb: "low_bits ?p" by (intro low_bits_or low_bits_flags)
  have pr: "present (V2P ?t OR ?p)" by (simp add: present_bit bit_simps) (simp add: PTE_P_def)
  define m1 where "m1 = write32 (memset ?z ?t 0 PGSIZE) (?d + 4 * PDX 0) (V2P ?t OR ?p)"
  have np: "\<not> present (pde_at ?z ?d (PDX 0))" "?t \<notin> pt_pages ?z ?d" by (simp_all add: z pt_pages_def t0)
  note n = new_table [OF ok np(1) pg(2) np(2) pr lb m1_def]
  have pa: "pte_addr m1 ?d 0 = ?t + 4 * PTX 0" by (simp add: pte_addr_def n(5))
  have m: "one_page_mem = write32 m1 (pte_addr m1 ?d 0) (V2P 0x80404000 OR (PTE_W OR PTE_U) OR PTE_P)"
    unfolding pa by (simp add: one_page_mem_def m1_def)
  note w = set_pte [OF n(2,4), of "V2P 0x80404000 OR (PTE_W OR PTE_U) OR PTE_P", folded m]
  show "pt_ok ?e one_page_mem ?d" by (rule w(2))
  show "pt_pages one_page_mem ?d = {?d, ?t}" using w(1) n(1) by (auto simp: pt_pages_def t0)
  have "lookup ?z ?d v = 0" for v by (simp add: lookup_def z)
  then show "lookup one_page_mem ?d = (\<lambda>v. if vpn v = 0 then V2P 0x80404000 OR (PTE_W OR PTE_U) OR PTE_P else 0)"
    using w(3) n(3) by (auto simp: vpn_def [of 0])
  have "pt_pages m1 ?d = {?d, ?t}" using n(1) by (auto simp: pt_pages_def t0)
  then show "same_out {?d, ?t} ?z one_page_mem"
    using same_out_trans [OF n(6) w(4)] by (elim same_out_mono) auto
qed

lemma one_page_machine_ok:
  "as_inv one_page_machine 0x80402000 [0x80405000]" "data_ok (data_sym (kern one_page_machine))"
  "present (lookup (mem (kern one_page_machine)) 0x80402000 0)"
proof -
  note l = one_page_lookup
  have m: "mem (kern one_page_machine) = one_page_mem" "end_sym (kern one_page_machine) = 0x80400000"
    by (simp_all add: one_page_machine_def)
  have pr: "present (V2P 0x80404000 OR (PTE_W OR PTE_U) OR PTE_P)"
    by (simp add: present_bit bit_simps) (simp add: PTE_P_def)
  have fr: "frame (V2P 0x80404000 OR (PTE_W OR PTE_U) OR PTE_P) = 0x80404000"
    by (intro frame_entry low_bits_or low_bits_flags) (simp add: aligned_def)
  have uf: "uframes one_page_mem 0x80402000 = {0x80404000}"
  proof -
    have "vpn 0 = 0" "0 < KERNBASE" by (simp_all add: vpn_def KERNBASE_def)
    then show ?thesis unfolding uframes_def l(3) using pr fr by (auto split: if_splits intro!: exI [of _ 0])
  qed
  have "kmem_inv ((kern one_page_machine)\<lparr>mem := (\<lambda>_. 0)\<rparr>) [0x80405000]"
    by (simp add: kmem_inv_def one_page_machine_def page_ok_def aligned_def V2P_def mmu_defs read32_def)
  then have "kmem_inv (kern one_page_machine) [0x80405000]"
    by (rule kmem_inv_same_out [where P = "{0x80402000, 0x80403000}"])
      (use l(4) in \<open>simp_all add: m aligned_def\<close>)
  then have "vm_inv one_page_machine 0x80402000 [0x80405000]"
    using l(1,2) by (simp add: vm_inv_def m kready_def KERNBASE_def) (simp add: one_page_machine_def)
  then show "as_inv one_page_machine 0x80402000 [0x80405000]"
  proof (rule as_inv_frames, goal_cases)
    case 1
    then show ?case by (simp add: m uf l(2) page_ok_def aligned_def V2P_def mmu_defs)
  next
    case (2 v w)
    then show ?case by (auto simp: m l(3) split: if_splits)
  qed
  show "data_ok (data_sym (kern one_page_machine))"
    by (simp add: one_page_machine_def data_ok_def aligned_def KERNLINK_def P2V_def mmu_defs)
  show "present (lookup (mem (kern one_page_machine)) 0x80402000 0)" using pr by (simp add: m l(3) vpn_def)
qed

section \<open>Properties\<close>

text \<open>C5. \<^verbatim>\<open>copyuvm\<close> gives a child process its own copy of the parent's memory. It either returns 0
  and every page it took is free again, or returns a page directory whose first \<open>sz\<close> bytes are
  mapped with the parent's permissions to frames of its own (no page is shared between the
  two address spaces) with the same bytes, and whose other entries are the kernel's mappings.
  In both cases the parent's mappings and the bytes of its pages are unchanged.\<close>

theorem copyuvm_isolates:
  fixes s :: "'a vmk_scheme machine"
  assumes "as_inv s p xs" "data_ok (data_sym (kern s))" "sz \<le> KERNBASE"
    "\<forall>v. in_range 0 sz v \<longrightarrow> present (lookup (mem (kern s)) p v)"
  shows "\<exists>d t ys. copyuvm p sz s = Done d t \<and> as_inv t p ys \<and>
    lookup (mem (kern t)) p = lookup (mem (kern s)) p \<and>
    (\<forall>q \<in> as_pages (mem (kern s)) p. \<forall>y. unat (y - q) < 4096 \<longrightarrow> mem (kern t) y = mem (kern s) y) \<and>
    (d = 0 \<and> set ys = set xs \<or>
     d \<noteq> 0 \<and> as_inv t d ys \<and> disjoint_spaces (mem (kern t)) p d \<and>
     (\<forall>v. if in_range 0 sz v then copied (mem (kern t)) (lookup (mem (kern t)) p v) (lookup (mem (kern t)) d v)
          else lookup (mem (kern t)) d v = kernel_entry (data_sym (kern s)) v))"
proof -
  obtain d t ys where c: "copyuvm p sz s = Done d t" "mem_only s t" "as_inv t p ys"
    "same_out (set xs) (mem (kern s)) (mem (kern t))" "lookup (mem (kern t)) p = lookup (mem (kern s)) p"
    "d = 0 \<and> set ys = set xs \<or>
     d \<noteq> 0 \<and> as_inv t d ys \<and> disjoint_spaces (mem (kern t)) p d \<and>
     (\<forall>v. if in_range 0 sz v then copied (mem (kern t)) (lookup (mem (kern t)) p v) (lookup (mem (kern t)) d v)
          else lookup (mem (kern t)) d v = kernel_entry (data_sym (kern s)) v)"
    using copyuvm_ok [OF assms] by (elim exE conjE) (rule that)
  have "mem (kern t) y = mem (kern s) y" if "q \<in> as_pages (mem (kern s)) p" "unat (y - q) < 4096" for q y
    using that as_invD(4,5) [OF assms(1)] vm_invD(8) [OF as_invD(1) [OF assms(1)]]
    by (intro same_out_page [OF c(4), of q]) (auto simp: page_ok_def)
  with c show ?thesis by blast
qed

lemma in_range_first_page: "in_range 0 4096 v \<Longrightarrow> vpn v = vpn 0"
  by (simp add: in_range_def vpn_def [of 0])

theorem copyuvm_isolates_witness:
  "\<exists>d t ys. copyuvm 0x80402000 4096 one_page_machine = Done d t \<and> as_inv t 0x80402000 ys"
proof -
  have p: "\<forall>v. in_range 0 4096 v \<longrightarrow> present (lookup (mem (kern one_page_machine)) 0x80402000 v)"
    using one_page_machine_ok(3) lookup_vpn [OF in_range_first_page] by metis
  have k: "4096 \<le> KERNBASE" by (simp add: KERNBASE_def)
  from copyuvm_isolates [OF one_page_machine_ok(1,2) k p] show ?thesis
    by (elim exE conjE) (intro exI conjI)
qed

text \<open>C24. \<^verbatim>\<open>setupkvm\<close> returns a page directory with exactly the mappings the comment in \<^verbatim>\<open>vm.c\<close> lists:
  nothing below \<^verbatim>\<open>KERNBASE\<close>, the I/O space and the data mapped writable at their physical
  addresses, the kernel text and read-only data mapped without write permission, the devices
  mapped directly, none of them accessible to user code. It returns 0 only when at most 1025
  pages were free, and then all of them are free again.\<close>

theorem setupkvm_maps_kernel:
  fixes s :: "'a vmk_scheme machine"
  assumes "kready s" "kmem_inv (kern s) xs" "KERNBASE < end_sym (kern s)" "data_ok (data_sym (kern s))"
  shows "\<exists>d t ys. setupkvm s = Done d t \<and>
    (d \<noteq> 0 \<and> as_inv t d ys \<and> lookup (mem (kern t)) d = kernel_entry (data_sym (kern s)) \<and>
       pt_pages (mem (kern t)) d \<union> set ys = set xs \<or>
     d = 0 \<and> length xs \<le> 1025 \<and> kmem_inv (kern t) ys \<and> set ys = set xs)"
  using setupkvm_ok [OF assms] by blast

theorem setupkvm_maps_kernel_witness:
  "\<exists>d t. setupkvm one_page_machine = Done d t"
  using setupkvm_maps_kernel [of one_page_machine "[0x80405000]"]
    vm_invD(1-3) [OF as_invD(1) [OF one_page_machine_ok(1)]] one_page_machine_ok(2) by blast



text \<open>C26. \<^verbatim>\<open>freevm\<close> gives back every page of an address space: afterwards the free list holds what
  it held before, the page directory, every page table and every user frame, and nothing else.\<close>

theorem freevm_returns_pages:
  assumes "as_inv s d xs"
  shows "\<exists>t ys. freevm d s = Done () t \<and> kmem_inv (kern t) ys \<and> set ys = set xs \<union> as_pages (mem (kern s)) d"
  using freevm_ok [OF assms] by blast

theorem freevm_returns_pages_witness:
  "\<exists>t ys. freevm 0x80402000 one_page_machine = Done () t \<and> kmem_inv (kern t) ys \<and> 0x80403000 \<in> set ys"
proof -
  have "0x80403000 \<in> as_pages (mem (kern one_page_machine)) 0x80402000"
    by (simp add: as_pages_def one_page_machine_def one_page_lookup)
  then show ?thesis using freevm_returns_pages [OF one_page_machine_ok(1)] by blast
qed

text \<open>C25. \<^verbatim>\<open>deallocuvm\<close> from \<open>oldsz\<close> to \<open>newsz\<close> unmaps exactly the pages between them, puts their frames
  on the free list and leaves every other entry alone.\<close>

theorem deallocuvm_unmaps:
  assumes "as_inv s d xs" "oldsz \<le> KERNBASE" "newsz \<le> oldsz"
  shows "\<exists>t zs. deallocuvm d oldsz newsz s = Done newsz t \<and> as_inv t d (zs @ xs) \<and>
    uframes (mem (kern s)) d = uframes (mem (kern t)) d \<union> set zs \<and>
    emptied d (PGROUNDUP newsz) oldsz (mem (kern s)) (mem (kern t))"
  using deallocuvm_ok [OF assms] emptied_cleared unfolding shrunk_def by blast

theorem deallocuvm_unmaps_witness:
  "\<exists>t zs. deallocuvm 0x80402000 4096 0 one_page_machine = Done 0 t \<and> as_inv t 0x80402000 (zs @ [0x80405000])"
  using deallocuvm_unmaps [OF one_page_machine_ok(1), of 4096 0] by (auto simp: KERNBASE_def)

end
