(* ===== verification/Proc.thy ===== *)
theory Proc
  imports Vm
begin

unbundle bit_operations_syntax

text \<open>
  Processes and scheduling (\<^verbatim>\<open>proc.c\<close>, \<^verbatim>\<open>proc.h\<close>). A process is named by its index in
  \<^verbatim>\<open>ptable.proc\<close>. \<^verbatim>\<open>swtch\<close> moves control between a process and its processor's scheduler,
  so every routine that calls \<^verbatim>\<open>sched\<close> is cut there: the part before ends with the outcome
  \<open>Switch\<close>, the part after is the routine with suffix \<open>_resume\<close>, which the process runs when a
  scheduler has chosen it again. \<^verbatim>\<open>scheduler\<close> is cut at its \<^verbatim>\<open>swtch\<close> in the same way:
  \<open>scheduler_loop\<close> runs up to a dispatch and \<open>scheduler_back\<close> from there on.

  A sleep channel is the address of a kernel object, here a constructor of \<open>chan\<close> for each
  kind of object the kernel sleeps on. Kernel stacks, trap frames and contexts are in byte
  memory at the offsets of their structures. The name of a process is the string in its
  16-byte array. Following a null process pointer ends in the fault that \<^verbatim>\<open>trap\<close> turns into a
  panic. \<^verbatim>\<open>fork\<close>, \<^verbatim>\<open>exit\<close>, \<^verbatim>\<open>userinit\<close> and \<^verbatim>\<open>forkret\<close>, which use the file system, are in
  \<open>Proc_Life\<close>; \<^verbatim>\<open>procdump\<close> only prints and is left out.
\<close>

section \<open>State\<close>

datatype procstate = UNUSED | EMBRYO | SLEEPING | RUNNABLE | RUNNING | ZOMBIE

datatype chan = Proc_ch "nat option" | Ticks_ch | Log_ch | Buf_ch nat | Buflk_ch nat | Inode_ch nat
  | Pipe_nread addr | Pipe_nwrite addr | Input_ch

record proc =
  p_sz :: uint
  p_pgdir :: addr
  p_kstack :: addr
  p_state :: procstate
  p_pid :: int
  p_parent :: "nat option"
  p_tf :: addr
  p_context :: addr
  p_chan :: "chan option"
  p_killed :: bool
  p_ofile :: "nat option list"
  p_cwd :: "nat option"
  p_name :: "uchar list"

record procs = vmk +
  ptable :: "proc list"
  nextpid :: int
  initproc :: "nat option"
  forkret_sym :: addr
  trapret_sym :: addr

definition proc_at :: "nat \<Rightarrow> 'a procs_scheme machine \<Rightarrow> proc" where
  "proc_at i s = ptable (kern s) ! i"

definition upd_proc :: "nat \<Rightarrow> (proc \<Rightarrow> proc) \<Rightarrow> 'a procs_scheme machine \<Rightarrow> 'a procs_scheme machine" where
  "upd_proc i f = upd_kern (\<lambda>k. k\<lparr>ptable := (ptable k)[i := f (ptable k ! i)]\<rparr>)"

text \<open>The layout of \<^verbatim>\<open>struct trapframe\<close> and \<^verbatim>\<open>struct context\<close>.\<close>

definition sizeof_trapframe :: uint where "sizeof_trapframe = 76"
definition tf_ebx :: uint where "tf_ebx = 16"
definition tf_edx :: uint where "tf_edx = 20"
definition tf_ecx :: uint where "tf_ecx = 24"
definition tf_eax :: uint where "tf_eax = 28"
definition tf_es :: uint where "tf_es = 40"
definition tf_ds :: uint where "tf_ds = 44"
definition tf_trapno :: uint where "tf_trapno = 48"
definition tf_err :: uint where "tf_err = 52"
definition tf_eip :: uint where "tf_eip = 56"
definition tf_cs :: uint where "tf_cs = 60"
definition tf_eflags :: uint where "tf_eflags = 64"
definition tf_esp :: uint where "tf_esp = 68"
definition tf_ss :: uint where "tf_ss = 72"

definition sizeof_context :: uint where "sizeof_context = 20"
definition ctx_eip :: uint where "ctx_eip = 16"

lemmas layout_defs = sizeof_trapframe_def tf_ebx_def tf_edx_def tf_ecx_def tf_eax_def tf_es_def tf_ds_def
  tf_trapno_def tf_err_def tf_eip_def tf_cs_def tf_eflags_def tf_esp_def tf_ss_def sizeof_context_def ctx_eip_def

section \<open>Operations\<close>

definition pinit :: "'a procs_scheme machine \<Rightarrow> 'a procs_scheme machine" where
  "pinit = initlock Ptable_lk ''ptable''"

fun count_used :: "proc list \<Rightarrow> int" where
  "count_used [] = 0"
| "count_used (p # ps) = (if p_state p \<noteq> UNUSED then 1 else 0) + count_used ps"

definition process_count :: "'a procs_scheme machine \<Rightarrow> ('a procs_scheme machine, int) outcome" where
  "process_count s =
     bindK (acquire Ptable_lk s) (\<lambda>_ s.
       let count = count_used (ptable (kern s)) in
       bindK (release Ptable_lk s) (\<lambda>_ s. Done count s))"

definition cpuid :: "'a procs_scheme machine \<Rightarrow> ('a procs_scheme machine, nat) outcome" where
  "cpuid s = mycpu s"

definition allocproc :: "'a procs_scheme machine \<Rightarrow> ('a procs_scheme machine, nat option) outcome" where
  "allocproc s =
     bindK (acquire Ptable_lk s) (\<lambda>_ s.
       case scan (\<lambda>p. p_state p = UNUSED) (ptable (kern s)) of
         None \<Rightarrow> bindK (release Ptable_lk s) (\<lambda>_ s. Done None s)
       | Some i \<Rightarrow>
         let s = upd_proc i (\<lambda>p. p\<lparr>p_state := EMBRYO\<rparr>) s;
             s = upd_proc i (\<lambda>p. p\<lparr>p_pid := nextpid (kern s)\<rparr>) s;
             s = upd_kern (\<lambda>k. k\<lparr>nextpid := nextpid k + 1\<rparr>) s
         in bindK (release Ptable_lk s) (\<lambda>_ s.
         bindK (kalloc s) (\<lambda>ks s.
         let s = upd_proc i (\<lambda>p. p\<lparr>p_kstack := ks\<rparr>) s in
         if ks = 0 then Done None (upd_proc i (\<lambda>p. p\<lparr>p_state := UNUSED\<rparr>) s)
         else
           let sp = ks + of_nat KSTACKSIZE;
               sp = sp - sizeof_trapframe;
               s = upd_proc i (\<lambda>p. p\<lparr>p_tf := sp\<rparr>) s;
               sp = sp - 4;
               s = upd_mem (\<lambda>m. write32 m sp (trapret_sym (kern s))) s;
               sp = sp - sizeof_context;
               s = upd_proc i (\<lambda>p. p\<lparr>p_context := sp\<rparr>) s;
               s = upd_mem (\<lambda>m. memset m sp 0 sizeof_context) s;
               s = upd_mem (\<lambda>m. write32 m (sp + ctx_eip) (forkret_sym (kern s))) s
           in Done (Some i) s)))"

text \<open>\<^verbatim>\<open>growproc\<close>: the argument is a C int; \<^verbatim>\<open>sz + n\<close> is computed on unsigned words.\<close>

definition growproc :: "int \<Rightarrow> 'a procs_scheme machine \<Rightarrow> ('a procs_scheme machine, int) outcome" where
  "growproc n s =
     bindK (myproc s) (\<lambda>cur s.
       case cur of None \<Rightarrow> Panic ''trap''
       | Some i \<Rightarrow>
         let sz = p_sz (proc_at i s);
             finish = (\<lambda>sz s. let s = upd_proc i (\<lambda>p. p\<lparr>p_sz := sz\<rparr>) s in
               bindK (switchuvm (Some (p_kstack (proc_at i s), p_pgdir (proc_at i s))) s) (\<lambda>_ s. Done 0 s))
         in if n > 0 then
              bindK (allocuvm (p_pgdir (proc_at i s)) sz (sz + of_int n) s) (\<lambda>sz s.
                if sz = 0 then Done (- 1) s else finish sz s)
            else if n < 0 then
              bindK (deallocuvm (p_pgdir (proc_at i s)) sz (sz + of_int n) s) (\<lambda>sz s.
                if sz = 0 then Done (- 1) s else finish sz s)
            else finish sz s)"

definition wakeup1 :: "chan \<Rightarrow> 'a procs_scheme machine \<Rightarrow> 'a procs_scheme machine" where
  "wakeup1 ch = upd_kern (\<lambda>k. k\<lparr>ptable := map (\<lambda>p.
     if p_state p = SLEEPING \<and> p_chan p = Some ch then p\<lparr>p_state := RUNNABLE\<rparr> else p) (ptable k)\<rparr>)"

definition wakeup :: "chan \<Rightarrow> 'a procs_scheme machine \<Rightarrow> ('a procs_scheme machine, unit) outcome" where
  "wakeup ch s = bindK (acquire Ptable_lk s) (\<lambda>_ s. release Ptable_lk (wakeup1 ch s))"

definition kill :: "int \<Rightarrow> 'a procs_scheme machine \<Rightarrow> ('a procs_scheme machine, int) outcome" where
  "kill pid s =
     bindK (acquire Ptable_lk s) (\<lambda>_ s.
       case scan (\<lambda>p. p_pid p = pid) (ptable (kern s)) of
         Some i \<Rightarrow>
           let s = upd_proc i (\<lambda>p. p\<lparr>p_killed := True\<rparr>) s;
               s = (if p_state (proc_at i s) = SLEEPING then upd_proc i (\<lambda>p. p\<lparr>p_state := RUNNABLE\<rparr>) s else s)
           in bindK (release Ptable_lk s) (\<lambda>_ s. Done 0 s)
       | None \<Rightarrow> bindK (release Ptable_lk s) (\<lambda>_ s. Done (- 1) s))"

section \<open>Giving up the processor\<close>

definition sched :: "'a procs_scheme machine \<Rightarrow> ('a procs_scheme machine, unit) outcome" where
  "sched s =
     bindK (myproc s) (\<lambda>p s.
     bindK (holding Ptable_lk s) (\<lambda>h s.
       if \<not> h then Panic ''sched ptable.lock''
       else bindK (mycpu s) (\<lambda>c s.
         if ncli (cpus s ! c) \<noteq> 1 then Panic ''sched locks''
         else case p of None \<Rightarrow> Panic ''trap''
         | Some i \<Rightarrow>
           if p_state (proc_at i s) = RUNNING then Panic ''sched running''
           else if IF s then Panic ''sched interruptible''
           else Switch s)))"

text \<open>\<open>en\<close> is the local \<^verbatim>\<open>intena\<close> that \<^verbatim>\<open>sched\<close> saved before the switch.\<close>

definition sched_resume :: "bool \<Rightarrow> 'a procs_scheme machine \<Rightarrow> ('a procs_scheme machine, unit) outcome" where
  "sched_resume en s =
     bindK (mycpu s) (\<lambda>c s. Done () (s\<lparr>cpus := (cpus s)[c := (cpus s ! c)\<lparr>intena := en\<rparr>]\<rparr>))"

definition yield :: "'a procs_scheme machine \<Rightarrow> ('a procs_scheme machine, unit) outcome" where
  "yield s =
     bindK (acquire Ptable_lk s) (\<lambda>_ s.
     bindK (myproc s) (\<lambda>p s.
       case p of None \<Rightarrow> Panic ''trap''
       | Some i \<Rightarrow> sched (upd_proc i (\<lambda>p. p\<lparr>p_state := RUNNABLE\<rparr>) s)))"

definition yield_resume :: "bool \<Rightarrow> 'a procs_scheme machine \<Rightarrow> ('a procs_scheme machine, unit) outcome" where
  "yield_resume en s = bindK (sched_resume en s) (\<lambda>_ s. release Ptable_lk s)"

definition sleep :: "chan \<Rightarrow> lockid option \<Rightarrow> 'a procs_scheme machine \<Rightarrow> ('a procs_scheme machine, unit) outcome" where
  "sleep ch lk s =
     bindK (myproc s) (\<lambda>p s.
       case p of None \<Rightarrow> Panic ''sleep''
       | Some i \<Rightarrow>
         (case lk of None \<Rightarrow> Panic ''sleep without lk''
          | Some l \<Rightarrow>
            bindK (if l \<noteq> Ptable_lk then bindK (acquire Ptable_lk s) (\<lambda>_ s. release l s) else Done () s) (\<lambda>_ s.
              let s = upd_proc i (\<lambda>p. p\<lparr>p_chan := Some ch\<rparr>) s;
                  s = upd_proc i (\<lambda>p. p\<lparr>p_state := SLEEPING\<rparr>) s
              in sched s)))"

definition sleep_resume :: "bool \<Rightarrow> nat \<Rightarrow> lockid \<Rightarrow> 'a procs_scheme machine \<Rightarrow>
    ('a procs_scheme machine, unit) outcome" where
  "sleep_resume en i l s =
     bindK (sched_resume en s) (\<lambda>_ s.
       let s = upd_proc i (\<lambda>p. p\<lparr>p_chan := None\<rparr>) s in
       if l \<noteq> Ptable_lk then bindK (release Ptable_lk s) (\<lambda>_ s. acquire l s) else Done () s)"

section \<open>Waiting for children\<close>

definition reap :: "nat \<Rightarrow> 'a procs_scheme machine \<Rightarrow> ('a procs_scheme machine, int) outcome" where
  "reap i s =
     (let pid = p_pid (proc_at i s) in
      bindK (kfree (p_kstack (proc_at i s)) s) (\<lambda>_ s.
      let s = upd_proc i (\<lambda>p. p\<lparr>p_kstack := 0\<rparr>) s in
      bindK (freevm (p_pgdir (proc_at i s)) s) (\<lambda>_ s.
        let s = upd_proc i (\<lambda>p. p\<lparr>p_pid := 0\<rparr>) s;
            s = upd_proc i (\<lambda>p. p\<lparr>p_parent := None\<rparr>) s;
            s = upd_proc i (\<lambda>p. p\<lparr>p_name := []\<rparr>) s;
            s = upd_proc i (\<lambda>p. p\<lparr>p_killed := False\<rparr>) s;
            s = upd_proc i (\<lambda>p. p\<lparr>p_state := UNUSED\<rparr>) s
        in bindK (release Ptable_lk s) (\<lambda>_ s. Done pid s))))"

text \<open>One pass of the loop of \<^verbatim>\<open>wait\<close>; \<open>wait_resume\<close> goes on after the \<^verbatim>\<open>sleep\<close> in it.\<close>

definition wait_loop :: "nat \<Rightarrow> 'a procs_scheme machine \<Rightarrow> ('a procs_scheme machine, int) outcome" where
  "wait_loop cur s =
     (case scan (\<lambda>p. p_parent p = Some cur \<and> p_state p = ZOMBIE) (ptable (kern s)) of
        Some i \<Rightarrow> reap i s
      | None \<Rightarrow>
        let havekids = (scan (\<lambda>p. p_parent p = Some cur) (ptable (kern s)) \<noteq> None) in
        if \<not> havekids \<or> p_killed (proc_at cur s)
        then bindK (release Ptable_lk s) (\<lambda>_ s. Done (- 1) s)
        else bindK (sleep (Proc_ch (Some cur)) (Some Ptable_lk) s) (\<lambda>_ s. Done 0 s))"

definition wait :: "'a procs_scheme machine \<Rightarrow> ('a procs_scheme machine, int) outcome" where
  "wait s =
     bindK (myproc s) (\<lambda>p s.
     bindK (acquire Ptable_lk s) (\<lambda>_ s.
       case p of None \<Rightarrow> Panic ''trap'' | Some cur \<Rightarrow> wait_loop cur s))"

definition wait_resume :: "bool \<Rightarrow> nat \<Rightarrow> 'a procs_scheme machine \<Rightarrow> ('a procs_scheme machine, int) outcome" where
  "wait_resume en cur s = bindK (sleep_resume en cur Ptable_lk s) (\<lambda>_ s. wait_loop cur s)"

section \<open>The end of a process and the start of one\<close>

fun reparent :: "nat \<Rightarrow> nat list \<Rightarrow> 'a procs_scheme machine \<Rightarrow> 'a procs_scheme machine" where
  "reparent cur [] s = s"
| "reparent cur (i # is) s =
     (if p_parent (proc_at i s) = Some cur then
        let s = upd_proc i (\<lambda>p. p\<lparr>p_parent := initproc (kern s)\<rparr>) s;
            s = (if p_state (proc_at i s) = ZOMBIE then wakeup1 (Proc_ch (initproc (kern s))) s else s)
        in reparent cur is s
      else reparent cur is s)"

text \<open>The part of \<^verbatim>\<open>exit\<close> after the files are closed.\<close>

definition exit_tail :: "nat \<Rightarrow> 'a procs_scheme machine \<Rightarrow> ('a procs_scheme machine, unit) outcome" where
  "exit_tail cur s =
     bindK (acquire Ptable_lk s) (\<lambda>_ s.
       let s = wakeup1 (Proc_ch (p_parent (proc_at cur s))) s;
           s = reparent cur [0..<length (ptable (kern s))] s;
           s = upd_proc cur (\<lambda>p. p\<lparr>p_state := ZOMBIE\<rparr>) s
       in bindK (sched s) (\<lambda>_ s. Panic ''zombie exit''))"

text \<open>The end of \<^verbatim>\<open>fork\<close> and \<^verbatim>\<open>userinit\<close>: the new process becomes runnable under the lock.\<close>

definition make_runnable :: "nat \<Rightarrow> 'a procs_scheme machine \<Rightarrow> ('a procs_scheme machine, unit) outcome" where
  "make_runnable i s =
     bindK (acquire Ptable_lk s) (\<lambda>_ s. release Ptable_lk (upd_proc i (\<lambda>p. p\<lparr>p_state := RUNNABLE\<rparr>) s))"

section \<open>The scheduler\<close>

definition set_cproc :: "nat \<Rightarrow> nat option \<Rightarrow> 'k machine \<Rightarrow> 'k machine" where
  "set_cproc c p s = s\<lparr>cpus := (cpus s)[c := (cpus s ! c)\<lparr>cproc := p\<rparr>]\<rparr>"

definition scheduler_start :: "'a procs_scheme machine \<Rightarrow> ('a procs_scheme machine, nat) outcome" where
  "scheduler_start s = bindK (mycpu s) (\<lambda>c s. Done c (set_cproc c None s))"

text \<open>The inner loop from entry \<open>j\<close> on: it switches to the first runnable process (\<open>Some i\<close>), or
  releases the lock at the end of the table (\<open>None\<close>).\<close>

definition scheduler_scan :: "nat \<Rightarrow> nat \<Rightarrow> 'a procs_scheme machine \<Rightarrow>
    ('a procs_scheme machine, nat option) outcome" where
  "scheduler_scan c j s =
     (case scan_from j (\<lambda>p. p_state p = RUNNABLE) (drop j (ptable (kern s))) of
        None \<Rightarrow> bindK (release Ptable_lk s) (\<lambda>_ s. Done None s)
      | Some i \<Rightarrow>
        let s = set_cproc c (Some i) s in
        bindK (switchuvm (Some (p_kstack (proc_at i s), p_pgdir (proc_at i s))) s) (\<lambda>_ s.
          Done (Some i) (upd_proc i (\<lambda>p. p\<lparr>p_state := RUNNING\<rparr>) s)))"

definition scheduler_loop :: "nat \<Rightarrow> 'a procs_scheme machine \<Rightarrow> ('a procs_scheme machine, nat option) outcome" where
  "scheduler_loop c s = bindK (acquire Ptable_lk (sti s)) (\<lambda>_ s. scheduler_scan c 0 s)"

definition scheduler_back :: "nat \<Rightarrow> nat \<Rightarrow> 'a procs_scheme machine \<Rightarrow> ('a procs_scheme machine, nat option) outcome" where
  "scheduler_back c i s = scheduler_scan c (Suc i) (set_cproc c None (switchkvm s))"

end
