(* ===== verification/Sleeplock.thy ===== *)
theory Sleeplock
  imports Proc
begin

text \<open>
  Sleep locks (\<^verbatim>\<open>sleeplock.c\<close>). A sleep lock is named by the object it is part of: a buffer
  or an in-memory inode. The waiting loop of \<^verbatim>\<open>acquiresleep\<close> is cut at its \<^verbatim>\<open>sleep\<close>;
  \<open>acquiresleep_resume\<close> is what the process does when it has been woken.
\<close>

datatype slid = Buf_sl nat | Inode_sl nat

record sleeplock =
  slocked :: bool
  slname :: string
  slpid :: int

record slk = procs +
  sleeplocks :: "slid \<Rightarrow> sleeplock"

fun sl_lk :: "slid \<Rightarrow> lockid" where
  "sl_lk (Buf_sl i) = Buf_lk i"
| "sl_lk (Inode_sl i) = Inode_lk i"

fun sl_chan :: "slid \<Rightarrow> chan" where
  "sl_chan (Buf_sl i) = Buflk_ch i"
| "sl_chan (Inode_sl i) = Inode_ch i"

definition upd_sl :: "slid \<Rightarrow> (sleeplock \<Rightarrow> sleeplock) \<Rightarrow> 'a slk_scheme machine \<Rightarrow> 'a slk_scheme machine" where
  "upd_sl l f = upd_kern (\<lambda>k. k\<lparr>sleeplocks := (sleeplocks k)(l := f (sleeplocks k l))\<rparr>)"

definition initsleeplock :: "slid \<Rightarrow> string \<Rightarrow> 'a slk_scheme machine \<Rightarrow> 'a slk_scheme machine" where
  "initsleeplock l name s =
     (let s = initlock (sl_lk l) ''sleep lock'' s;
          s = upd_sl l (\<lambda>k. k\<lparr>slname := name\<rparr>) s;
          s = upd_sl l (\<lambda>k. k\<lparr>slocked := False\<rparr>) s
      in upd_sl l (\<lambda>k. k\<lparr>slpid := 0\<rparr>) s)"

text \<open>The pid of the current process.\<close>

definition mypid :: "'a slk_scheme machine \<Rightarrow> ('a slk_scheme machine, int) outcome" where
  "mypid s = bindK (myproc s) (\<lambda>p s. case p of None \<Rightarrow> Panic ''trap'' | Some i \<Rightarrow> Done (p_pid (proc_at i s)) s)"

text \<open>From the test of the waiting loop on.\<close>

definition acquiresleep_loop :: "slid \<Rightarrow> 'a slk_scheme machine \<Rightarrow> ('a slk_scheme machine, unit) outcome" where
  "acquiresleep_loop l s =
     (if slocked (sleeplocks (kern s) l) then sleep (sl_chan l) (Some (sl_lk l)) s
      else let s = upd_sl l (\<lambda>k. k\<lparr>slocked := True\<rparr>) s in
        bindK (mypid s) (\<lambda>pid s.
          release (sl_lk l) (upd_sl l (\<lambda>k. k\<lparr>slpid := pid\<rparr>) s)))"

definition acquiresleep :: "slid \<Rightarrow> 'a slk_scheme machine \<Rightarrow> ('a slk_scheme machine, unit) outcome" where
  "acquiresleep l s = bindK (acquire (sl_lk l) s) (\<lambda>_ s. acquiresleep_loop l s)"

definition acquiresleep_resume :: "bool \<Rightarrow> nat \<Rightarrow> slid \<Rightarrow> 'a slk_scheme machine \<Rightarrow>
    ('a slk_scheme machine, unit) outcome" where
  "acquiresleep_resume en i l s = bindK (sleep_resume en i (sl_lk l) s) (\<lambda>_ s. acquiresleep_loop l s)"

definition releasesleep :: "slid \<Rightarrow> 'a slk_scheme machine \<Rightarrow> ('a slk_scheme machine, unit) outcome" where
  "releasesleep l s =
     bindK (acquire (sl_lk l) s) (\<lambda>_ s.
       let s = upd_sl l (\<lambda>k. k\<lparr>slocked := False\<rparr>) s;
           s = upd_sl l (\<lambda>k. k\<lparr>slpid := 0\<rparr>) s
       in bindK (wakeup (sl_chan l) s) (\<lambda>_ s. release (sl_lk l) s))"

definition holdingsleep :: "slid \<Rightarrow> 'a slk_scheme machine \<Rightarrow> ('a slk_scheme machine, bool) outcome" where
  "holdingsleep l s =
     bindK (acquire (sl_lk l) s) (\<lambda>_ s.
     bindK (if slocked (sleeplocks (kern s) l)
            then bindK (mypid s) (\<lambda>pid s. Done (slpid (sleeplocks (kern s) l) = pid) s)
            else Done False s) (\<lambda>r s.
     bindK (release (sl_lk l) s) (\<lambda>_ s. Done r s)))"

end
