(* ===== verification/Bytes.thy ===== *)
theory Bytes
  imports Memory
begin

unbundle bit_operations_syntax

text \<open>
  Structures kept in byte arrays: the 16- and 32-bit fields of a disk block or of a file, low
  byte first, and overwriting a part of an array.
\<close>

type_synonym bytes = "uchar list"

definition splice :: "bytes \<Rightarrow> nat \<Rightarrow> bytes \<Rightarrow> bytes" where
  "splice d i bs = take i d @ bs @ drop (i + length bs) d"

definition slice :: "bytes \<Rightarrow> nat \<Rightarrow> nat \<Rightarrow> bytes" where
  "slice d i n = take n (drop i d)"

definition enc16 :: "ushort \<Rightarrow> bytes" where
  "enc16 v = [ucast v, ucast (drop_bit 8 v)]"

definition enc32 :: "uint \<Rightarrow> bytes" where
  "enc32 v = [ucast v, ucast (drop_bit 8 v), ucast (drop_bit 16 v), ucast (drop_bit 24 v)]"

definition get16 :: "bytes \<Rightarrow> nat \<Rightarrow> ushort" where
  "get16 d i = ucast (d ! i) OR push_bit 8 (ucast (d ! (i + 1)))"

definition get32 :: "bytes \<Rightarrow> nat \<Rightarrow> uint" where
  "get32 d i = ucast (d ! i) OR push_bit 8 (ucast (d ! (i + 1))) OR
     push_bit 16 (ucast (d ! (i + 2))) OR push_bit 24 (ucast (d ! (i + 3)))"

definition put16 :: "bytes \<Rightarrow> nat \<Rightarrow> ushort \<Rightarrow> bytes" where
  "put16 d i v = splice d i (enc16 v)"

definition put32 :: "bytes \<Rightarrow> nat \<Rightarrow> uint \<Rightarrow> bytes" where
  "put32 d i v = splice d i (enc32 v)"

section \<open>Overwriting\<close>

lemma length_splice [simp]: "i + length bs \<le> length d \<Longrightarrow> length (splice d i bs) = length d"
  by (simp add: splice_def)

lemma length_slice [simp]: "i + n \<le> length d \<Longrightarrow> length (slice d i n) = n"
  by (simp add: slice_def)

lemma splice_nth:
  "i + length bs \<le> length d \<Longrightarrow> k < length d \<Longrightarrow>
     splice d i bs ! k = (if i \<le> k \<and> k < i + length bs then bs ! (k - i) else d ! k)"
  by (auto simp: splice_def nth_append)

lemma slice_nth: "k < n \<Longrightarrow> i + n \<le> length d \<Longrightarrow> slice d i n ! k = d ! (i + k)"
  by (simp add: slice_def)

lemma slice_splice_same: "i + length bs \<le> length d \<Longrightarrow> n = length bs \<Longrightarrow> slice (splice d i bs) i n = bs"
  by (simp add: slice_def splice_def)

lemma slice_splice_other:
  "i + length bs \<le> length d \<Longrightarrow> j + n \<le> length d \<Longrightarrow> j + n \<le> i \<or> i + length bs \<le> j \<Longrightarrow>
     slice (splice d i bs) j n = slice d j n"
  by (rule nth_equalityI) (auto simp: slice_nth splice_nth)

lemma splice_Nil [simp]: "splice d i [] = d"
  by (simp add: splice_def)

lemma length_enc [simp]: "length (enc16 v) = 2" "length (enc32 w) = 4"
  by (simp_all add: enc16_def enc32_def)

lemma length_put [simp]:
  "i + 2 \<le> length d \<Longrightarrow> length (put16 d i v) = length d"
  "i + 4 \<le> length d \<Longrightarrow> length (put32 d i w) = length d"
  by (simp_all add: put16_def put32_def)

section \<open>Fields\<close>

lemma halves_of_word: "(ucast (ucast (v :: ushort) :: uchar) :: ushort) OR
     push_bit 8 (ucast (ucast (drop_bit 8 v) :: uchar)) = v"
  by (rule bit_eqI) (auto simp: bit_simps)

lemma get16_put16 [simp]: "i + 2 \<le> length d \<Longrightarrow> get16 (put16 d i v) i = v"
  by (simp add: get16_def put16_def splice_nth enc16_def halves_of_word)

lemma get32_put32 [simp]: "i + 4 \<le> length d \<Longrightarrow> get32 (put32 d i v) i = v"
proof -
  assume i: "i + 4 \<le> length d"
  have "put32 d i v ! (i + k) = enc32 v ! k" if "k < 4" for k
    using i that by (simp add: put32_def splice_nth)
  from this [of 0] this [of 1] this [of 2] this [of 3] show ?thesis
    by (simp add: get32_def enc32_def bytes_of_word)
qed

lemma get16_splice_other:
  "j + 2 \<le> length d \<Longrightarrow> i + length bs \<le> length d \<Longrightarrow> j + 2 \<le> i \<or> i + length bs \<le> j \<Longrightarrow>
     get16 (splice d i bs) j = get16 d j"
  by (auto simp: get16_def splice_nth)

lemma get32_splice_other:
  "j + 4 \<le> length d \<Longrightarrow> i + length bs \<le> length d \<Longrightarrow> j + 4 \<le> i \<or> i + length bs \<le> j \<Longrightarrow>
     get32 (splice d i bs) j = get32 d j"
  by (auto simp: get32_def splice_nth)

lemmas get_put_other = get16_splice_other [where bs = "enc16 v" for v, folded put16_def]
  get16_splice_other [where bs = "enc32 v" for v, folded put32_def]
  get32_splice_other [where bs = "enc16 v" for v, folded put16_def]
  get32_splice_other [where bs = "enc32 v" for v, folded put32_def]

end
