(* ===== verification/Bio.thy ===== *)
theory Bio
  imports Sleeplock Bytes
begin

text \<open>
  The disk of \<^verbatim>\<open>memide.c\<close> and the buffer cache (\<^verbatim>\<open>bio.c\<close>). The buffers are the entries
  \<open>0..<NBUF\<close> of a table and entry \<open>NBUF\<close> is \<^verbatim>\<open>bcache.head\<close>, so that the links of the ring are
  indices. The flag word is its two bits. \<open>disk_log\<close> is the sequence of block writes the disk
  has received; no routine reads it.
\<close>

section \<open>State\<close>

definition BSIZE :: nat where "BSIZE = 512"

record buf =
  b_valid :: bool
  b_dirty :: bool
  b_dev :: uint
  b_blockno :: uint
  b_refcnt :: uint
  b_prev :: nat
  b_next :: nat
  b_data :: bytes

record bufk = slk +
  bufs :: "buf list"
  memdisk :: "nat \<Rightarrow> uchar"
  disksize :: int
  disk_log :: "(nat \<times> bytes) list"

definition buf_at :: "nat \<Rightarrow> 'a bufk_scheme machine \<Rightarrow> buf" where
  "buf_at b s = bufs (kern s) ! b"

definition upd_buf :: "nat \<Rightarrow> (buf \<Rightarrow> buf) \<Rightarrow> 'a bufk_scheme machine \<Rightarrow> 'a bufk_scheme machine" where
  "upd_buf b f = upd_kern (\<lambda>k. k\<lparr>bufs := (bufs k)[b := f (bufs k ! b)]\<rparr>)"

section \<open>The disk\<close>

text \<open>\<open>img\<close> and \<open>sz\<close> are the file-system image and its size in bytes that the linker provides.\<close>

definition ideinit :: "(nat \<Rightarrow> uchar) \<Rightarrow> uint \<Rightarrow> 'a bufk_scheme machine \<Rightarrow> 'a bufk_scheme machine" where
  "ideinit img sz = upd_kern (\<lambda>k. k\<lparr>memdisk := img, disksize := uint (sz div of_nat BSIZE)\<rparr>)"

definition ideintr :: "'a bufk_scheme machine \<Rightarrow> 'a bufk_scheme machine" where
  "ideintr s = s"

text \<open>The 512 bytes at block \<open>n\<close> of the image, and storing them.\<close>

definition dblk :: "(nat \<Rightarrow> uchar) \<Rightarrow> nat \<Rightarrow> bytes" where
  "dblk d n = map (\<lambda>j. d (n * BSIZE + j)) [0..<BSIZE]"

definition dput :: "(nat \<Rightarrow> uchar) \<Rightarrow> nat \<Rightarrow> bytes \<Rightarrow> nat \<Rightarrow> uchar" where
  "dput d n bs = (\<lambda>a. if n * BSIZE \<le> a \<and> a < n * BSIZE + BSIZE then bs ! (a - n * BSIZE) else d a)"

definition iderw :: "nat \<Rightarrow> 'a bufk_scheme machine \<Rightarrow> ('a bufk_scheme machine, unit) outcome" where
  "iderw b s =
     bindK (holdingsleep (Buf_sl b) s) (\<lambda>h s.
       if \<not> h then Panic ''iderw: buf not locked''
       else if b_valid (buf_at b s) \<and> \<not> b_dirty (buf_at b s) then Panic ''iderw: nothing to do''
       else if b_dev (buf_at b s) \<noteq> 1 then Panic ''iderw: request not for disk 1''
       else if disksize (kern s) \<le> uint (b_blockno (buf_at b s)) then Panic ''iderw: block out of range''
       else let p = unat (b_blockno (buf_at b s));
                s = (if b_dirty (buf_at b s) then
                       let s = upd_buf b (\<lambda>x. x\<lparr>b_dirty := False\<rparr>) s in
                       upd_kern (\<lambda>k. k\<lparr>memdisk := dput (memdisk k) p (b_data (buf_at b s)),
                         disk_log := disk_log k @ [(p, b_data (buf_at b s))]\<rparr>) s
                     else upd_buf b (\<lambda>x. x\<lparr>b_data := dblk (memdisk (kern s)) p\<rparr>) s)
            in Done () (upd_buf b (\<lambda>x. x\<lparr>b_valid := True\<rparr>) s))"

section \<open>The buffer cache\<close>

text \<open>Put buffer \<open>b\<close> right after the head of the ring.\<close>

definition link_first :: "nat \<Rightarrow> 'a bufk_scheme machine \<Rightarrow> 'a bufk_scheme machine" where
  "link_first b s =
     (let s = upd_buf (b_next (buf_at NBUF s)) (\<lambda>x. x\<lparr>b_prev := b\<rparr>) s
      in upd_buf NBUF (\<lambda>x. x\<lparr>b_next := b\<rparr>) s)"

fun binit_from :: "nat list \<Rightarrow> 'a bufk_scheme machine \<Rightarrow> 'a bufk_scheme machine" where
  "binit_from [] s = s"
| "binit_from (b # bs) s =
     (let s = upd_buf b (\<lambda>x. x\<lparr>b_next := b_next (buf_at NBUF s)\<rparr>) s;
          s = upd_buf b (\<lambda>x. x\<lparr>b_prev := NBUF\<rparr>) s;
          s = initsleeplock (Buf_sl b) ''buffer'' s
      in binit_from bs (link_first b s))"

definition binit :: "'a bufk_scheme machine \<Rightarrow> 'a bufk_scheme machine" where
  "binit s =
     (let s = initlock Bcache_lk ''bcache'' s;
          s = upd_buf NBUF (\<lambda>x. x\<lparr>b_prev := NBUF\<rparr>) s;
          s = upd_buf NBUF (\<lambda>x. x\<lparr>b_next := NBUF\<rparr>) s
      in binit_from [0..<NBUF] s)"

text \<open>
  Following the links from \<open>b\<close> to the first buffer with \<open>P\<close>, or back to the head (\<open>Some None\<close>);
  \<open>None\<close> when neither is met within the given number of links.
\<close>

fun walk :: "nat \<Rightarrow> (buf \<Rightarrow> nat) \<Rightarrow> (buf \<Rightarrow> bool) \<Rightarrow> buf list \<Rightarrow> nat \<Rightarrow> nat option option" where
  "walk 0 nx P bs b = None"
| "walk (Suc n) nx P bs b =
     (if b = NBUF then Some None else if P (bs ! b) then Some (Some b) else walk n nx P bs (nx (bs ! b)))"

definition bget :: "uint \<Rightarrow> uint \<Rightarrow> 'a bufk_scheme machine \<Rightarrow> ('a bufk_scheme machine, nat) outcome" where
  "bget dev blockno s =
     bindK (acquire Bcache_lk s) (\<lambda>_ s.
       case walk (Suc NBUF) b_next (\<lambda>x. b_dev x = dev \<and> b_blockno x = blockno)
           (bufs (kern s)) (b_next (buf_at NBUF s)) of
         None \<Rightarrow> Spin s
       | Some (Some b) \<Rightarrow>
           let s = upd_buf b (\<lambda>x. x\<lparr>b_refcnt := b_refcnt x + 1\<rparr>) s in
           bindK (release Bcache_lk s) (\<lambda>_ s.
           bindK (acquiresleep (Buf_sl b) s) (\<lambda>_ s. Done b s))
       | Some None \<Rightarrow>
         (case walk (Suc NBUF) b_prev (\<lambda>x. b_refcnt x = 0 \<and> \<not> b_dirty x)
             (bufs (kern s)) (b_prev (buf_at NBUF s)) of
            None \<Rightarrow> Spin s
          | Some (Some b) \<Rightarrow>
              let s = upd_buf b (\<lambda>x. x\<lparr>b_dev := dev\<rparr>) s;
                  s = upd_buf b (\<lambda>x. x\<lparr>b_blockno := blockno\<rparr>) s;
                  s = upd_buf b (\<lambda>x. x\<lparr>b_valid := False, b_dirty := False\<rparr>) s;
                  s = upd_buf b (\<lambda>x. x\<lparr>b_refcnt := 1\<rparr>) s
              in bindK (release Bcache_lk s) (\<lambda>_ s.
                 bindK (acquiresleep (Buf_sl b) s) (\<lambda>_ s. Done b s))
          | Some None \<Rightarrow> Panic ''bget: no buffers''))"

definition bread :: "uint \<Rightarrow> uint \<Rightarrow> 'a bufk_scheme machine \<Rightarrow> ('a bufk_scheme machine, nat) outcome" where
  "bread dev blockno s =
     bindK (bget dev blockno s) (\<lambda>b s.
       if \<not> b_valid (buf_at b s) then bindK (iderw b s) (\<lambda>_ s. Done b s) else Done b s)"

definition bwrite :: "nat \<Rightarrow> 'a bufk_scheme machine \<Rightarrow> ('a bufk_scheme machine, unit) outcome" where
  "bwrite b s =
     bindK (holdingsleep (Buf_sl b) s) (\<lambda>h s.
       if \<not> h then Panic ''bwrite''
       else iderw b (upd_buf b (\<lambda>x. x\<lparr>b_dirty := True\<rparr>) s))"

definition brelse :: "nat \<Rightarrow> 'a bufk_scheme machine \<Rightarrow> ('a bufk_scheme machine, unit) outcome" where
  "brelse b s =
     bindK (holdingsleep (Buf_sl b) s) (\<lambda>h s.
       if \<not> h then Panic ''brelse''
       else bindK (releasesleep (Buf_sl b) s) (\<lambda>_ s.
       bindK (acquire Bcache_lk s) (\<lambda>_ s.
         let s = upd_buf b (\<lambda>x. x\<lparr>b_refcnt := b_refcnt x - 1\<rparr>) s;
             s = (if b_refcnt (buf_at b s) = 0 then
                    let s = upd_buf (b_next (buf_at b s)) (\<lambda>x. x\<lparr>b_prev := b_prev (buf_at b s)\<rparr>) s;
                        s = upd_buf (b_prev (buf_at b s)) (\<lambda>x. x\<lparr>b_next := b_next (buf_at b s)\<rparr>) s;
                        s = upd_buf b (\<lambda>x. x\<lparr>b_next := b_next (buf_at NBUF s)\<rparr>) s;
                        s = upd_buf b (\<lambda>x. x\<lparr>b_prev := NBUF\<rparr>) s
                    in link_first b s
                  else s)
         in release Bcache_lk s)))"

end
