(* ===== verification/Log.thy ===== *)
theory Log
  imports Bio
begin

text \<open>
  The write-ahead log (\<^verbatim>\<open>log.c\<close>, and \<^verbatim>\<open>readsb\<close> of \<^verbatim>\<open>fs.c\<close>). A loop over the log runs over
  the indices below \<^verbatim>\<open>log.lh.n\<close>, which does not change while it runs. \<^verbatim>\<open>begin_op\<close> is cut at its
  \<^verbatim>\<open>sleep\<close> like the other waiting loops. A header on the disk with more entries than the array
  in memory has room for would be copied past the end of the array; that case is a panic here.
\<close>

section \<open>State\<close>

record superblock =
  sb_size :: uint
  sb_nblocks :: uint
  sb_ninodes :: uint
  sb_nlog :: uint
  sb_logstart :: uint
  sb_inodestart :: uint
  sb_bmapstart :: uint

record logheader =
  lh_n :: int
  lh_block :: "int list"

record log =
  lg_start :: int
  lg_size :: int
  lg_outstanding :: int
  lg_committing :: bool
  lg_dev :: int
  lg_lh :: logheader

record logk = bufk +
  klog :: log

definition the_log :: "'a logk_scheme machine \<Rightarrow> log" where
  "the_log s = klog (kern s)"

definition upd_log :: "(log \<Rightarrow> log) \<Rightarrow> 'a logk_scheme machine \<Rightarrow> 'a logk_scheme machine" where
  "upd_log f = upd_kern (\<lambda>k. k\<lparr>klog := f (klog k)\<rparr>)"

definition upd_lh :: "(logheader \<Rightarrow> logheader) \<Rightarrow> 'a logk_scheme machine \<Rightarrow> 'a logk_scheme machine" where
  "upd_lh f = upd_log (\<lambda>l. l\<lparr>lg_lh := f (lg_lh l)\<rparr>)"

definition sizeof_logheader :: nat where
  "sizeof_logheader = 4 + 4 * LOGSIZE"

text \<open>\<^verbatim>\<open>struct superblock\<close> at the start of a block.\<close>

definition superblock_of :: "bytes \<Rightarrow> superblock" where
  "superblock_of d = \<lparr>sb_size = get32 d 0, sb_nblocks = get32 d 4, sb_ninodes = get32 d 8,
     sb_nlog = get32 d 12, sb_logstart = get32 d 16, sb_inodestart = get32 d 20, sb_bmapstart = get32 d 24\<rparr>"

definition readsb :: "uint \<Rightarrow> 'a bufk_scheme machine \<Rightarrow> ('a bufk_scheme machine, superblock) outcome" where
  "readsb dev s =
     bindK (bread dev 1 s) (\<lambda>bp s.
       let sb = superblock_of (b_data (buf_at bp s)) in
       bindK (brelse bp s) (\<lambda>_ s. Done sb s))"

section \<open>The log on the disk\<close>

fun install_from :: "nat list \<Rightarrow> 'a logk_scheme machine \<Rightarrow> ('a logk_scheme machine, unit) outcome" where
  "install_from [] s = Done () s"
| "install_from (tail # rest) s =
     bindK (bread (of_int (lg_dev (the_log s))) (of_int (lg_start (the_log s) + int tail + 1)) s) (\<lambda>lbuf s.
     bindK (bread (of_int (lg_dev (the_log s))) (of_int (lh_block (lg_lh (the_log s)) ! tail)) s) (\<lambda>dbuf s.
     let s = upd_buf dbuf (\<lambda>x. x\<lparr>b_data := b_data (buf_at lbuf s)\<rparr>) s in
     bindK (bwrite dbuf s) (\<lambda>_ s.
     bindK (brelse lbuf s) (\<lambda>_ s.
     bindK (brelse dbuf s) (\<lambda>_ s. install_from rest s)))))"

definition install_trans :: "'a logk_scheme machine \<Rightarrow> ('a logk_scheme machine, unit) outcome" where
  "install_trans s = install_from [0..<nat (lh_n (lg_lh (the_log s)))] s"

text \<open>The entries of a header: \<^verbatim>\<open>lh->n\<close> and \<^verbatim>\<open>lh->block[i]\<close> in a block, and storing them there.\<close>

definition hdr_n :: "bytes \<Rightarrow> int" where
  "hdr_n d = sint (get32 d 0)"

definition hdr_block :: "bytes \<Rightarrow> nat \<Rightarrow> int" where
  "hdr_block d i = sint (get32 d (4 + 4 * i))"

fun put_blocks :: "int list \<Rightarrow> nat list \<Rightarrow> bytes \<Rightarrow> bytes" where
  "put_blocks bl [] d = d"
| "put_blocks bl (i # is) d = put_blocks bl is (put32 d (4 + 4 * i) (of_int (bl ! i)))"

fun get_blocks :: "bytes \<Rightarrow> nat list \<Rightarrow> int list \<Rightarrow> int list" where
  "get_blocks d [] bl = bl"
| "get_blocks d (i # is) bl = get_blocks d is (bl[i := hdr_block d i])"

definition read_head :: "'a logk_scheme machine \<Rightarrow> ('a logk_scheme machine, unit) outcome" where
  "read_head s =
     bindK (bread (of_int (lg_dev (the_log s))) (of_int (lg_start (the_log s))) s) (\<lambda>b s.
       let d = b_data (buf_at b s);
           s = upd_lh (\<lambda>h. h\<lparr>lh_n := hdr_n d\<rparr>) s
       in if lh_n (lg_lh (the_log s)) > int LOGSIZE then Panic ''store past log.lh.block''
          else let s = upd_lh (\<lambda>h. h\<lparr>lh_block := get_blocks d [0..<nat (lh_n h)] (lh_block h)\<rparr>) s
               in brelse b s)"

definition write_head :: "'a logk_scheme machine \<Rightarrow> ('a logk_scheme machine, unit) outcome" where
  "write_head s =
     bindK (bread (of_int (lg_dev (the_log s))) (of_int (lg_start (the_log s))) s) (\<lambda>b s.
       let h = lg_lh (the_log s);
           s = upd_buf b (\<lambda>x. x\<lparr>b_data := put32 (b_data x) 0 (of_int (lh_n h))\<rparr>) s;
           s = upd_buf b (\<lambda>x. x\<lparr>b_data := put_blocks (lh_block h) [0..<nat (lh_n h)] (b_data x)\<rparr>) s
       in bindK (bwrite b s) (\<lambda>_ s. brelse b s))"

definition recover_from_log :: "'a logk_scheme machine \<Rightarrow> ('a logk_scheme machine, unit) outcome" where
  "recover_from_log s =
     bindK (read_head s) (\<lambda>_ s.
     bindK (install_trans s) (\<lambda>_ s.
     write_head (upd_lh (\<lambda>h. h\<lparr>lh_n := 0\<rparr>) s)))"

definition initlog :: "int \<Rightarrow> 'a logk_scheme machine \<Rightarrow> ('a logk_scheme machine, unit) outcome" where
  "initlog dev s =
     (if BSIZE \<le> sizeof_logheader then Panic ''initlog: too big logheader''
      else let s = initlock Log_lk ''log'' s in
        bindK (readsb (of_int dev) s) (\<lambda>sb s.
          let s = upd_log (\<lambda>l. l\<lparr>lg_start := sint (sb_logstart sb)\<rparr>) s;
              s = upd_log (\<lambda>l. l\<lparr>lg_size := sint (sb_nlog sb)\<rparr>) s;
              s = upd_log (\<lambda>l. l\<lparr>lg_dev := dev\<rparr>) s
          in recover_from_log s))"

section \<open>Transactions\<close>

definition begin_op_loop :: "'a logk_scheme machine \<Rightarrow> ('a logk_scheme machine, unit) outcome" where
  "begin_op_loop s =
     (if lg_committing (the_log s) then sleep Log_ch (Some Log_lk) s
      else if lh_n (lg_lh (the_log s)) + (lg_outstanding (the_log s) + 1) * int MAXOPBLOCKS > int LOGSIZE
      then sleep Log_ch (Some Log_lk) s
      else release Log_lk (upd_log (\<lambda>l. l\<lparr>lg_outstanding := lg_outstanding l + 1\<rparr>) s))"

definition begin_op :: "'a logk_scheme machine \<Rightarrow> ('a logk_scheme machine, unit) outcome" where
  "begin_op s = bindK (acquire Log_lk s) (\<lambda>_ s. begin_op_loop s)"

definition begin_op_resume :: "bool \<Rightarrow> nat \<Rightarrow> 'a logk_scheme machine \<Rightarrow> ('a logk_scheme machine, unit) outcome" where
  "begin_op_resume en i s = bindK (sleep_resume en i Log_lk s) (\<lambda>_ s. begin_op_loop s)"

fun write_log_from :: "nat list \<Rightarrow> 'a logk_scheme machine \<Rightarrow> ('a logk_scheme machine, unit) outcome" where
  "write_log_from [] s = Done () s"
| "write_log_from (tail # rest) s =
     bindK (bread (of_int (lg_dev (the_log s))) (of_int (lg_start (the_log s) + int tail + 1)) s) (\<lambda>to s.
     bindK (bread (of_int (lg_dev (the_log s))) (of_int (lh_block (lg_lh (the_log s)) ! tail)) s) (\<lambda>from s.
     let s = upd_buf to (\<lambda>x. x\<lparr>b_data := b_data (buf_at from s)\<rparr>) s in
     bindK (bwrite to s) (\<lambda>_ s.
     bindK (brelse from s) (\<lambda>_ s.
     bindK (brelse to s) (\<lambda>_ s. write_log_from rest s)))))"

definition write_log :: "'a logk_scheme machine \<Rightarrow> ('a logk_scheme machine, unit) outcome" where
  "write_log s = write_log_from [0..<nat (lh_n (lg_lh (the_log s)))] s"

definition commit :: "'a logk_scheme machine \<Rightarrow> ('a logk_scheme machine, unit) outcome" where
  "commit s =
     (if lh_n (lg_lh (the_log s)) > 0 then
        bindK (write_log s) (\<lambda>_ s.
        bindK (write_head s) (\<lambda>_ s.
        bindK (install_trans s) (\<lambda>_ s.
        write_head (upd_lh (\<lambda>h. h\<lparr>lh_n := 0\<rparr>) s))))
      else Done () s)"

definition end_op :: "'a logk_scheme machine \<Rightarrow> ('a logk_scheme machine, unit) outcome" where
  "end_op s =
     bindK (acquire Log_lk s) (\<lambda>_ s.
       let s = upd_log (\<lambda>l. l\<lparr>lg_outstanding := lg_outstanding l - 1\<rparr>) s in
       if lg_committing (the_log s) then Panic ''log.committing''
       else bindK (if lg_outstanding (the_log s) = 0
                   then Done True (upd_log (\<lambda>l. l\<lparr>lg_committing := True\<rparr>) s)
                   else bindK (wakeup Log_ch s) (\<lambda>_ s. Done False s)) (\<lambda>do_commit s.
       bindK (release Log_lk s) (\<lambda>_ s.
         if do_commit then
           bindK (commit s) (\<lambda>_ s.
           bindK (acquire Log_lk s) (\<lambda>_ s.
             let s = upd_log (\<lambda>l. l\<lparr>lg_committing := False\<rparr>) s in
             bindK (wakeup Log_ch s) (\<lambda>_ s. release Log_lk s)))
         else Done () s)))"

text \<open>The index \<^verbatim>\<open>log_write\<close> stores the block number at: that of the block if it is logged, else the end.\<close>

definition log_slot :: "logheader \<Rightarrow> int \<Rightarrow> nat" where
  "log_slot h bn = (case scan (\<lambda>x. x = bn) (take (nat (lh_n h)) (lh_block h)) of
     Some i \<Rightarrow> i | None \<Rightarrow> nat (lh_n h))"

definition log_write :: "nat \<Rightarrow> 'a logk_scheme machine \<Rightarrow> ('a logk_scheme machine, unit) outcome" where
  "log_write b s =
     (if lh_n (lg_lh (the_log s)) \<ge> int LOGSIZE \<or> lh_n (lg_lh (the_log s)) \<ge> lg_size (the_log s) - 1
      then Panic ''too big a transaction''
      else if lg_outstanding (the_log s) < 1 then Panic ''log_write outside of trans''
      else bindK (acquire Log_lk s) (\<lambda>_ s.
        let bn = sint (b_blockno (buf_at b s));
            i = log_slot (lg_lh (the_log s)) bn;
            s = upd_lh (\<lambda>h. h\<lparr>lh_block := (lh_block h)[i := bn]\<rparr>) s;
            s = (if int i = lh_n (lg_lh (the_log s)) then upd_lh (\<lambda>h. h\<lparr>lh_n := lh_n h + 1\<rparr>) s else s);
            s = upd_buf b (\<lambda>x. x\<lparr>b_dirty := True\<rparr>) s
        in release Log_lk s))"

end
