(* ===== verification/Inode.thy ===== *)
theory Inode
  imports Log
begin

unbundle bit_operations_syntax

text \<open>
  Disk blocks and inodes (the first half of \<^verbatim>\<open>fs.c\<close>): the free-block bitmap, the inodes on the
  disk, the inode cache, and the map from the blocks of a file to blocks of the disk. A
  \<^verbatim>\<open>struct dinode\<close> is 64 bytes of an inode block at the offsets of its fields.
\<close>

section \<open>State\<close>

definition NDIRECT :: nat where "NDIRECT = 12"
definition NINDIRECT :: nat where "NINDIRECT = BSIZE div 4"
definition MAXFILE :: nat where "MAXFILE = NDIRECT + NINDIRECT"
definition sizeof_dinode :: nat where "sizeof_dinode = 64"
definition IPB :: nat where "IPB = BSIZE div sizeof_dinode"
definition BPB :: nat where "BPB = BSIZE * 8"
definition ROOTINO :: uint where "ROOTINO = 1"
definition T_DIR :: ushort where "T_DIR = 1"
definition T_FILE :: ushort where "T_FILE = 2"
definition T_DEV :: ushort where "T_DEV = 3"

lemmas fs_defs = BSIZE_def NDIRECT_def NINDIRECT_def MAXFILE_def sizeof_dinode_def IPB_def BPB_def ROOTINO_def
  T_DIR_def T_FILE_def T_DEV_def

record inode =
  i_dev :: uint
  i_inum :: uint
  i_ref :: int
  i_valid :: bool
  i_type :: ushort
  i_major :: ushort
  i_minor :: ushort
  i_nlink :: ushort
  i_size :: uint
  i_addrs :: "uint list"

record fsk = logk +
  the_sb :: superblock
  icache :: "inode list"

definition inode_at :: "nat \<Rightarrow> 'a fsk_scheme machine \<Rightarrow> inode" where
  "inode_at i s = icache (kern s) ! i"

definition upd_inode :: "nat \<Rightarrow> (inode \<Rightarrow> inode) \<Rightarrow> 'a fsk_scheme machine \<Rightarrow> 'a fsk_scheme machine" where
  "upd_inode i f = upd_kern (\<lambda>k. k\<lparr>icache := (icache k)[i := f (icache k ! i)]\<rparr>)"

definition set_data :: "nat \<Rightarrow> (bytes \<Rightarrow> bytes) \<Rightarrow> 'a bufk_scheme machine \<Rightarrow> 'a bufk_scheme machine" where
  "set_data b f = upd_buf b (\<lambda>x. x\<lparr>b_data := f (b_data x)\<rparr>)"

definition IBLOCK :: "uint \<Rightarrow> superblock \<Rightarrow> uint" where
  "IBLOCK i sb = i div of_nat IPB + sb_inodestart sb"

definition BBLOCK :: "uint \<Rightarrow> superblock \<Rightarrow> uint" where
  "BBLOCK b sb = b div of_nat BPB + sb_bmapstart sb"

section \<open>Blocks\<close>

definition bzero :: "uint \<Rightarrow> uint \<Rightarrow> 'a logk_scheme machine \<Rightarrow> ('a logk_scheme machine, unit) outcome" where
  "bzero dev bno s =
     bindK (bread dev bno s) (\<lambda>bp s.
       let s = set_data bp (\<lambda>_. replicate BSIZE 0) s in
       bindK (log_write bp s) (\<lambda>_ s. brelse bp s))"

text \<open>The bit of block \<open>bi\<close> in a bitmap block: the byte it is in and the mask \<^verbatim>\<open>1 << (bi % 8)\<close>.\<close>

definition bit_mask :: "nat \<Rightarrow> uchar" where
  "bit_mask bi = push_bit (bi mod 8) 1"

definition bit_free :: "bytes \<Rightarrow> nat \<Rightarrow> bool" where
  "bit_free d bi \<longleftrightarrow> d ! (bi div 8) AND bit_mask bi = 0"

definition bit_set :: "bytes \<Rightarrow> nat \<Rightarrow> bytes" where
  "bit_set d bi = d[bi div 8 := d ! (bi div 8) OR bit_mask bi]"

definition bit_clear :: "bytes \<Rightarrow> nat \<Rightarrow> bytes" where
  "bit_clear d bi = d[bi div 8 := d ! (bi div 8) AND NOT (bit_mask bi)]"

text \<open>The values of \<^verbatim>\<open>b\<close> in the outer loop of \<^verbatim>\<open>balloc\<close>, and of \<^verbatim>\<open>bi\<close> in the inner loop.\<close>

definition map_starts :: "nat \<Rightarrow> nat list" where
  "map_starts n = map (\<lambda>j. j * BPB) [0..<(n + BPB - 1) div BPB]"

definition map_bits :: "nat \<Rightarrow> nat \<Rightarrow> nat list" where
  "map_bits n b = [0..<min BPB (n - b)]"

fun balloc_from :: "uint \<Rightarrow> nat list \<Rightarrow> 'a fsk_scheme machine \<Rightarrow> ('a fsk_scheme machine, uint) outcome" where
  "balloc_from dev [] s = Panic ''balloc: out of blocks''"
| "balloc_from dev (b # bs) s =
     bindK (bread dev (BBLOCK (of_nat b) (the_sb (kern s))) s) (\<lambda>bp s.
       case find (bit_free (b_data (buf_at bp s))) (map_bits (unat (sb_size (the_sb (kern s)))) b) of
         Some bi \<Rightarrow>
           let s = set_data bp (\<lambda>d. bit_set d bi) s in
           bindK (log_write bp s) (\<lambda>_ s.
           bindK (brelse bp s) (\<lambda>_ s.
           bindK (bzero dev (of_nat (b + bi)) s) (\<lambda>_ s. Done (of_nat (b + bi)) s)))
       | None \<Rightarrow> bindK (brelse bp s) (\<lambda>_ s. balloc_from dev bs s))"

definition balloc :: "uint \<Rightarrow> 'a fsk_scheme machine \<Rightarrow> ('a fsk_scheme machine, uint) outcome" where
  "balloc dev s = balloc_from dev (map_starts (unat (sb_size (the_sb (kern s))))) s"

definition bfree :: "uint \<Rightarrow> uint \<Rightarrow> 'a fsk_scheme machine \<Rightarrow> ('a fsk_scheme machine, unit) outcome" where
  "bfree dev b s =
     bindK (bread dev (BBLOCK b (the_sb (kern s))) s) (\<lambda>bp s.
       let bi = unat b mod BPB in
       if bit_free (b_data (buf_at bp s)) bi then Panic ''freeing free block''
       else let s = set_data bp (\<lambda>d. bit_clear d bi) s in
            bindK (log_write bp s) (\<lambda>_ s. brelse bp s))"

section \<open>Inodes\<close>

fun init_inode_locks :: "nat list \<Rightarrow> 'a fsk_scheme machine \<Rightarrow> 'a fsk_scheme machine" where
  "init_inode_locks [] s = s"
| "init_inode_locks (i # is) s = init_inode_locks is (initsleeplock (Inode_sl i) ''inode'' s)"

definition iinit :: "uint \<Rightarrow> 'a fsk_scheme machine \<Rightarrow> ('a fsk_scheme machine, unit) outcome" where
  "iinit dev s =
     (let s = initlock Icache_lk ''icache'' s;
          s = init_inode_locks [0..<NINODE] s
      in bindK (readsb dev s) (\<lambda>sb s. Done () (upd_kern (\<lambda>k. k\<lparr>the_sb := sb\<rparr>) s)))"

definition iget :: "uint \<Rightarrow> uint \<Rightarrow> 'a fsk_scheme machine \<Rightarrow> ('a fsk_scheme machine, nat) outcome" where
  "iget dev inum s =
     bindK (acquire Icache_lk s) (\<lambda>_ s.
       case scan (\<lambda>ip. i_ref ip > 0 \<and> i_dev ip = dev \<and> i_inum ip = inum) (icache (kern s)) of
         Some i \<Rightarrow>
           let s = upd_inode i (\<lambda>ip. ip\<lparr>i_ref := i_ref ip + 1\<rparr>) s in
           bindK (release Icache_lk s) (\<lambda>_ s. Done i s)
       | None \<Rightarrow>
         (case scan (\<lambda>ip. i_ref ip = 0) (icache (kern s)) of
            None \<Rightarrow> Panic ''iget: no inodes''
          | Some i \<Rightarrow>
            let s = upd_inode i (\<lambda>ip. ip\<lparr>i_dev := dev\<rparr>) s;
                s = upd_inode i (\<lambda>ip. ip\<lparr>i_inum := inum\<rparr>) s;
                s = upd_inode i (\<lambda>ip. ip\<lparr>i_ref := 1\<rparr>) s;
                s = upd_inode i (\<lambda>ip. ip\<lparr>i_valid := False\<rparr>) s
            in bindK (release Icache_lk s) (\<lambda>_ s. Done i s)))"

text \<open>The position of an inode in its block.\<close>

definition dip_off :: "uint \<Rightarrow> nat" where
  "dip_off inum = (unat inum mod IPB) * sizeof_dinode"

fun ialloc_from :: "uint \<Rightarrow> ushort \<Rightarrow> uint list \<Rightarrow> 'a fsk_scheme machine \<Rightarrow>
    ('a fsk_scheme machine, nat) outcome" where
  "ialloc_from dev type [] s = Panic ''ialloc: no inodes''"
| "ialloc_from dev type (inum # rest) s =
     bindK (bread dev (IBLOCK inum (the_sb (kern s))) s) (\<lambda>bp s.
       if get16 (b_data (buf_at bp s)) (dip_off inum) = 0 then
         let s = set_data bp (\<lambda>d. splice d (dip_off inum) (replicate sizeof_dinode 0)) s;
             s = set_data bp (\<lambda>d. put16 d (dip_off inum) type) s
         in bindK (log_write bp s) (\<lambda>_ s.
            bindK (brelse bp s) (\<lambda>_ s. iget dev inum s))
       else bindK (brelse bp s) (\<lambda>_ s. ialloc_from dev type rest s))"

definition ialloc :: "uint \<Rightarrow> ushort \<Rightarrow> 'a fsk_scheme machine \<Rightarrow> ('a fsk_scheme machine, nat) outcome" where
  "ialloc dev type s =
     ialloc_from dev type (map of_nat [1..<unat (sb_ninodes (the_sb (kern s)))]) s"

fun enc_addrs :: "uint list \<Rightarrow> bytes" where
  "enc_addrs [] = []"
| "enc_addrs (a # as) = enc32 a @ enc_addrs as"

definition put_dinode :: "nat \<Rightarrow> inode \<Rightarrow> bytes \<Rightarrow> bytes" where
  "put_dinode i ip d =
     (let d = put16 d i (i_type ip);
          d = put16 d (i + 2) (i_major ip);
          d = put16 d (i + 4) (i_minor ip);
          d = put16 d (i + 6) (i_nlink ip);
          d = put32 d (i + 8) (i_size ip)
      in splice d (i + 12) (enc_addrs (i_addrs ip)))"

definition get_dinode :: "nat \<Rightarrow> bytes \<Rightarrow> inode \<Rightarrow> inode" where
  "get_dinode i d ip = ip\<lparr>i_type := get16 d i, i_major := get16 d (i + 2), i_minor := get16 d (i + 4),
     i_nlink := get16 d (i + 6), i_size := get32 d (i + 8),
     i_addrs := map (\<lambda>j. get32 d (i + 12 + 4 * j)) [0..<NDIRECT + 1]\<rparr>"

definition iupdate :: "nat \<Rightarrow> 'a fsk_scheme machine \<Rightarrow> ('a fsk_scheme machine, unit) outcome" where
  "iupdate i s =
     (let ip = inode_at i s in
      bindK (bread (i_dev ip) (IBLOCK (i_inum ip) (the_sb (kern s))) s) (\<lambda>bp s.
        let s = set_data bp (put_dinode (dip_off (i_inum ip)) (inode_at i s)) s in
        bindK (log_write bp s) (\<lambda>_ s. brelse bp s)))"

definition idup :: "nat \<Rightarrow> 'a fsk_scheme machine \<Rightarrow> ('a fsk_scheme machine, nat) outcome" where
  "idup i s =
     bindK (acquire Icache_lk s) (\<lambda>_ s.
       let s = upd_inode i (\<lambda>ip. ip\<lparr>i_ref := i_ref ip + 1\<rparr>) s in
       bindK (release Icache_lk s) (\<lambda>_ s. Done i s))"

definition ilock :: "nat option \<Rightarrow> 'a fsk_scheme machine \<Rightarrow> ('a fsk_scheme machine, unit) outcome" where
  "ilock oi s =
     (case oi of None \<Rightarrow> Panic ''ilock''
      | Some i \<Rightarrow>
        if i_ref (inode_at i s) < 1 then Panic ''ilock''
        else bindK (acquiresleep (Inode_sl i) s) (\<lambda>_ s.
          if \<not> i_valid (inode_at i s) then
            let ip = inode_at i s in
            bindK (bread (i_dev ip) (IBLOCK (i_inum ip) (the_sb (kern s))) s) (\<lambda>bp s.
            let s = upd_inode i (get_dinode (dip_off (i_inum ip)) (b_data (buf_at bp s))) s in
            bindK (brelse bp s) (\<lambda>_ s.
            let s = upd_inode i (\<lambda>ip. ip\<lparr>i_valid := True\<rparr>) s in
            if i_type (inode_at i s) = 0 then Panic ''ilock: no type'' else Done () s))
          else Done () s))"

definition iunlock :: "nat option \<Rightarrow> 'a fsk_scheme machine \<Rightarrow> ('a fsk_scheme machine, unit) outcome" where
  "iunlock oi s =
     (case oi of None \<Rightarrow> Panic ''iunlock''
      | Some i \<Rightarrow>
        bindK (holdingsleep (Inode_sl i) s) (\<lambda>h s.
          if \<not> h \<or> i_ref (inode_at i s) < 1 then Panic ''iunlock''
          else releasesleep (Inode_sl i) s))"

section \<open>Content of an inode\<close>

text \<open>\<^verbatim>\<open>bmap\<close>: the two cases of an allocation in \<open>ip->addrs\<close> and in the indirect block.\<close>

definition addr_or_alloc :: "nat \<Rightarrow> nat \<Rightarrow> 'a fsk_scheme machine \<Rightarrow> ('a fsk_scheme machine, uint) outcome" where
  "addr_or_alloc i j s =
     (let a = i_addrs (inode_at i s) ! j in
      if a = 0 then
        bindK (balloc (i_dev (inode_at i s)) s) (\<lambda>a s.
          Done a (upd_inode i (\<lambda>ip. ip\<lparr>i_addrs := (i_addrs ip)[j := a]\<rparr>) s))
      else Done a s)"

definition bmap :: "nat \<Rightarrow> uint \<Rightarrow> 'a fsk_scheme machine \<Rightarrow> ('a fsk_scheme machine, uint) outcome" where
  "bmap i bn s =
     (if bn < of_nat NDIRECT then addr_or_alloc i (unat bn) s
      else let bn = bn - of_nat NDIRECT in
        if bn < of_nat NINDIRECT then
          bindK (addr_or_alloc i NDIRECT s) (\<lambda>addr s.
          bindK (bread (i_dev (inode_at i s)) addr s) (\<lambda>bp s.
          let a = get32 (b_data (buf_at bp s)) (4 * unat bn) in
          bindK (if a = 0 then
                   bindK (balloc (i_dev (inode_at i s)) s) (\<lambda>a s.
                   let s = set_data bp (\<lambda>d. put32 d (4 * unat bn) a) s in
                   bindK (log_write bp s) (\<lambda>_ s. Done a s))
                 else Done a s) (\<lambda>a s.
          bindK (brelse bp s) (\<lambda>_ s. Done a s))))
        else Panic ''bmap: out of range'')"

fun free_direct :: "nat \<Rightarrow> nat list \<Rightarrow> 'a fsk_scheme machine \<Rightarrow> ('a fsk_scheme machine, unit) outcome" where
  "free_direct i [] s = Done () s"
| "free_direct i (j # js) s =
     (let a = i_addrs (inode_at i s) ! j in
      if a \<noteq> 0 then
        bindK (bfree (i_dev (inode_at i s)) a s) (\<lambda>_ s.
          free_direct i js (upd_inode i (\<lambda>ip. ip\<lparr>i_addrs := (i_addrs ip)[j := 0]\<rparr>) s))
      else free_direct i js s)"

fun free_indirect :: "nat \<Rightarrow> nat \<Rightarrow> nat list \<Rightarrow> 'a fsk_scheme machine \<Rightarrow> ('a fsk_scheme machine, unit) outcome" where
  "free_indirect i bp [] s = Done () s"
| "free_indirect i bp (j # js) s =
     (let a = get32 (b_data (buf_at bp s)) (4 * j) in
      if a \<noteq> 0 then bindK (bfree (i_dev (inode_at i s)) a s) (\<lambda>_ s. free_indirect i bp js s)
      else free_indirect i bp js s)"

definition itrunc :: "nat \<Rightarrow> 'a fsk_scheme machine \<Rightarrow> ('a fsk_scheme machine, unit) outcome" where
  "itrunc i s =
     bindK (free_direct i [0..<NDIRECT] s) (\<lambda>_ s.
     bindK (if i_addrs (inode_at i s) ! NDIRECT \<noteq> 0 then
              bindK (bread (i_dev (inode_at i s)) (i_addrs (inode_at i s) ! NDIRECT) s) (\<lambda>bp s.
              bindK (free_indirect i bp [0..<NINDIRECT] s) (\<lambda>_ s.
              bindK (brelse bp s) (\<lambda>_ s.
              bindK (bfree (i_dev (inode_at i s)) (i_addrs (inode_at i s) ! NDIRECT) s) (\<lambda>_ s.
              Done () (upd_inode i (\<lambda>ip. ip\<lparr>i_addrs := (i_addrs ip)[NDIRECT := 0]\<rparr>) s)))))
            else Done () s) (\<lambda>_ s.
     iupdate i (upd_inode i (\<lambda>ip. ip\<lparr>i_size := 0\<rparr>) s)))"

definition iput :: "nat \<Rightarrow> 'a fsk_scheme machine \<Rightarrow> ('a fsk_scheme machine, unit) outcome" where
  "iput i s =
     bindK (acquiresleep (Inode_sl i) s) (\<lambda>_ s.
     bindK (if i_valid (inode_at i s) \<and> i_nlink (inode_at i s) = 0 then
              bindK (acquire Icache_lk s) (\<lambda>_ s.
              let r = i_ref (inode_at i s) in
              bindK (release Icache_lk s) (\<lambda>_ s.
                if r = 1 then
                  bindK (itrunc i s) (\<lambda>_ s.
                  let s = upd_inode i (\<lambda>ip. ip\<lparr>i_type := 0\<rparr>) s in
                  bindK (iupdate i s) (\<lambda>_ s.
                  Done () (upd_inode i (\<lambda>ip. ip\<lparr>i_valid := False\<rparr>) s)))
                else Done () s))
            else Done () s) (\<lambda>_ s.
     bindK (releasesleep (Inode_sl i) s) (\<lambda>_ s.
     bindK (acquire Icache_lk s) (\<lambda>_ s.
     release Icache_lk (upd_inode i (\<lambda>ip. ip\<lparr>i_ref := i_ref ip - 1\<rparr>) s)))))"

definition iunlockput :: "nat \<Rightarrow> 'a fsk_scheme machine \<Rightarrow> ('a fsk_scheme machine, unit) outcome" where
  "iunlockput i s = bindK (iunlock (Some i) s) (\<lambda>_ s. iput i s)"

record stat =
  st_type :: ushort
  st_dev :: uint
  st_ino :: uint
  st_nlink :: ushort
  st_size :: uint

definition stati :: "nat \<Rightarrow> 'a fsk_scheme machine \<Rightarrow> stat" where
  "stati i s = \<lparr>st_type = i_type (inode_at i s), st_dev = i_dev (inode_at i s), st_ino = i_inum (inode_at i s),
     st_nlink = i_nlink (inode_at i s), st_size = i_size (inode_at i s)\<rparr>"

end
