(* ===== verification/Console.thy ===== *)
theory Console
  imports Inode
begin

unbundle bit_operations_syntax

text \<open>
  The console (\<^verbatim>\<open>console.c\<close>), with the output side of \<^verbatim>\<open>uart.c\<close>. The screen is the array of
  16-bit cells at the CGA address and the cursor register that two ports give byte by byte; the
  serial line is the sequence of bytes written to it. \<^verbatim>\<open>cprintf\<close> takes its arguments as a list
  of numbers and strings; all calls of the kernel pass what their format asks for. The
  interrupt handler takes the characters that the device's \<^verbatim>\<open>getc\<close> returns before its first
  negative result. \<^verbatim>\<open>consoleread\<close> is cut at its \<^verbatim>\<open>sleep\<close>; the bytes it stores at \<^verbatim>\<open>dst\<close> are part
  of its result.
\<close>

section \<open>State\<close>

definition INPUT_BUF :: nat where "INPUT_BUF = 128"
definition BACKSPACE :: int where "BACKSPACE = 0x100"
definition CONSOLE :: nat where "CONSOLE = 1"

datatype devread = Consoleread
datatype devwrite = Consolewrite

record devsw_entry =
  d_read :: "devread option"
  d_write :: "devwrite option"

record consk = fsk +
  panicked :: bool
  cons_locking :: bool
  uart_on :: bool
  uart_out :: "uchar list"
  crt :: "nat \<Rightarrow> ushort"
  cursor :: ushort
  in_buf :: "uchar list"
  in_r :: uint
  in_w :: uint
  in_e :: uint
  devsw :: "devsw_entry list"

section \<open>Output\<close>

definition uartputc :: "int \<Rightarrow> 'a consk_scheme machine \<Rightarrow> 'a consk_scheme machine" where
  "uartputc c = upd_kern (\<lambda>k. if uart_on k then k\<lparr>uart_out := uart_out k @ [of_int c]\<rparr> else k)"

text \<open>A screen cell: the character in white on black.\<close>

definition cell :: "int \<Rightarrow> ushort" where
  "cell c = (of_int c AND 0xFF) OR 0x0700"

definition cgaputc :: "int \<Rightarrow> 'a consk_scheme machine \<Rightarrow> ('a consk_scheme machine, unit) outcome" where
  "cgaputc c s =
     (let pos = uint (cursor (kern s));
          (pos, s) =
            (if c = 10 then (pos + (80 - pos mod 80), s)
             else if c = BACKSPACE then (if pos > 0 then pos - 1 else pos, s)
             else (pos + 1, upd_kern (\<lambda>k. k\<lparr>crt := (crt k)(nat pos := cell c)\<rparr>) s))
      in if pos < 0 \<or> pos > 25 * 80 then Panic ''pos under/overflow''
         else let (pos, s) =
                (if pos div 80 \<ge> 24 then
                   let s = upd_kern (\<lambda>k. k\<lparr>crt := (\<lambda>i. if i < 23 * 80 then crt k (i + 80) else crt k i)\<rparr>) s;
                       pos = pos - 80
                   in (pos, upd_kern (\<lambda>k. k\<lparr>crt := (\<lambda>i. if nat pos \<le> i \<and> i < 24 * 80 then 0 else crt k i)\<rparr>) s)
                 else (pos, s));
                s = upd_kern (\<lambda>k. k\<lparr>cursor := of_int pos\<rparr>) s
              in Done () (upd_kern (\<lambda>k. k\<lparr>crt := (crt k)(nat pos := cell 32)\<rparr>) s))"

definition consputc :: "int \<Rightarrow> 'a consk_scheme machine \<Rightarrow> ('a consk_scheme machine, unit) outcome" where
  "consputc c s =
     (if panicked (kern s) then Spin (cli s)
      else let s = (if c = BACKSPACE then uartputc 8 (uartputc 32 (uartputc 8 s)) else uartputc c s)
           in cgaputc c s)"

fun consputs :: "int list \<Rightarrow> 'a consk_scheme machine \<Rightarrow> ('a consk_scheme machine, unit) outcome" where
  "consputs [] s = Done () s"
| "consputs (c # cs) s = bindK (consputc c s) (\<lambda>_ s. consputs cs s)"

definition codes :: "string \<Rightarrow> int list" where
  "codes cs = map of_char cs"

text \<open>
  \<^verbatim>\<open>printint\<close>: the digits from the last to the first. The recursion is bounded by the sixteen
  bytes of \<^verbatim>\<open>buf\<close>; a 32-bit number has at most ten decimal or eight hexadecimal digits.
\<close>

definition digits :: "int list" where
  "digits = codes ''0123456789abcdef''"

fun digit_loop :: "nat \<Rightarrow> int list \<Rightarrow> uint \<Rightarrow> uint \<Rightarrow> int list" where
  "digit_loop 0 ds base x = []"
| "digit_loop (Suc n) ds base x =
     ds ! unat (x mod base) # (if x div base \<noteq> 0 then digit_loop n ds base (x div base) else [])"

definition int_chars :: "int list \<Rightarrow> uint \<Rightarrow> uint \<Rightarrow> bool \<Rightarrow> int list" where
  "int_chars ds xx base neg = rev (digit_loop 16 ds base (if neg then - xx else xx) @ (if neg then [of_char (CHR ''-'')] else []))"

definition printint :: "uint \<Rightarrow> uint \<Rightarrow> bool \<Rightarrow> 'a consk_scheme machine \<Rightarrow> ('a consk_scheme machine, unit) outcome" where
  "printint xx base sg s = consputs (int_chars digits xx base (sg \<and> sint xx < 0)) s"

datatype parg = Num uint | Str "int list" | Null_str

fun cprintf_loop :: "string \<Rightarrow> parg list \<Rightarrow> 'a consk_scheme machine \<Rightarrow> ('a consk_scheme machine, unit) outcome" where
  "cprintf_loop [] args s = Done () s"
| "cprintf_loop [c] args s = (if c \<noteq> CHR ''%'' then consputc (of_char c) s else Done () s)"
| "cprintf_loop (c # d # fmt) args s =
     (if c \<noteq> CHR ''%'' then bindK (consputc (of_char c) s) (\<lambda>_ s. cprintf_loop (d # fmt) args s)
      else if d = CHR ''d'' then
        (case args of Num x # args \<Rightarrow> bindK (printint x 10 True s) (\<lambda>_ s. cprintf_loop fmt args s)
         | _ \<Rightarrow> Panic ''cprintf argument'')
      else if d = CHR ''x'' \<or> d = CHR ''p'' then
        (case args of Num x # args \<Rightarrow> bindK (printint x 16 False s) (\<lambda>_ s. cprintf_loop fmt args s)
         | _ \<Rightarrow> Panic ''cprintf argument'')
      else if d = CHR ''s'' then
        (case args of Str cs # args \<Rightarrow> bindK (consputs cs s) (\<lambda>_ s. cprintf_loop fmt args s)
         | Null_str # args \<Rightarrow> bindK (consputs (codes ''(null)'') s) (\<lambda>_ s. cprintf_loop fmt args s)
         | _ \<Rightarrow> Panic ''cprintf argument'')
      else if d = CHR ''%'' then bindK (consputc (of_char d) s) (\<lambda>_ s. cprintf_loop fmt args s)
      else bindK (consputc (of_char c) s) (\<lambda>_ s.
           bindK (consputc (of_char d) s) (\<lambda>_ s. cprintf_loop fmt args s)))"

definition cprintf :: "string \<Rightarrow> parg list \<Rightarrow> 'a consk_scheme machine \<Rightarrow> ('a consk_scheme machine, unit) outcome" where
  "cprintf fmt args s =
     (let locking = cons_locking (kern s) in
      bindK (if locking then acquire Cons_lk s else Done () s) (\<lambda>_ s.
      bindK (cprintf_loop fmt args s) (\<lambda>_ s.
      if locking then release Cons_lk s else Done () s)))"

section \<open>Input\<close>

definition slot :: "uint \<Rightarrow> nat" where
  "slot i = unat i mod INPUT_BUF"

definition ctl :: "char \<Rightarrow> int" where
  "ctl c = of_char c - of_char (CHR ''@'')"

fun kill_line :: "nat \<Rightarrow> 'a consk_scheme machine \<Rightarrow> ('a consk_scheme machine, unit) outcome" where
  "kill_line 0 s = Done () s"
| "kill_line (Suc n) s =
     (if in_e (kern s) \<noteq> in_w (kern s) \<and> in_buf (kern s) ! slot (in_e (kern s) - 1) \<noteq> 10 then
        let s = upd_kern (\<lambda>k. k\<lparr>in_e := in_e k - 1\<rparr>) s in
        bindK (consputc BACKSPACE s) (\<lambda>_ s. kill_line n s)
      else Done () s)"

text \<open>One character: the \<^verbatim>\<open>switch\<close> of \<^verbatim>\<open>consoleintr\<close>. The result says whether a process listing is due.\<close>

definition consoleintr_char :: "int \<Rightarrow> 'a consk_scheme machine \<Rightarrow> ('a consk_scheme machine, bool) outcome" where
  "consoleintr_char c s =
     (if c = ctl (CHR ''P'') then Done True s
      else if c = ctl (CHR ''U'') then
        bindK (kill_line (unat (in_e (kern s) - in_w (kern s))) s) (\<lambda>_ s. Done False s)
      else if c = ctl (CHR ''H'') \<or> c = 0x7F then
        if in_e (kern s) \<noteq> in_w (kern s) then
          let s = upd_kern (\<lambda>k. k\<lparr>in_e := in_e k - 1\<rparr>) s in
          bindK (consputc BACKSPACE s) (\<lambda>_ s. Done False s)
        else Done False s
      else if c \<noteq> 0 \<and> in_e (kern s) - in_r (kern s) < of_nat INPUT_BUF then
        let c = (if c = 13 then 10 else c);
            s = upd_kern (\<lambda>k. k\<lparr>in_buf := (in_buf k)[slot (in_e k) := of_int c]\<rparr>) s;
            s = upd_kern (\<lambda>k. k\<lparr>in_e := in_e k + 1\<rparr>) s
        in bindK (consputc c s) (\<lambda>_ s.
           if c = 10 \<or> c = ctl (CHR ''D'') \<or> in_e (kern s) = in_r (kern s) + of_nat INPUT_BUF then
             let s = upd_kern (\<lambda>k. k\<lparr>in_w := in_e k\<rparr>) s in
             bindK (wakeup Input_ch s) (\<lambda>_ s. Done False s)
           else Done False s)
      else Done False s)"

fun consoleintr_loop :: "int list \<Rightarrow> bool \<Rightarrow> 'a consk_scheme machine \<Rightarrow> ('a consk_scheme machine, bool) outcome" where
  "consoleintr_loop [] dump s = Done dump s"
| "consoleintr_loop (c # cs) dump s =
     bindK (consoleintr_char c s) (\<lambda>d s. consoleintr_loop cs (dump \<or> d) s)"

text \<open>The listing \<^verbatim>\<open>procdump\<close> prints.\<close>

fun callerpcs :: "nat \<Rightarrow> memory \<Rightarrow> addr \<Rightarrow> uint list" where
  "callerpcs 0 m ebp = []"
| "callerpcs (Suc n) m ebp =
     (if ebp = 0 \<or> ebp < KERNBASE \<or> ebp = 0xFFFFFFFF then replicate (Suc n) 0
      else read32 m (ebp + 4) # callerpcs n m (read32 m ebp))"

definition getcallerpcs :: "memory \<Rightarrow> addr \<Rightarrow> uint list" where
  "getcallerpcs m v = callerpcs 10 m (v - 8)"

fun statename :: "procstate \<Rightarrow> string" where
  "statename UNUSED = ''unused''"
| "statename EMBRYO = ''embryo''"
| "statename SLEEPING = ''sleep ''"
| "statename RUNNABLE = ''runble''"
| "statename RUNNING = ''run   ''"
| "statename ZOMBIE = ''zombie''"

fun dump_pcs :: "uint list \<Rightarrow> 'a consk_scheme machine \<Rightarrow> ('a consk_scheme machine, unit) outcome" where
  "dump_pcs [] s = Done () s"
| "dump_pcs (pc # pcs) s =
     (if pc \<noteq> 0 then bindK (cprintf '' %p'' [Num pc] s) (\<lambda>_ s. dump_pcs pcs s) else Done () s)"

fun procdump_from :: "nat list \<Rightarrow> 'a consk_scheme machine \<Rightarrow> ('a consk_scheme machine, unit) outcome" where
  "procdump_from [] s = Done () s"
| "procdump_from (i # is) s =
     (let p = proc_at i s in
      if p_state p = UNUSED then procdump_from is s
      else bindK (cprintf ''%d %s %s'' [Num (of_int (p_pid p)), Str (codes (statename (p_state p))),
             Str (map sint (p_name p))] s) (\<lambda>_ s.
        bindK (if p_state p = SLEEPING
               then dump_pcs (getcallerpcs (mem (kern s)) (read32 (mem (kern s)) (p_context p + 12) + 8)) s
               else Done () s) (\<lambda>_ s.
        bindK (cprintf [CHR 0x0A] [] s) (\<lambda>_ s. procdump_from is s))))"

definition procdump :: "'a consk_scheme machine \<Rightarrow> ('a consk_scheme machine, unit) outcome" where
  "procdump s = procdump_from [0..<length (ptable (kern s))] s"

definition consoleintr :: "int list \<Rightarrow> 'a consk_scheme machine \<Rightarrow> ('a consk_scheme machine, unit) outcome" where
  "consoleintr cs s =
     bindK (acquire Cons_lk s) (\<lambda>_ s.
     bindK (consoleintr_loop cs False s) (\<lambda>dump s.
     bindK (release Cons_lk s) (\<lambda>_ s.
     if dump then procdump s else Done () s)))"

section \<open>The console device\<close>

definition console_done :: "nat \<Rightarrow> int \<Rightarrow> bytes \<Rightarrow> 'a consk_scheme machine \<Rightarrow>
    ('a consk_scheme machine, int \<times> bytes) outcome" where
  "console_done i r bs s =
     bindK (release Cons_lk s) (\<lambda>_ s. bindK (ilock (Some i) s) (\<lambda>_ s. Done (r, bs) s))"

text \<open>The loop of \<^verbatim>\<open>consoleread\<close> with \<open>n\<close> bytes to go and \<open>bs\<close> stored already.\<close>

fun consoleread_loop :: "nat \<Rightarrow> nat \<Rightarrow> bytes \<Rightarrow> 'a consk_scheme machine \<Rightarrow>
    ('a consk_scheme machine, int \<times> bytes) outcome" where
  "consoleread_loop i 0 bs s = console_done i (int (length bs)) bs s"
| "consoleread_loop i (Suc n) bs s =
     (if in_r (kern s) = in_w (kern s) then
        bindK (myproc s) (\<lambda>p s.
          case p of None \<Rightarrow> Panic ''trap''
          | Some me \<Rightarrow>
            if p_killed (proc_at me s) then console_done i (- 1) bs s
            else bindK (sleep Input_ch (Some Cons_lk) s) (\<lambda>_ s. Done (0, bs) s))
      else
        let c = in_buf (kern s) ! slot (in_r (kern s));
            s = upd_kern (\<lambda>k. k\<lparr>in_r := in_r k + 1\<rparr>) s
        in if c = of_int (ctl (CHR ''D'')) then
             let s = (if bs \<noteq> [] then upd_kern (\<lambda>k. k\<lparr>in_r := in_r k - 1\<rparr>) s else s)
             in console_done i (int (length bs)) bs s
           else if c = 10 then console_done i (int (length bs + 1)) (bs @ [c]) s
           else consoleread_loop i n (bs @ [c]) s)"

definition consoleread :: "nat \<Rightarrow> int \<Rightarrow> 'a consk_scheme machine \<Rightarrow>
    ('a consk_scheme machine, int \<times> bytes) outcome" where
  "consoleread i n s =
     bindK (iunlock (Some i) s) (\<lambda>_ s.
     bindK (acquire Cons_lk s) (\<lambda>_ s.
       if n > 0 then consoleread_loop i (nat n) [] s else console_done i 0 [] s))"

definition consoleread_resume :: "bool \<Rightarrow> nat \<Rightarrow> nat \<Rightarrow> nat \<Rightarrow> bytes \<Rightarrow> 'a consk_scheme machine \<Rightarrow>
    ('a consk_scheme machine, int \<times> bytes) outcome" where
  "consoleread_resume en me i n bs s =
     bindK (sleep_resume en me Cons_lk s) (\<lambda>_ s. consoleread_loop i n bs s)"

definition consolewrite :: "nat \<Rightarrow> bytes \<Rightarrow> 'a consk_scheme machine \<Rightarrow> ('a consk_scheme machine, int) outcome" where
  "consolewrite i bs s =
     bindK (iunlock (Some i) s) (\<lambda>_ s.
     bindK (acquire Cons_lk s) (\<lambda>_ s.
     bindK (consputs (map uint bs) s) (\<lambda>_ s.
     bindK (release Cons_lk s) (\<lambda>_ s.
     bindK (ilock (Some i) s) (\<lambda>_ s. Done (int (length bs)) s)))))"

definition consoleinit :: "'a consk_scheme machine \<Rightarrow> 'a consk_scheme machine" where
  "consoleinit s =
     (let s = initlock Cons_lk ''console'' s;
          s = upd_kern (\<lambda>k. k\<lparr>devsw := (devsw k)[CONSOLE := (devsw k ! CONSOLE)\<lparr>d_write := Some Consolewrite\<rparr>]\<rparr>) s;
          s = upd_kern (\<lambda>k. k\<lparr>devsw := (devsw k)[CONSOLE := (devsw k ! CONSOLE)\<lparr>d_read := Some Consoleread\<rparr>]\<rparr>) s
      in upd_kern (\<lambda>k. k\<lparr>cons_locking := True\<rparr>) s)"

end
