(* ===== verification/Fs.thy ===== *)
theory Fs
  imports Console
begin

unbundle bit_operations_syntax

text \<open>
  Reading and writing files, directories and paths (the second half of \<^verbatim>\<open>fs.c\<close>). The bytes that
  \<^verbatim>\<open>readi\<close> stores at \<^verbatim>\<open>dst\<close> are part of its result; \<^verbatim>\<open>writei\<close> takes the bytes at \<^verbatim>\<open>src\<close>. A
  path is its bytes before the NUL; a name in a directory is the array of fourteen bytes of
  \<^verbatim>\<open>struct dirent\<close>.
\<close>

section \<open>Reading and writing\<close>

definition devsw_at :: "nat \<Rightarrow> 'a consk_scheme machine \<Rightarrow> devsw_entry option" where
  "devsw_at i s =
     (let mj = sint (i_major (inode_at i s)) in
      if mj < 0 \<or> mj \<ge> int NDEV then None else Some (devsw (kern s) ! nat mj))"

text \<open>The bytes of one step: the rest of the request or the rest of the block.\<close>

definition step_len :: "nat \<Rightarrow> uint \<Rightarrow> nat" where
  "step_len rem off = min rem (BSIZE - unat off mod BSIZE)"

lemma step_len_pos: "0 < rem \<Longrightarrow> 0 < step_len rem off"
  by (simp add: step_len_def BSIZE_def)

function readi_loop :: "nat \<Rightarrow> uint \<Rightarrow> nat \<Rightarrow> bytes \<Rightarrow> 'a consk_scheme machine \<Rightarrow>
    ('a consk_scheme machine, bytes) outcome" where
  "readi_loop i off rem acc s =
     (if rem = 0 then Done acc s
      else bindK (bmap i (off div of_nat BSIZE) s) (\<lambda>bn s.
           bindK (bread (i_dev (inode_at i s)) bn s) (\<lambda>bp s.
           let m = step_len rem off;
               part = slice (b_data (buf_at bp s)) (unat off mod BSIZE) m
           in bindK (brelse bp s) (\<lambda>_ s. readi_loop i (off + of_nat m) (rem - m) (acc @ part) s))))"
  by pat_completeness auto
termination
  by (relation "measure (\<lambda>(i, off, rem, acc, s). rem)") (auto simp: step_len_pos)

definition readi :: "nat \<Rightarrow> uint \<Rightarrow> uint \<Rightarrow> 'a consk_scheme machine \<Rightarrow>
    ('a consk_scheme machine, int \<times> bytes) outcome" where
  "readi i off n s =
     (if i_type (inode_at i s) = T_DEV then
        (case devsw_at i s of
           None \<Rightarrow> Done (- 1, []) s
         | Some d \<Rightarrow> (case d_read d of None \<Rightarrow> Done (- 1, []) s | Some Consoleread \<Rightarrow> consoleread i (sint n) s))
      else if off > i_size (inode_at i s) \<or> off + n < off then Done (- 1, []) s
      else let n = (if off + n > i_size (inode_at i s) then i_size (inode_at i s) - off else n)
           in bindK (readi_loop i off (unat n) [] s) (\<lambda>bs s. Done (sint n, bs) s))"

function writei_loop :: "nat \<Rightarrow> uint \<Rightarrow> bytes \<Rightarrow> 'a consk_scheme machine \<Rightarrow>
    ('a consk_scheme machine, uint) outcome" where
  "writei_loop i off src s =
     (if src = [] then Done off s
      else bindK (bmap i (off div of_nat BSIZE) s) (\<lambda>bn s.
           bindK (bread (i_dev (inode_at i s)) bn s) (\<lambda>bp s.
           let m = step_len (length src) off;
               s = set_data bp (\<lambda>d. splice d (unat off mod BSIZE) (take m src)) s
           in bindK (log_write bp s) (\<lambda>_ s.
              bindK (brelse bp s) (\<lambda>_ s. writei_loop i (off + of_nat m) (drop m src) s)))))"
  by pat_completeness auto
termination
  by (relation "measure (\<lambda>(i, off, src, s). length src)") (auto simp: step_len_pos)

definition writei :: "nat \<Rightarrow> bytes \<Rightarrow> uint \<Rightarrow> 'a consk_scheme machine \<Rightarrow>
    ('a consk_scheme machine, int) outcome" where
  "writei i src off s =
     (let n = of_nat (length src) in
      if i_type (inode_at i s) = T_DEV then
        (case devsw_at i s of
           None \<Rightarrow> Done (- 1) s
         | Some d \<Rightarrow> (case d_write d of None \<Rightarrow> Done (- 1) s | Some Consolewrite \<Rightarrow> consolewrite i src s))
      else if off > i_size (inode_at i s) \<or> off + n < off then Done (- 1) s
      else if off + n > of_nat (MAXFILE * BSIZE) then Done (- 1) s
      else bindK (writei_loop i off src s) (\<lambda>off s.
        if n > 0 \<and> off > i_size (inode_at i s) then
          let s = upd_inode i (\<lambda>ip. ip\<lparr>i_size := off\<rparr>) s in
          bindK (iupdate i s) (\<lambda>_ s. Done (sint n) s)
        else Done (sint n) s))"

section \<open>Directories\<close>

definition DIRSIZ :: nat where "DIRSIZ = 14"
definition sizeof_dirent :: nat where "sizeof_dirent = 2 + DIRSIZ"

text \<open>The first byte of a NUL-terminated string given by its bytes before the NUL.\<close>

definition byte0 :: "bytes \<Rightarrow> uchar" where
  "byte0 p = (case p of [] \<Rightarrow> 0 | c # _ \<Rightarrow> c)"

fun str_ncmp :: "nat \<Rightarrow> bytes \<Rightarrow> bytes \<Rightarrow> int" where
  "str_ncmp 0 p q = 0"
| "str_ncmp (Suc n) p q =
     (if byte0 p \<noteq> 0 \<and> byte0 p = byte0 q then str_ncmp n (tl p) (tl q) else uint (byte0 p) - uint (byte0 q))"

definition namecmp :: "bytes \<Rightarrow> bytes \<Rightarrow> int" where
  "namecmp p q = str_ncmp DIRSIZ p q"

fun str_ncpy :: "nat \<Rightarrow> bytes \<Rightarrow> bytes" where
  "str_ncpy 0 t = []"
| "str_ncpy (Suc n) t = (if byte0 t \<noteq> 0 then byte0 t # str_ncpy n (tl t) else replicate (Suc n) 0)"

definition de_inum :: "bytes \<Rightarrow> ushort" where "de_inum de = get16 de 0"
definition de_name :: "bytes \<Rightarrow> bytes" where "de_name de = slice de 2 DIRSIZ"

text \<open>The offsets a loop over a directory of \<open>n\<close> bytes visits, and the one it ends at.\<close>

definition dir_offs :: "nat \<Rightarrow> uint list" where
  "dir_offs n = map (\<lambda>j. of_nat (sizeof_dirent * j)) [0..<(n + sizeof_dirent - 1) div sizeof_dirent]"

definition dir_end :: "nat \<Rightarrow> uint" where
  "dir_end n = of_nat (sizeof_dirent * ((n + sizeof_dirent - 1) div sizeof_dirent))"

fun dirlookup_from :: "nat \<Rightarrow> bytes \<Rightarrow> uint list \<Rightarrow> 'a consk_scheme machine \<Rightarrow>
    ('a consk_scheme machine, (nat \<times> uint) option) outcome" where
  "dirlookup_from d name [] s = Done None s"
| "dirlookup_from d name (off # offs) s =
     bindK (readi d off (of_nat sizeof_dirent) s) (\<lambda>(r, de) s.
       if r \<noteq> int sizeof_dirent then Panic ''dirlookup read''
       else if de_inum de = 0 then dirlookup_from d name offs s
       else if namecmp name (de_name de) = 0 then
         bindK (iget (i_dev (inode_at d s)) (ucast (de_inum de)) s) (\<lambda>i s. Done (Some (i, off)) s)
       else dirlookup_from d name offs s)"

definition dirlookup :: "nat \<Rightarrow> bytes \<Rightarrow> 'a consk_scheme machine \<Rightarrow>
    ('a consk_scheme machine, (nat \<times> uint) option) outcome" where
  "dirlookup d name s =
     (if i_type (inode_at d s) \<noteq> T_DIR then Panic ''dirlookup not DIR''
      else dirlookup_from d name (dir_offs (unat (i_size (inode_at d s)))) s)"

fun dirlink_slot :: "nat \<Rightarrow> uint list \<Rightarrow> uint \<Rightarrow> 'a consk_scheme machine \<Rightarrow>
    ('a consk_scheme machine, uint) outcome" where
  "dirlink_slot d [] fin s = Done fin s"
| "dirlink_slot d (off # offs) fin s =
     bindK (readi d off (of_nat sizeof_dirent) s) (\<lambda>(r, de) s.
       if r \<noteq> int sizeof_dirent then Panic ''dirlink read''
       else if de_inum de = 0 then Done off s else dirlink_slot d offs fin s)"

definition dirlink :: "nat \<Rightarrow> bytes \<Rightarrow> uint \<Rightarrow> 'a consk_scheme machine \<Rightarrow>
    ('a consk_scheme machine, int) outcome" where
  "dirlink d name inum s =
     bindK (dirlookup d name s) (\<lambda>r s.
       case r of
         Some (ip, _) \<Rightarrow> bindK (iput ip s) (\<lambda>_ s. Done (- 1) s)
       | None \<Rightarrow>
         let n = unat (i_size (inode_at d s)) in
         bindK (dirlink_slot d (dir_offs n) (dir_end n) s) (\<lambda>off s.
         let de = enc16 (ucast inum) @ str_ncpy DIRSIZ name in
         bindK (writei d de off s) (\<lambda>r s.
           if r \<noteq> int sizeof_dirent then Panic ''dirlink'' else Done 0 s)))"

section \<open>Paths\<close>

definition slash :: uchar where "slash = 47"

definition skipelem :: "bytes \<Rightarrow> bytes \<Rightarrow> (bytes \<times> bytes) option" where
  "skipelem path name =
     (let path = dropWhile (\<lambda>c. c = slash) path in
      if path = [] then None
      else let elem = takeWhile (\<lambda>c. c \<noteq> slash) path;
               path = dropWhile (\<lambda>c. c \<noteq> slash) path;
               name = (if length elem \<ge> DIRSIZ then splice name 0 (take DIRSIZ elem)
                       else splice name 0 (elem @ [0]))
           in Some (dropWhile (\<lambda>c. c = slash) path, name))"

lemma skipelem_shorter: "skipelem path name = Some (path', name') \<Longrightarrow> length path' < length path"
proof -
  assume a: "skipelem path name = Some (path', name')"
  define p where "p = dropWhile (\<lambda>c. c = slash) path"
  have p: "p \<noteq> []" "path' = dropWhile (\<lambda>c. c = slash) (dropWhile (\<lambda>c. c \<noteq> slash) p)"
    using a by (auto simp: skipelem_def p_def Let_def split: if_splits)
  have "hd p \<noteq> slash" using p(1) hd_dropWhile [of "\<lambda>c. c = slash" path] by (simp add: p_def)
  then have "length (dropWhile (\<lambda>c. c \<noteq> slash) p) < length p"
    using p(1) by (cases p) (auto simp: le_imp_less_Suc length_dropWhile_le)
  moreover have "length p \<le> length path" by (simp add: p_def length_dropWhile_le)
  ultimately show ?thesis
    unfolding p(2) using length_dropWhile_le [of "\<lambda>c. c = slash" "dropWhile (\<lambda>c. c \<noteq> slash) p"] by linarith
qed

function namex_loop :: "nat \<Rightarrow> bytes \<Rightarrow> bool \<Rightarrow> bytes \<Rightarrow> 'a consk_scheme machine \<Rightarrow>
    ('a consk_scheme machine, nat option \<times> bytes) outcome" where
  "namex_loop ip path parent name s =
     (case skipelem path name of
        None \<Rightarrow>
          if parent then bindK (iput ip s) (\<lambda>_ s. Done (None, name) s) else Done (Some ip, name) s
      | Some (path', name') \<Rightarrow>
        bindK (ilock (Some ip) s) (\<lambda>_ s.
          if i_type (inode_at ip s) \<noteq> T_DIR then
            bindK (iunlockput ip s) (\<lambda>_ s. Done (None, name') s)
          else if parent \<and> path' = [] then
            bindK (iunlock (Some ip) s) (\<lambda>_ s. Done (Some ip, name') s)
          else bindK (dirlookup ip name' s) (\<lambda>r s.
            case r of
              None \<Rightarrow> bindK (iunlockput ip s) (\<lambda>_ s. Done (None, name') s)
            | Some (nxt, _) \<Rightarrow>
              bindK (iunlockput ip s) (\<lambda>_ s. namex_loop nxt path' parent name' s))))"
  by pat_completeness auto
termination
  by (relation "measure (\<lambda>(ip, path, parent, name, s). length path)") (auto dest: skipelem_shorter)

definition namex :: "bytes \<Rightarrow> bool \<Rightarrow> bytes \<Rightarrow> 'a consk_scheme machine \<Rightarrow>
    ('a consk_scheme machine, nat option \<times> bytes) outcome" where
  "namex path parent name s =
     bindK (if byte0 path = slash then iget ROOTDEV ROOTINO s
            else bindK (myproc s) (\<lambda>p s.
              case p of None \<Rightarrow> Panic ''trap''
              | Some me \<Rightarrow> (case p_cwd (proc_at me s) of None \<Rightarrow> Panic ''trap'' | Some c \<Rightarrow> idup c s))) (\<lambda>ip s.
     namex_loop ip path parent name s)"

text \<open>The array that \<^verbatim>\<open>namei\<close> passes is not initialised; its contents are never used.\<close>

definition namei :: "bytes \<Rightarrow> 'a consk_scheme machine \<Rightarrow> ('a consk_scheme machine, nat option) outcome" where
  "namei path s = bindK (namex path False (replicate DIRSIZ 0) s) (\<lambda>(ip, _) s. Done ip s)"

definition nameiparent :: "bytes \<Rightarrow> 'a consk_scheme machine \<Rightarrow>
    ('a consk_scheme machine, nat option \<times> bytes) outcome" where
  "nameiparent path s = namex path True (replicate DIRSIZ 0) s"

end
