(* ===== verification/File.thy ===== *)
theory File
  imports Fs
begin

unbundle bit_operations_syntax

text \<open>
  Open files (\<^verbatim>\<open>file.c\<close>) and pipes (\<^verbatim>\<open>pipe.c\<close>). A pipe lives in a page of its own and is named
  by the address of that page; using a pipe whose page has been freed is a panic here. The
  loops of \<^verbatim>\<open>pipewrite\<close> and \<^verbatim>\<open>piperead\<close> are cut at their \<^verbatim>\<open>sleep\<close>. User buffers are passed as
  lists of bytes.
\<close>

section \<open>State\<close>

definition PIPESIZE :: nat where "PIPESIZE = 512"

datatype ftype = FD_NONE | FD_PIPE | FD_INODE

record xfile =
  f_type :: ftype
  f_ref :: int
  f_readable :: bool
  f_writable :: bool
  f_pipe :: addr
  f_ip :: "nat option"
  f_off :: uint

record pipe =
  pi_data :: bytes
  pi_nread :: uint
  pi_nwrite :: uint
  pi_readopen :: bool
  pi_writeopen :: bool

record filek = consk +
  ftable :: "xfile list"
  pipes :: "addr \<Rightarrow> pipe option"

definition file_at :: "nat \<Rightarrow> 'a filek_scheme machine \<Rightarrow> xfile" where
  "file_at f s = ftable (kern s) ! f"

definition upd_file :: "nat \<Rightarrow> (xfile \<Rightarrow> xfile) \<Rightarrow> 'a filek_scheme machine \<Rightarrow> 'a filek_scheme machine" where
  "upd_file i f = upd_kern (\<lambda>k. k\<lparr>ftable := (ftable k)[i := f (ftable k ! i)]\<rparr>)"

definition upd_pipe :: "addr \<Rightarrow> (pipe \<Rightarrow> pipe) \<Rightarrow> 'a filek_scheme machine \<Rightarrow> 'a filek_scheme machine" where
  "upd_pipe p f = upd_kern (\<lambda>k. k\<lparr>pipes := (pipes k)(p := map_option f (pipes k p))\<rparr>)"

section \<open>The file table\<close>

definition fileinit :: "'a filek_scheme machine \<Rightarrow> 'a filek_scheme machine" where
  "fileinit = initlock Ftable_lk ''ftable''"

definition filealloc :: "'a filek_scheme machine \<Rightarrow> ('a filek_scheme machine, nat option) outcome" where
  "filealloc s =
     bindK (acquire Ftable_lk s) (\<lambda>_ s.
       case scan (\<lambda>f. f_ref f = 0) (ftable (kern s)) of
         Some i \<Rightarrow>
           bindK (release Ftable_lk (upd_file i (\<lambda>f. f\<lparr>f_ref := 1\<rparr>) s)) (\<lambda>_ s. Done (Some i) s)
       | None \<Rightarrow> bindK (release Ftable_lk s) (\<lambda>_ s. Done None s))"

definition filedup :: "nat \<Rightarrow> 'a filek_scheme machine \<Rightarrow> ('a filek_scheme machine, nat) outcome" where
  "filedup i s =
     bindK (acquire Ftable_lk s) (\<lambda>_ s.
       if f_ref (file_at i s) < 1 then Panic ''filedup''
       else bindK (release Ftable_lk (upd_file i (\<lambda>f. f\<lparr>f_ref := f_ref f + 1\<rparr>) s)) (\<lambda>_ s. Done i s))"

section \<open>Closing\<close>

definition pipeclose :: "addr \<Rightarrow> bool \<Rightarrow> 'a filek_scheme machine \<Rightarrow> ('a filek_scheme machine, unit) outcome" where
  "pipeclose p writable s =
     bindK (acquire (Pipe_lk p) s) (\<lambda>_ s.
     bindK (if writable then wakeup (Pipe_nread p) (upd_pipe p (\<lambda>q. q\<lparr>pi_writeopen := False\<rparr>) s)
            else wakeup (Pipe_nwrite p) (upd_pipe p (\<lambda>q. q\<lparr>pi_readopen := False\<rparr>) s)) (\<lambda>_ s.
       case pipes (kern s) p of
         None \<Rightarrow> Panic ''freed pipe''
       | Some q \<Rightarrow>
         if \<not> pi_readopen q \<and> \<not> pi_writeopen q then
           bindK (release (Pipe_lk p) s) (\<lambda>_ s.
             kfree p (upd_kern (\<lambda>k. k\<lparr>pipes := (pipes k)(p := None)\<rparr>) s))
         else release (Pipe_lk p) s))"

definition fileclose :: "nat \<Rightarrow> 'a filek_scheme machine \<Rightarrow> ('a filek_scheme machine, unit) outcome" where
  "fileclose i s =
     bindK (acquire Ftable_lk s) (\<lambda>_ s.
       if f_ref (file_at i s) < 1 then Panic ''fileclose''
       else let s = upd_file i (\<lambda>f. f\<lparr>f_ref := f_ref f - 1\<rparr>) s in
         if f_ref (file_at i s) > 0 then release Ftable_lk s
         else let ff = file_at i s;
                  s = upd_file i (\<lambda>f. f\<lparr>f_ref := 0\<rparr>) s;
                  s = upd_file i (\<lambda>f. f\<lparr>f_type := FD_NONE\<rparr>) s
              in bindK (release Ftable_lk s) (\<lambda>_ s.
                 case f_type ff of
                   FD_PIPE \<Rightarrow> pipeclose (f_pipe ff) (f_writable ff) s
                 | FD_INODE \<Rightarrow>
                     bindK (begin_op s) (\<lambda>_ s.
                     bindK (case f_ip ff of None \<Rightarrow> Panic ''trap'' | Some ip \<Rightarrow> iput ip s) (\<lambda>_ s.
                     end_op s))
                 | FD_NONE \<Rightarrow> Done () s))"

section \<open>Pipes\<close>

text \<open>The bytes of \<^verbatim>\<open>data\<close> in a page fresh from \<^verbatim>\<open>kalloc\<close>, after the 52 bytes of the lock.\<close>

definition page_data :: "memory \<Rightarrow> addr \<Rightarrow> bytes" where
  "page_data m p = map (\<lambda>j. m (p + 52 + of_nat j)) [0..<PIPESIZE]"

text \<open>The label \<^verbatim>\<open>bad\<close> of \<^verbatim>\<open>pipealloc\<close>; \<^verbatim>\<open>p\<close> is null whenever control gets there.\<close>

definition pipealloc_bad :: "nat option \<Rightarrow> nat option \<Rightarrow> 'a filek_scheme machine \<Rightarrow>
    ('a filek_scheme machine, (nat \<times> nat) option) outcome" where
  "pipealloc_bad f0 f1 s =
     bindK (case f0 of Some f \<Rightarrow> fileclose f s | None \<Rightarrow> Done () s) (\<lambda>_ s.
     bindK (case f1 of Some f \<Rightarrow> fileclose f s | None \<Rightarrow> Done () s) (\<lambda>_ s. Done None s))"

definition pipealloc :: "'a filek_scheme machine \<Rightarrow> ('a filek_scheme machine, (nat \<times> nat) option) outcome" where
  "pipealloc s =
     bindK (filealloc s) (\<lambda>f0 s.
       case f0 of None \<Rightarrow> pipealloc_bad None None s
       | Some r \<Rightarrow>
     bindK (filealloc s) (\<lambda>f1 s.
       case f1 of None \<Rightarrow> pipealloc_bad f0 None s
       | Some w \<Rightarrow>
     bindK (kalloc s) (\<lambda>p s.
       if p = 0 then pipealloc_bad f0 f1 s
       else let s = upd_kern (\<lambda>k. k\<lparr>pipes := (pipes k)(p \<mapsto> \<lparr>pi_data = page_data (mem k) p,
                      pi_nread = 0, pi_nwrite = 0, pi_readopen = True, pi_writeopen = True\<rparr>)\<rparr>) s;
                s = initlock (Pipe_lk p) ''pipe'' s;
                s = upd_file r (\<lambda>f. f\<lparr>f_type := FD_PIPE, f_readable := True, f_writable := False, f_pipe := p\<rparr>) s;
                s = upd_file w (\<lambda>f. f\<lparr>f_type := FD_PIPE, f_readable := False, f_writable := True, f_pipe := p\<rparr>) s
            in Done (Some (r, w)) s)))"

text \<open>\<^verbatim>\<open>p->nwrite++ % PIPESIZE\<close> and \<^verbatim>\<open>p->nread++ % PIPESIZE\<close>.\<close>

definition pipe_put :: "uchar \<Rightarrow> pipe \<Rightarrow> pipe" where
  "pipe_put c q = q\<lparr>pi_data := (pi_data q)[unat (pi_nwrite q) mod PIPESIZE := c], pi_nwrite := pi_nwrite q + 1\<rparr>"

definition pipe_get :: "pipe \<Rightarrow> uchar \<times> pipe" where
  "pipe_get q = (pi_data q ! (unat (pi_nread q) mod PIPESIZE), q\<lparr>pi_nread := pi_nread q + 1\<rparr>)"

definition pipe_full :: "pipe \<Rightarrow> bool" where
  "pipe_full q \<longleftrightarrow> pi_nwrite q = pi_nread q + of_nat PIPESIZE"

text \<open>Whether the current process has been killed.\<close>

definition mykilled :: "'a filek_scheme machine \<Rightarrow> ('a filek_scheme machine, bool) outcome" where
  "mykilled s = bindK (myproc s) (\<lambda>p s. case p of None \<Rightarrow> Panic ''trap'' | Some i \<Rightarrow> Done (p_killed (proc_at i s)) s)"

fun pipewrite_loop :: "addr \<Rightarrow> int \<Rightarrow> bytes \<Rightarrow> 'a filek_scheme machine \<Rightarrow> ('a filek_scheme machine, int) outcome" where
  "pipewrite_loop p n [] s =
     bindK (wakeup (Pipe_nread p) s) (\<lambda>_ s. bindK (release (Pipe_lk p) s) (\<lambda>_ s. Done n s))"
| "pipewrite_loop p n (c # cs) s =
     (case pipes (kern s) p of None \<Rightarrow> Panic ''freed pipe''
      | Some q \<Rightarrow>
        if pipe_full q then
          bindK (if \<not> pi_readopen q then Done True s else mykilled s) (\<lambda>stop s.
            if stop then bindK (release (Pipe_lk p) s) (\<lambda>_ s. Done (- 1) s)
            else bindK (wakeup (Pipe_nread p) s) (\<lambda>_ s.
                 bindK (sleep (Pipe_nwrite p) (Some (Pipe_lk p)) s) (\<lambda>_ s. Done 0 s)))
        else pipewrite_loop p n cs (upd_pipe p (pipe_put c) s))"

definition pipewrite :: "addr \<Rightarrow> bytes \<Rightarrow> 'a filek_scheme machine \<Rightarrow> ('a filek_scheme machine, int) outcome" where
  "pipewrite p bs s = bindK (acquire (Pipe_lk p) s) (\<lambda>_ s. pipewrite_loop p (int (length bs)) bs s)"

text \<open>After the \<^verbatim>\<open>sleep\<close> of a write of \<open>n\<close> bytes of which \<open>bs\<close> are still to be stored.\<close>

definition pipewrite_resume :: "bool \<Rightarrow> nat \<Rightarrow> addr \<Rightarrow> int \<Rightarrow> bytes \<Rightarrow> 'a filek_scheme machine \<Rightarrow>
    ('a filek_scheme machine, int) outcome" where
  "pipewrite_resume en me p n bs s =
     bindK (sleep_resume en me (Pipe_lk p) s) (\<lambda>_ s. pipewrite_loop p n bs s)"

fun piperead_copy :: "addr \<Rightarrow> nat \<Rightarrow> bytes \<Rightarrow> 'a filek_scheme machine \<Rightarrow> ('a filek_scheme machine, bytes) outcome" where
  "piperead_copy p 0 acc s = Done acc s"
| "piperead_copy p (Suc n) acc s =
     (case pipes (kern s) p of None \<Rightarrow> Panic ''freed pipe''
      | Some q \<Rightarrow>
        if pi_nread q = pi_nwrite q then Done acc s
        else piperead_copy p n (acc @ [fst (pipe_get q)]) (upd_pipe p (\<lambda>q. snd (pipe_get q)) s))"

definition piperead_loop :: "addr \<Rightarrow> nat \<Rightarrow> 'a filek_scheme machine \<Rightarrow> ('a filek_scheme machine, int \<times> bytes) outcome" where
  "piperead_loop p n s =
     (case pipes (kern s) p of None \<Rightarrow> Panic ''freed pipe''
      | Some q \<Rightarrow>
        if pi_nread q = pi_nwrite q \<and> pi_writeopen q then
          bindK (mykilled s) (\<lambda>k s.
            if k then bindK (release (Pipe_lk p) s) (\<lambda>_ s. Done (- 1, []) s)
            else bindK (sleep (Pipe_nread p) (Some (Pipe_lk p)) s) (\<lambda>_ s. Done (0, []) s))
        else
          bindK (piperead_copy p n [] s) (\<lambda>bs s.
          bindK (wakeup (Pipe_nwrite p) s) (\<lambda>_ s.
          bindK (release (Pipe_lk p) s) (\<lambda>_ s. Done (int (length bs), bs) s))))"

definition piperead :: "addr \<Rightarrow> int \<Rightarrow> 'a filek_scheme machine \<Rightarrow> ('a filek_scheme machine, int \<times> bytes) outcome" where
  "piperead p n s = bindK (acquire (Pipe_lk p) s) (\<lambda>_ s. piperead_loop p (nat n) s)"

definition piperead_resume :: "bool \<Rightarrow> nat \<Rightarrow> addr \<Rightarrow> int \<Rightarrow> 'a filek_scheme machine \<Rightarrow>
    ('a filek_scheme machine, int \<times> bytes) outcome" where
  "piperead_resume en me p n s = bindK (sleep_resume en me (Pipe_lk p) s) (\<lambda>_ s. piperead_loop p (nat n) s)"

section \<open>Reading and writing open files\<close>

definition filestat :: "nat \<Rightarrow> 'a filek_scheme machine \<Rightarrow> ('a filek_scheme machine, stat option) outcome" where
  "filestat f s =
     (if f_type (file_at f s) = FD_INODE then
        bindK (ilock (f_ip (file_at f s)) s) (\<lambda>_ s.
          let st = stati (the (f_ip (file_at f s))) s in
          bindK (iunlock (f_ip (file_at f s)) s) (\<lambda>_ s. Done (Some st) s))
      else Done None s)"

definition fileread :: "nat \<Rightarrow> int \<Rightarrow> 'a filek_scheme machine \<Rightarrow> ('a filek_scheme machine, int \<times> bytes) outcome" where
  "fileread f n s =
     (if \<not> f_readable (file_at f s) then Done (- 1, []) s
      else case f_type (file_at f s) of
        FD_PIPE \<Rightarrow> piperead (f_pipe (file_at f s)) n s
      | FD_INODE \<Rightarrow>
          bindK (ilock (f_ip (file_at f s)) s) (\<lambda>_ s.
          bindK (readi (the (f_ip (file_at f s))) (f_off (file_at f s)) (of_int n) s) (\<lambda>(r, bs) s.
          let s = (if r > 0 then upd_file f (\<lambda>x. x\<lparr>f_off := f_off x + of_int r\<rparr>) s else s) in
          bindK (iunlock (f_ip (file_at f s)) s) (\<lambda>_ s. Done (r, bs) s)))
      | FD_NONE \<Rightarrow> Panic ''fileread'')"

text \<open>The most \<^verbatim>\<open>filewrite\<close> puts into one transaction.\<close>

definition write_max :: nat where
  "write_max = ((MAXOPBLOCKS - 1 - 1 - 2) div 2) * 512"

function filewrite_loop :: "nat \<Rightarrow> int \<Rightarrow> bytes \<Rightarrow> 'a filek_scheme machine \<Rightarrow> ('a filek_scheme machine, int) outcome" where
  "filewrite_loop f n src s =
     (if src = [] then Done n s
      else let n1 = min (length src) write_max in
        bindK (begin_op s) (\<lambda>_ s.
        bindK (ilock (f_ip (file_at f s)) s) (\<lambda>_ s.
        bindK (writei (the (f_ip (file_at f s))) (take n1 src) (f_off (file_at f s)) s) (\<lambda>r s.
        let s = (if r > 0 then upd_file f (\<lambda>x. x\<lparr>f_off := f_off x + of_int r\<rparr>) s else s) in
        bindK (iunlock (f_ip (file_at f s)) s) (\<lambda>_ s.
        bindK (end_op s) (\<lambda>_ s.
          if r < 0 then Done (- 1) s
          else if r \<noteq> int n1 then Panic ''short filewrite''
          else filewrite_loop f n (drop n1 src) s))))))"
  by pat_completeness auto
termination
  by (relation "measure (\<lambda>(f, n, src, s). length src)") (auto simp: write_max_def MAXOPBLOCKS_def)

definition filewrite :: "nat \<Rightarrow> bytes \<Rightarrow> 'a filek_scheme machine \<Rightarrow> ('a filek_scheme machine, int) outcome" where
  "filewrite f src s =
     (if \<not> f_writable (file_at f s) then Done (- 1) s
      else case f_type (file_at f s) of
        FD_PIPE \<Rightarrow> pipewrite (f_pipe (file_at f s)) src s
      | FD_INODE \<Rightarrow> filewrite_loop f (int (length src)) src s
      | FD_NONE \<Rightarrow> Panic ''filewrite'')"

end
