(* ===== verification/Uaccess.thy ===== *)
theory Uaccess
  imports Vm
begin

unbundle bit_operations_syntax

text \<open>
  Access to user memory. A load or store at an address below \<^verbatim>\<open>KERNBASE\<close> goes through the page
  table in \<^verbatim>\<open>cr3\<close>, as the processor does it in kernel mode: a page that is not present, or not
  writable for a store, is a page fault, which \<^verbatim>\<open>trap\<close> turns into a panic. \<^verbatim>\<open>uva2ka\<close> and
  \<^verbatim>\<open>copyout\<close> of \<^verbatim>\<open>vm.c\<close> look the page up in a page table that need not be the current one.
\<close>

section \<open>Translation by the processor\<close>

definition vmap :: "bool \<Rightarrow> 'a vmk_scheme machine \<Rightarrow> addr \<Rightarrow> addr option" where
  "vmap wr s va =
     (let m = mem (kern s);
          pde = read32 m (P2V (cr3 (kern s) (lapic_id s)) + 4 * PDX va);
          pte = read32 m (P2V (PTE_ADDR pde) + 4 * PTX va)
      in if pde AND PTE_P = 0 \<or> pte AND PTE_P = 0 \<or> wr \<and> (pde AND PTE_W = 0 \<or> pte AND PTE_W = 0) then None
         else Some (P2V (PTE_ADDR pte) + (va AND 0xFFF)))"

definition vload :: "'a vmk_scheme machine \<Rightarrow> addr \<Rightarrow> uchar option" where
  "vload s va = map_option (mem (kern s)) (vmap False s va)"

fun vload_bytes :: "'a vmk_scheme machine \<Rightarrow> addr \<Rightarrow> nat \<Rightarrow> uchar list option" where
  "vload_bytes s va 0 = Some []"
| "vload_bytes s va (Suc n) =
     (case vload s va of None \<Rightarrow> None | Some c \<Rightarrow> map_option (\<lambda>cs. c # cs) (vload_bytes s (va + 1) n))"

definition vload32 :: "'a vmk_scheme machine \<Rightarrow> addr \<Rightarrow> uint option" where
  "vload32 s va = map_option (\<lambda>cs. ucast (cs ! 0) OR push_bit 8 (ucast (cs ! 1)) OR
     push_bit 16 (ucast (cs ! 2)) OR push_bit 24 (ucast (cs ! 3))) (vload_bytes s va 4)"

fun vstore_bytes :: "addr \<Rightarrow> uchar list \<Rightarrow> 'a vmk_scheme machine \<Rightarrow> ('a vmk_scheme machine, unit) outcome" where
  "vstore_bytes va [] s = Done () s"
| "vstore_bytes va (c # cs) s =
     (case vmap True s va of None \<Rightarrow> Panic ''trap''
      | Some a \<Rightarrow> vstore_bytes (va + 1) cs (upd_mem (\<lambda>m. m(a := c)) s))"

section \<open>Translation by the kernel\<close>

text \<open>\<^verbatim>\<open>uva2ka\<close> reads through the pointer \<^verbatim>\<open>walkpgdir\<close> returns without comparing it with 0; the
  read at 0 is one of user memory.\<close>

definition uva2ka :: "addr \<Rightarrow> addr \<Rightarrow> 'a vmk_scheme machine \<Rightarrow> ('a vmk_scheme machine, addr) outcome" where
  "uva2ka pgdir uva s =
     bindK (walkpgdir pgdir uva False s) (\<lambda>pte s.
       case if pte = 0 then vload32 s 0 else Some (read32 (mem (kern s)) pte) of
         None \<Rightarrow> Panic ''trap''
       | Some e \<Rightarrow>
         if e AND PTE_P = 0 then Done 0 s
         else if e AND PTE_U = 0 then Done 0 s
         else Done (P2V (PTE_ADDR e)) s)"

fun put_bytes :: "memory \<Rightarrow> addr \<Rightarrow> uchar list \<Rightarrow> memory" where
  "put_bytes m a [] = m"
| "put_bytes m a (c # cs) = put_bytes (m(a := c)) (a + 1) cs"

lemma page_offset_lt: "unat (va - PGROUNDDOWN va) < 4096"
proof -
  have "unat va mod 4096 < 4096" by simp
  then show ?thesis
    using unat_PGROUNDDOWN [of va] by (simp add: unat_sub_if' minus_div_mult_eq_mod)
qed

definition chunk :: "addr \<Rightarrow> nat \<Rightarrow> nat" where
  "chunk va len = (let n = unat PGSIZE - unat (va - PGROUNDDOWN va) in if n > len then len else n)"

lemma chunk_pos: "0 < len \<Longrightarrow> 0 < chunk va len"
  using page_offset_lt [of va] by (auto simp: chunk_def Let_def PGSIZE_def)

text \<open>\<open>src\<close> is the \<^verbatim>\<open>len\<close> bytes at \<^verbatim>\<open>p\<close>.\<close>

function copyout :: "addr \<Rightarrow> addr \<Rightarrow> uchar list \<Rightarrow> 'a vmk_scheme machine \<Rightarrow>
    ('a vmk_scheme machine, int) outcome" where
  "copyout pgdir va src s =
     (if src \<noteq> [] then
        let va0 = PGROUNDDOWN va in
        bindK (uva2ka pgdir va0 s) (\<lambda>pa0 s.
          if pa0 = 0 then Done (- 1) s
          else let n = chunk va (length src);
                   s = upd_mem (\<lambda>m. put_bytes m (pa0 + (va - va0)) (take n src)) s
               in copyout pgdir (va0 + PGSIZE) (drop n src) s)
      else Done 0 s)"
  by pat_completeness auto
termination
  by (relation "measure (\<lambda>(pgdir, va, src, s). length src)") (simp_all add: chunk_pos)

declare copyout.simps [simp del]

end
