(* ===== verification/Proc_Life.thy ===== *)
theory Proc_Life
  imports File Uaccess
begin

unbundle bit_operations_syntax

text \<open>
  The life of a process (\<^verbatim>\<open>userinit\<close>, \<^verbatim>\<open>fork\<close>, \<^verbatim>\<open>exit\<close> and \<^verbatim>\<open>forkret\<close> of \<^verbatim>\<open>proc.c\<close>), which uses
  files and the file system. \<^verbatim>\<open>initcode\<close> is linked into the kernel at \<open>initcode_start\<close>.
\<close>

record lifek = filek +
  forkret_first :: bool
  initcode_start :: addr
  initcode_size :: uint
  ticks :: uint
  trace :: int

text \<open>\<^verbatim>\<open>safestrcpy\<close> into the name of a process.\<close>

definition set_name :: "nat \<Rightarrow> bytes \<Rightarrow> 'a procs_scheme machine \<Rightarrow> 'a procs_scheme machine" where
  "set_name i name = upd_proc i (\<lambda>p. p\<lparr>p_name := take 15 name\<rparr>)"

definition set_tf :: "nat \<Rightarrow> uint \<Rightarrow> uint \<Rightarrow> 'a procs_scheme machine \<Rightarrow> 'a procs_scheme machine" where
  "set_tf i off v s = upd_mem (\<lambda>m. write32 m (p_tf (proc_at i s) + off) v) s"

text \<open>The segment registers of a trap frame are 16 bits wide.\<close>

definition set_tf16 :: "nat \<Rightarrow> uint \<Rightarrow> ushort \<Rightarrow> 'a procs_scheme machine \<Rightarrow> 'a procs_scheme machine" where
  "set_tf16 i off v s =
     (let a = p_tf (proc_at i s) + off in upd_mem (\<lambda>m. m(a := ucast v, a + 1 := ucast (drop_bit 8 v))) s)"

definition FL_IF :: uint where "FL_IF = 0x200"

definition userinit :: "'a lifek_scheme machine \<Rightarrow> ('a lifek_scheme machine, unit) outcome" where
  "userinit s =
     bindK (allocproc s) (\<lambda>p s.
       let s = upd_kern (\<lambda>k. k\<lparr>initproc := p\<rparr>) s in
       case p of None \<Rightarrow> Panic ''trap''
       | Some i \<Rightarrow>
         bindK (setupkvm s) (\<lambda>d s.
         let s = upd_proc i (\<lambda>p. p\<lparr>p_pgdir := d\<rparr>) s in
         if d = 0 then Panic ''userinit: out of memory?''
         else
         bindK (inituvm d (initcode_start (kern s)) (initcode_size (kern s)) s) (\<lambda>_ s.
         let s = upd_proc i (\<lambda>p. p\<lparr>p_sz := PGSIZE\<rparr>) s;
             s = upd_mem (\<lambda>m. memset m (p_tf (proc_at i s)) 0 sizeof_trapframe) s;
             ucs = push_bit 3 (of_nat SEG_UCODE) OR ucast DPL_USER;
             uds = push_bit 3 (of_nat SEG_UDATA) OR ucast DPL_USER;
             s = set_tf16 i tf_cs ucs s;
             s = set_tf16 i tf_ds uds s;
             s = set_tf16 i tf_es uds s;
             s = set_tf16 i tf_ss uds s;
             s = set_tf i tf_eflags FL_IF s;
             s = set_tf i tf_esp PGSIZE s;
             s = set_tf i tf_eip 0 s;
             s = set_name i (map of_char ''initcode'') s
         in bindK (namei [slash] s) (\<lambda>ip s.
            make_runnable i (upd_proc i (\<lambda>p. p\<lparr>p_cwd := ip\<rparr>) s)))))"

fun fork_files :: "nat \<Rightarrow> nat \<Rightarrow> nat list \<Rightarrow> 'a lifek_scheme machine \<Rightarrow> ('a lifek_scheme machine, unit) outcome" where
  "fork_files cur np [] s = Done () s"
| "fork_files cur np (fd # fds) s =
     (case p_ofile (proc_at cur s) ! fd of
        None \<Rightarrow> fork_files cur np fds s
      | Some f \<Rightarrow>
        bindK (filedup f s) (\<lambda>f s.
          fork_files cur np fds (upd_proc np (\<lambda>p. p\<lparr>p_ofile := (p_ofile p)[fd := Some f]\<rparr>) s)))"

definition fork :: "'a lifek_scheme machine \<Rightarrow> ('a lifek_scheme machine, int) outcome" where
  "fork s =
     bindK (myproc s) (\<lambda>curproc s.
     bindK (allocproc s) (\<lambda>np s.
       case np of None \<Rightarrow> Done (- 1) s
       | Some n \<Rightarrow>
       case curproc of None \<Rightarrow> Panic ''trap''
       | Some cur \<Rightarrow>
         bindK (copyuvm (p_pgdir (proc_at cur s)) (p_sz (proc_at cur s)) s) (\<lambda>d s.
         let s = upd_proc n (\<lambda>p. p\<lparr>p_pgdir := d\<rparr>) s in
         if d = 0 then
           bindK (kfree (p_kstack (proc_at n s)) s) (\<lambda>_ s.
             let s = upd_proc n (\<lambda>p. p\<lparr>p_kstack := 0\<rparr>) s;
                 s = upd_proc n (\<lambda>p. p\<lparr>p_state := UNUSED\<rparr>) s
             in Done (- 1) s)
         else
           let s = upd_proc n (\<lambda>p. p\<lparr>p_sz := p_sz (proc_at cur s)\<rparr>) s;
               s = upd_proc n (\<lambda>p. p\<lparr>p_parent := Some cur\<rparr>) s;
               s = upd_mem (\<lambda>m. memmove m (p_tf (proc_at n s)) (p_tf (proc_at cur s)) sizeof_trapframe) s;
               s = set_tf n tf_eax 0 s
           in bindK (fork_files cur n [0..<NOFILE] s) (\<lambda>_ s.
              bindK (case p_cwd (proc_at cur s) of None \<Rightarrow> Panic ''trap'' | Some c \<Rightarrow> idup c s) (\<lambda>c s.
              let s = upd_proc n (\<lambda>p. p\<lparr>p_cwd := Some c\<rparr>) s;
                  s = set_name n (p_name (proc_at cur s)) s;
                  pid = p_pid (proc_at n s)
              in bindK (make_runnable n s) (\<lambda>_ s. Done pid s))))))"

fun exit_files :: "nat \<Rightarrow> nat list \<Rightarrow> 'a lifek_scheme machine \<Rightarrow> ('a lifek_scheme machine, unit) outcome" where
  "exit_files cur [] s = Done () s"
| "exit_files cur (fd # fds) s =
     (case p_ofile (proc_at cur s) ! fd of
        None \<Rightarrow> exit_files cur fds s
      | Some f \<Rightarrow>
        bindK (fileclose f s) (\<lambda>_ s.
          exit_files cur fds (upd_proc cur (\<lambda>p. p\<lparr>p_ofile := (p_ofile p)[fd := None]\<rparr>) s)))"

definition exit :: "'a lifek_scheme machine \<Rightarrow> ('a lifek_scheme machine, unit) outcome" where
  "exit s =
     bindK (myproc s) (\<lambda>curproc s.
       if curproc = initproc (kern s) then Panic ''init exiting''
       else case curproc of None \<Rightarrow> Panic ''trap''
       | Some cur \<Rightarrow>
         bindK (exit_files cur [0..<NOFILE] s) (\<lambda>_ s.
         bindK (begin_op s) (\<lambda>_ s.
         bindK (case p_cwd (proc_at cur s) of None \<Rightarrow> Panic ''trap'' | Some c \<Rightarrow> iput c s) (\<lambda>_ s.
         bindK (end_op s) (\<lambda>_ s.
         exit_tail cur (upd_proc cur (\<lambda>p. p\<lparr>p_cwd := None\<rparr>) s))))))"

definition forkret :: "'a lifek_scheme machine \<Rightarrow> ('a lifek_scheme machine, unit) outcome" where
  "forkret s =
     bindK (release Ptable_lk s) (\<lambda>_ s.
       if forkret_first (kern s) then
         let s = upd_kern (\<lambda>k. k\<lparr>forkret_first := False\<rparr>) s in
         bindK (iinit ROOTDEV s) (\<lambda>_ s. initlog (uint ROOTDEV) s)
       else Done () s)"

end
