(* ===== verification/Exec.thy ===== *)
theory Exec
  imports Proc_Life
begin

unbundle bit_operations_syntax

text \<open>
  Loading a program (\<^verbatim>\<open>exec.c\<close>, \<^verbatim>\<open>loaduvm\<close> of \<^verbatim>\<open>vm.c\<close>, the headers of \<^verbatim>\<open>elf.h\<close>). The arguments are
  the strings the user's \<^verbatim>\<open>argv\<close> points at, each as its bytes before the NUL.
\<close>

section \<open>Headers\<close>

definition ELF_MAGIC :: uint where "ELF_MAGIC = 0x464C457F"
definition ELF_PROG_LOAD :: uint where "ELF_PROG_LOAD = 1"

record elfhdr =
  elf_magic :: uint
  elf_entry :: uint
  elf_phoff :: uint
  elf_phnum :: ushort

record proghdr =
  ph_type :: uint
  ph_off :: uint
  ph_vaddr :: uint
  ph_filesz :: uint
  ph_memsz :: uint

definition sizeof_elfhdr :: nat where "sizeof_elfhdr = 52"
definition sizeof_proghdr :: nat where "sizeof_proghdr = 32"

definition elfhdr_of :: "bytes \<Rightarrow> elfhdr" where
  "elfhdr_of d = \<lparr>elf_magic = get32 d 0, elf_entry = get32 d 24, elf_phoff = get32 d 28, elf_phnum = get16 d 44\<rparr>"

definition proghdr_of :: "bytes \<Rightarrow> proghdr" where
  "proghdr_of d = \<lparr>ph_type = get32 d 0, ph_off = get32 d 4, ph_vaddr = get32 d 8, ph_filesz = get32 d 16,
     ph_memsz = get32 d 20\<rparr>"

section \<open>Loading a segment\<close>

fun loaduvm_from :: "nat \<Rightarrow> addr \<Rightarrow> addr \<Rightarrow> nat \<Rightarrow> uint \<Rightarrow> uint \<Rightarrow> uint \<Rightarrow> 'a lifek_scheme machine \<Rightarrow>
    ('a lifek_scheme machine, int) outcome" where
  "loaduvm_from rs pgdir addr ip offset i sz s =
     (if \<not> i < sz then Done 0 s
      else case rs of 0 \<Rightarrow> Spin s
      | Suc rs \<Rightarrow>
        bindK (walkpgdir pgdir (addr + i) False s) (\<lambda>pte s.
          if pte = 0 then Panic ''loaduvm: address should exist''
          else let pa = PTE_ADDR (read32 (mem (kern s)) pte);
                   n = (if sz - i < PGSIZE then sz - i else PGSIZE)
               in bindK (readi ip (offset + i) n s) (\<lambda>(r, bs) s.
                  let s = upd_mem (\<lambda>m. put_bytes m (P2V pa) bs) s in
                  if r \<noteq> sint n then Done (- 1) s
                  else loaduvm_from rs pgdir addr ip offset (i + PGSIZE) sz s)))"

definition loaduvm :: "addr \<Rightarrow> addr \<Rightarrow> nat \<Rightarrow> uint \<Rightarrow> uint \<Rightarrow> 'a lifek_scheme machine \<Rightarrow>
    ('a lifek_scheme machine, int) outcome" where
  "loaduvm pgdir addr ip offset sz s =
     (if addr mod PGSIZE \<noteq> 0 then Panic ''loaduvm: addr must be page aligned''
      else loaduvm_from (rounds sz) pgdir addr ip offset 0 sz s)"

section \<open>exec\<close>

text \<open>The label \<^verbatim>\<open>bad\<close>.\<close>

definition exec_bad :: "addr \<Rightarrow> nat option \<Rightarrow> 'a lifek_scheme machine \<Rightarrow> ('a lifek_scheme machine, int) outcome" where
  "exec_bad pgdir ip s =
     bindK (if pgdir \<noteq> 0 then freevm pgdir s else Done () s) (\<lambda>_ s.
       case ip of None \<Rightarrow> Done (- 1) s
       | Some i \<Rightarrow> bindK (iunlockput i s) (\<lambda>_ s. bindK (end_op s) (\<lambda>_ s. Done (- 1) s)))"

text \<open>The loop over the program headers: \<open>None\<close> for a jump to \<^verbatim>\<open>bad\<close>, else the size so far.\<close>

fun exec_load :: "nat \<Rightarrow> addr \<Rightarrow> nat \<Rightarrow> uint \<Rightarrow> uint \<Rightarrow> 'a lifek_scheme machine \<Rightarrow>
    ('a lifek_scheme machine, uint option) outcome" where
  "exec_load 0 pgdir ip off sz s = Done (Some sz) s"
| "exec_load (Suc k) pgdir ip off sz s =
     bindK (readi ip off (of_nat sizeof_proghdr) s) (\<lambda>(r, d) s.
       let ph = proghdr_of d; nxt = off + of_nat sizeof_proghdr in
       if r \<noteq> int sizeof_proghdr then Done None s
       else if ph_type ph \<noteq> ELF_PROG_LOAD then exec_load k pgdir ip nxt sz s
       else if ph_memsz ph < ph_filesz ph then Done None s
       else if ph_vaddr ph + ph_memsz ph < ph_vaddr ph then Done None s
       else bindK (allocuvm pgdir sz (ph_vaddr ph + ph_memsz ph) s) (\<lambda>sz s.
         if sz = 0 then Done None s
         else if ph_vaddr ph mod PGSIZE \<noteq> 0 then Done None s
         else bindK (loaduvm pgdir (ph_vaddr ph) ip (ph_off ph) (ph_filesz ph) s) (\<lambda>r s.
           if r < 0 then Done None s else exec_load k pgdir ip nxt sz s)))"

text \<open>The loop that pushes the arguments: their number, the stack pointer and their addresses.\<close>

fun exec_args :: "addr \<Rightarrow> bytes list \<Rightarrow> nat \<Rightarrow> uint \<Rightarrow> uint list \<Rightarrow> 'a lifek_scheme machine \<Rightarrow>
    ('a lifek_scheme machine, (nat \<times> uint \<times> uint list) option) outcome" where
  "exec_args pgdir [] argc sp us s = Done (Some (argc, sp, us)) s"
| "exec_args pgdir (a # as) argc sp us s =
     (if argc \<ge> MAXARG then Done None s
      else let sp = (sp - (of_nat (length a) + 1)) AND NOT 3 in
        bindK (copyout pgdir sp (a @ [0]) s) (\<lambda>r s.
          if r < 0 then Done None s else exec_args pgdir as (Suc argc) sp (us @ [sp]) s))"

definition last_elem :: "bytes \<Rightarrow> bytes" where
  "last_elem path = rev (takeWhile (\<lambda>c. c \<noteq> slash) (rev path))"

definition words :: "uint list \<Rightarrow> bytes" where
  "words ws = concat (map enc32 ws)"

definition exec_stack :: "addr \<Rightarrow> uint \<Rightarrow> bytes \<Rightarrow> bytes list \<Rightarrow> uint \<Rightarrow> nat \<Rightarrow> 'a lifek_scheme machine \<Rightarrow>
    ('a lifek_scheme machine, int) outcome" where
  "exec_stack pgdir sz path argv entry cur s =
     bindK (exec_args pgdir argv 0 sz [] s) (\<lambda>r s.
       case r of None \<Rightarrow> exec_bad pgdir None s
       | Some (argc, sp, us) \<Rightarrow>
         let ustack = [0xFFFFFFFF, of_nat argc, sp - (of_nat argc + 1) * 4] @ us @ [0];
             sp = sp - (3 + of_nat argc + 1) * 4
         in bindK (copyout pgdir sp (words ustack) s) (\<lambda>r s.
            if r < 0 then exec_bad pgdir None s
            else let s = set_name cur (last_elem path) s;
                     oldpgdir = p_pgdir (proc_at cur s);
                     s = upd_proc cur (\<lambda>p. p\<lparr>p_pgdir := pgdir\<rparr>) s;
                     s = upd_proc cur (\<lambda>p. p\<lparr>p_sz := sz\<rparr>) s;
                     s = set_tf cur tf_eip entry s;
                     s = set_tf cur tf_esp sp s
                 in bindK (switchuvm (Some (p_kstack (proc_at cur s), p_pgdir (proc_at cur s))) s) (\<lambda>_ s.
                    bindK (freevm oldpgdir s) (\<lambda>_ s. Done 0 s))))"

definition exec :: "bytes \<Rightarrow> bytes list \<Rightarrow> 'a lifek_scheme machine \<Rightarrow> ('a lifek_scheme machine, int) outcome" where
  "exec path argv s =
     bindK (myproc s) (\<lambda>curproc s.
     case curproc of None \<Rightarrow> Panic ''trap''
     | Some cur \<Rightarrow>
     bindK (begin_op s) (\<lambda>_ s.
     bindK (namei path s) (\<lambda>ip s.
       case ip of
         None \<Rightarrow> bindK (end_op s) (\<lambda>_ s.
                bindK (cprintf (''exec: fail'' @ [CHR 0x0A]) [] s) (\<lambda>_ s. Done (- 1) s))
       | Some i \<Rightarrow>
         bindK (ilock ip s) (\<lambda>_ s.
         bindK (readi i 0 (of_nat sizeof_elfhdr) s) (\<lambda>(r, d) s.
         let elf = elfhdr_of d in
         if r \<noteq> int sizeof_elfhdr \<or> elf_magic elf \<noteq> ELF_MAGIC then exec_bad 0 ip s
         else bindK (setupkvm s) (\<lambda>pgdir s.
           if pgdir = 0 then exec_bad 0 ip s
           else bindK (exec_load (unat (elf_phnum elf)) pgdir i (elf_phoff elf) 0 s) (\<lambda>r s.
             case r of None \<Rightarrow> exec_bad pgdir ip s
             | Some sz \<Rightarrow>
               bindK (iunlockput i s) (\<lambda>_ s.
               bindK (end_op s) (\<lambda>_ s.
               let sz = PGROUNDUP sz in
               bindK (allocuvm pgdir sz (sz + 2 * PGSIZE) s) (\<lambda>sz s.
                 if sz = 0 then exec_bad pgdir None s
                 else bindK (clearpteu pgdir (sz - 2 * PGSIZE) s) (\<lambda>_ s.
                   exec_stack pgdir sz path argv (elf_entry elf) cur s)))))))))))"

end
