(* ===== verification/Syscall.thy ===== *)
theory Syscall
  imports Exec
begin

unbundle bit_operations_syntax

text \<open>
  Fetching the arguments of system calls (\<^verbatim>\<open>syscall.c\<close>) and the file system calls
  (\<^verbatim>\<open>sysfile.c\<close>). An argument routine returns \<open>None\<close> where the code returns -1. A string
  argument is returned as its bytes before the NUL instead of a pointer to them; user memory
  does not change between the check and the use.
\<close>

section \<open>Arguments\<close>

text \<open>The current process, which is there in every system call.\<close>

definition current :: "'a lifek_scheme machine \<Rightarrow> ('a lifek_scheme machine, nat) outcome" where
  "current s = bindK (myproc s) (\<lambda>p s. case p of None \<Rightarrow> Panic ''trap'' | Some i \<Rightarrow> Done i s)"

definition fetchint :: "uint \<Rightarrow> 'a lifek_scheme machine \<Rightarrow> ('a lifek_scheme machine, uint option) outcome" where
  "fetchint addr s =
     bindK (current s) (\<lambda>cur s.
       let sz = p_sz (proc_at cur s) in
       if addr \<ge> sz \<or> addr + 4 > sz then Done None s
       else case vload32 s addr of None \<Rightarrow> Panic ''trap'' | Some v \<Rightarrow> Done (Some v) s)"

text \<open>The loop of \<^verbatim>\<open>fetchstr\<close> over the \<open>n\<close> bytes before the end of the process.\<close>

fun fetch_scan :: "nat \<Rightarrow> addr \<Rightarrow> bytes \<Rightarrow> 'a lifek_scheme machine \<Rightarrow> ('a lifek_scheme machine, bytes option) outcome" where
  "fetch_scan 0 va acc s = Done None s"
| "fetch_scan (Suc n) va acc s =
     (case vload s va of None \<Rightarrow> Panic ''trap''
      | Some c \<Rightarrow> if c = 0 then Done (Some acc) s else fetch_scan n (va + 1) (acc @ [c]) s)"

definition fetchstr :: "uint \<Rightarrow> 'a lifek_scheme machine \<Rightarrow> ('a lifek_scheme machine, bytes option) outcome" where
  "fetchstr addr s =
     bindK (current s) (\<lambda>cur s.
       let sz = p_sz (proc_at cur s) in
       if addr \<ge> sz then Done None s else fetch_scan (unat sz - unat addr) addr [] s)"

definition argint :: "nat \<Rightarrow> 'a lifek_scheme machine \<Rightarrow> ('a lifek_scheme machine, uint option) outcome" where
  "argint n s =
     bindK (current s) (\<lambda>cur s.
       fetchint (read32 (mem (kern s)) (p_tf (proc_at cur s) + tf_esp) + 4 + 4 * of_nat n) s)"

definition argptr :: "nat \<Rightarrow> int \<Rightarrow> 'a lifek_scheme machine \<Rightarrow> ('a lifek_scheme machine, addr option) outcome" where
  "argptr n len s =
     bindK (current s) (\<lambda>cur s.
     bindK (argint n s) (\<lambda>r s.
       case r of None \<Rightarrow> Done None s
       | Some i \<Rightarrow>
         let sz = p_sz (proc_at cur s) in
         if len < 0 \<or> i \<ge> sz \<or> i + of_int len > sz then Done None s else Done (Some i) s))"

definition argstr :: "nat \<Rightarrow> 'a lifek_scheme machine \<Rightarrow> ('a lifek_scheme machine, bytes option) outcome" where
  "argstr n s =
     bindK (argint n s) (\<lambda>r s. case r of None \<Rightarrow> Done None s | Some a \<Rightarrow> fetchstr a s)"

definition argfd :: "nat \<Rightarrow> 'a lifek_scheme machine \<Rightarrow> ('a lifek_scheme machine, (nat \<times> nat) option) outcome" where
  "argfd n s =
     bindK (argint n s) (\<lambda>r s.
       case r of None \<Rightarrow> Done None s
       | Some fd \<Rightarrow>
         if sint fd < 0 \<or> sint fd \<ge> int NOFILE then Done None s
         else bindK (current s) (\<lambda>cur s.
           case p_ofile (proc_at cur s) ! unat fd of None \<Rightarrow> Done None s | Some f \<Rightarrow> Done (Some (unat fd, f)) s))"

definition fdalloc :: "nat \<Rightarrow> 'a lifek_scheme machine \<Rightarrow> ('a lifek_scheme machine, nat option) outcome" where
  "fdalloc f s =
     bindK (current s) (\<lambda>cur s.
       case scan (\<lambda>x. x = None) (take NOFILE (p_ofile (proc_at cur s))) of
         None \<Rightarrow> Done None s
       | Some fd \<Rightarrow> Done (Some fd) (upd_proc cur (\<lambda>p. p\<lparr>p_ofile := (p_ofile p)[fd := Some f]\<rparr>) s))"

text \<open>\<open>need r s k\<close> goes on with \<open>k\<close> when an argument could be fetched, and returns -1 otherwise.\<close>

definition need :: "('s, 'a option) outcome \<Rightarrow> ('a \<Rightarrow> 's \<Rightarrow> ('s, int) outcome) \<Rightarrow> ('s, int) outcome" where
  "need r k = bindK r (\<lambda>x s. case x of None \<Rightarrow> Done (- 1) s | Some a \<Rightarrow> k a s)"

text \<open>The end of a failing call inside a transaction.\<close>

definition fail_op :: "'a lifek_scheme machine \<Rightarrow> ('a lifek_scheme machine, int) outcome" where
  "fail_op s = bindK (end_op s) (\<lambda>_ s. Done (- 1) s)"

section \<open>File descriptors\<close>

definition sys_dup :: "'a lifek_scheme machine \<Rightarrow> ('a lifek_scheme machine, int) outcome" where
  "sys_dup s =
     need (argfd 0 s) (\<lambda>(_, f) s.
     need (fdalloc f s) (\<lambda>fd s.
     bindK (filedup f s) (\<lambda>_ s. Done (int fd) s)))"

definition sys_read :: "'a lifek_scheme machine \<Rightarrow> ('a lifek_scheme machine, int) outcome" where
  "sys_read s =
     need (argfd 0 s) (\<lambda>(_, f) s.
     need (argint 2 s) (\<lambda>n s.
     need (argptr 1 (sint n) s) (\<lambda>p s.
     bindK (fileread f (sint n) s) (\<lambda>(r, bs) s.
     bindK (vstore_bytes p bs s) (\<lambda>_ s. Done r s)))))"

text \<open>The bytes a write reads from user memory.\<close>

definition user_bytes :: "addr \<Rightarrow> nat \<Rightarrow> 'a lifek_scheme machine \<Rightarrow> ('a lifek_scheme machine, bytes) outcome" where
  "user_bytes p n s = (case vload_bytes s p n of None \<Rightarrow> Panic ''trap'' | Some bs \<Rightarrow> Done bs s)"

definition sys_write :: "'a lifek_scheme machine \<Rightarrow> ('a lifek_scheme machine, int) outcome" where
  "sys_write s =
     need (argfd 0 s) (\<lambda>(_, f) s.
     need (argint 2 s) (\<lambda>n s.
     need (argptr 1 (sint n) s) (\<lambda>p s.
     bindK (user_bytes p (nat (sint n)) s) (\<lambda>bs s. filewrite f bs s))))"

definition sys_close :: "'a lifek_scheme machine \<Rightarrow> ('a lifek_scheme machine, int) outcome" where
  "sys_close s =
     need (argfd 0 s) (\<lambda>(fd, f) s.
     bindK (current s) (\<lambda>cur s.
     let s = upd_proc cur (\<lambda>p. p\<lparr>p_ofile := (p_ofile p)[fd := None]\<rparr>) s in
     bindK (fileclose f s) (\<lambda>_ s. Done 0 s)))"

text \<open>\<^verbatim>\<open>struct stat\<close>: the offsets of its fields, stored in the order of \<^verbatim>\<open>stati\<close>; it is 20 bytes long.\<close>

definition store_stat :: "addr \<Rightarrow> stat \<Rightarrow> 'a lifek_scheme machine \<Rightarrow> ('a lifek_scheme machine, unit) outcome" where
  "store_stat p st s =
     bindK (vstore_bytes (p + 4) (enc32 (st_dev st)) s) (\<lambda>_ s.
     bindK (vstore_bytes (p + 8) (enc32 (st_ino st)) s) (\<lambda>_ s.
     bindK (vstore_bytes p (enc16 (st_type st)) s) (\<lambda>_ s.
     bindK (vstore_bytes (p + 12) (enc16 (st_nlink st)) s) (\<lambda>_ s.
     vstore_bytes (p + 16) (enc32 (st_size st)) s))))"

definition sys_fstat :: "'a lifek_scheme machine \<Rightarrow> ('a lifek_scheme machine, int) outcome" where
  "sys_fstat s =
     need (argfd 0 s) (\<lambda>(_, f) s.
     need (argptr 1 20 s) (\<lambda>p s.
     need (filestat f s) (\<lambda>st s.
     bindK (store_stat p st s) (\<lambda>_ s. Done 0 s))))"

section \<open>Links and directories\<close>

definition sys_link_bad :: "nat \<Rightarrow> 'a lifek_scheme machine \<Rightarrow> ('a lifek_scheme machine, int) outcome" where
  "sys_link_bad ip s =
     bindK (ilock (Some ip) s) (\<lambda>_ s.
     let s = upd_inode ip (\<lambda>i. i\<lparr>i_nlink := i_nlink i - 1\<rparr>) s in
     bindK (iupdate ip s) (\<lambda>_ s.
     bindK (iunlockput ip s) (\<lambda>_ s. fail_op s)))"

definition sys_link :: "'a lifek_scheme machine \<Rightarrow> ('a lifek_scheme machine, int) outcome" where
  "sys_link s =
     need (argstr 0 s) (\<lambda>old s.
     need (argstr 1 s) (\<lambda>new s.
     bindK (begin_op s) (\<lambda>_ s.
     bindK (namei old s) (\<lambda>r s.
     case r of None \<Rightarrow> fail_op s
     | Some ip \<Rightarrow>
       bindK (ilock (Some ip) s) (\<lambda>_ s.
       if i_type (inode_at ip s) = T_DIR then bindK (iunlockput ip s) (\<lambda>_ s. fail_op s)
       else
         let s = upd_inode ip (\<lambda>i. i\<lparr>i_nlink := i_nlink i + 1\<rparr>) s in
         bindK (iupdate ip s) (\<lambda>_ s.
         bindK (iunlock (Some ip) s) (\<lambda>_ s.
         bindK (nameiparent new s) (\<lambda>(dpo, name) s.
         case dpo of None \<Rightarrow> sys_link_bad ip s
         | Some dp \<Rightarrow>
           bindK (ilock (Some dp) s) (\<lambda>_ s.
           bindK (if i_dev (inode_at dp s) \<noteq> i_dev (inode_at ip s) then Done (- 1) s
                  else dirlink dp name (i_inum (inode_at ip s)) s) (\<lambda>r s.
           if r < 0 then bindK (iunlockput dp s) (\<lambda>_ s. sys_link_bad ip s)
           else bindK (iunlockput dp s) (\<lambda>_ s.
                bindK (iput ip s) (\<lambda>_ s.
                bindK (end_op s) (\<lambda>_ s. Done 0 s)))))))))))))"

fun isdirempty_from :: "nat \<Rightarrow> uint list \<Rightarrow> 'a lifek_scheme machine \<Rightarrow> ('a lifek_scheme machine, bool) outcome" where
  "isdirempty_from d [] s = Done True s"
| "isdirempty_from d (off # offs) s =
     bindK (readi d off (of_nat sizeof_dirent) s) (\<lambda>(r, de) s.
       if r \<noteq> int sizeof_dirent then Panic ''isdirempty: readi''
       else if de_inum de \<noteq> 0 then Done False s else isdirempty_from d offs s)"

definition isdirempty :: "nat \<Rightarrow> 'a lifek_scheme machine \<Rightarrow> ('a lifek_scheme machine, bool) outcome" where
  "isdirempty d s = isdirempty_from d (drop 2 (dir_offs (unat (i_size (inode_at d s))))) s"

definition sys_unlink :: "'a lifek_scheme machine \<Rightarrow> ('a lifek_scheme machine, int) outcome" where
  "sys_unlink s =
     need (argstr 0 s) (\<lambda>path s.
     bindK (begin_op s) (\<lambda>_ s.
     bindK (nameiparent path s) (\<lambda>(dpo, name) s.
     case dpo of None \<Rightarrow> fail_op s
     | Some dp \<Rightarrow>
       let bad = (\<lambda>s. bindK (iunlockput dp s) (\<lambda>_ s. fail_op s)) in
       bindK (ilock (Some dp) s) (\<lambda>_ s.
       if namecmp name [46] = 0 \<or> namecmp name [46, 46] = 0 then bad s
       else bindK (dirlookup dp name s) (\<lambda>r s.
       case r of None \<Rightarrow> bad s
       | Some (ip, off) \<Rightarrow>
         bindK (ilock (Some ip) s) (\<lambda>_ s.
         if sint (i_nlink (inode_at ip s)) < 1 then Panic ''unlink: nlink < 1''
         else bindK (if i_type (inode_at ip s) = T_DIR then bindK (isdirempty ip s) (\<lambda>e s. Done (\<not> e) s)
                     else Done False s) (\<lambda>full s.
         if full then bindK (iunlockput ip s) (\<lambda>_ s. bad s)
         else bindK (writei dp (replicate sizeof_dirent 0) off s) (\<lambda>r s.
         if r \<noteq> int sizeof_dirent then Panic ''unlink: writei''
         else bindK (if i_type (inode_at ip s) = T_DIR
                     then iupdate dp (upd_inode dp (\<lambda>i. i\<lparr>i_nlink := i_nlink i - 1\<rparr>) s)
                     else Done () s) (\<lambda>_ s.
         bindK (iunlockput dp s) (\<lambda>_ s.
         let s = upd_inode ip (\<lambda>i. i\<lparr>i_nlink := i_nlink i - 1\<rparr>) s in
         bindK (iupdate ip s) (\<lambda>_ s.
         bindK (iunlockput ip s) (\<lambda>_ s.
         bindK (end_op s) (\<lambda>_ s. Done 0 s)))))))))))))"

definition create :: "bytes \<Rightarrow> ushort \<Rightarrow> ushort \<Rightarrow> ushort \<Rightarrow> 'a lifek_scheme machine \<Rightarrow>
    ('a lifek_scheme machine, nat option) outcome" where
  "create path type major minor s =
     bindK (nameiparent path s) (\<lambda>(dpo, name) s.
     case dpo of None \<Rightarrow> Done None s
     | Some dp \<Rightarrow>
       bindK (ilock (Some dp) s) (\<lambda>_ s.
       bindK (dirlookup dp name s) (\<lambda>r s.
       case r of
         Some (ip, _) \<Rightarrow>
           bindK (iunlockput dp s) (\<lambda>_ s.
           bindK (ilock (Some ip) s) (\<lambda>_ s.
           if type = T_FILE \<and> i_type (inode_at ip s) = T_FILE then Done (Some ip) s
           else bindK (iunlockput ip s) (\<lambda>_ s. Done None s)))
       | None \<Rightarrow>
         bindK (ialloc (i_dev (inode_at dp s)) type s) (\<lambda>ip s.
         bindK (ilock (Some ip) s) (\<lambda>_ s.
         let s = upd_inode ip (\<lambda>i. i\<lparr>i_major := major\<rparr>) s;
             s = upd_inode ip (\<lambda>i. i\<lparr>i_minor := minor\<rparr>) s;
             s = upd_inode ip (\<lambda>i. i\<lparr>i_nlink := 1\<rparr>) s
         in bindK (iupdate ip s) (\<lambda>_ s.
         bindK (if type = T_DIR then
                  let s = upd_inode dp (\<lambda>i. i\<lparr>i_nlink := i_nlink i + 1\<rparr>) s in
                  bindK (iupdate dp s) (\<lambda>_ s.
                  bindK (dirlink ip [46] (i_inum (inode_at ip s)) s) (\<lambda>r s.
                  if r < 0 then Panic ''create dots''
                  else bindK (dirlink ip [46, 46] (i_inum (inode_at dp s)) s) (\<lambda>r s.
                    if r < 0 then Panic ''create dots'' else Done () s)))
                else Done () s) (\<lambda>_ s.
         bindK (dirlink dp name (i_inum (inode_at ip s)) s) (\<lambda>r s.
         if r < 0 then Panic ''create: dirlink''
         else bindK (iunlockput dp s) (\<lambda>_ s. Done (Some ip) s)))))))))"

definition O_RDONLY :: uint where "O_RDONLY = 0"
definition O_WRONLY :: uint where "O_WRONLY = 1"
definition O_RDWR :: uint where "O_RDWR = 2"
definition O_CREATE :: uint where "O_CREATE = 0x200"

text \<open>From the point where \<^verbatim>\<open>sys_open\<close> has a locked inode.\<close>

definition open_inode :: "nat \<Rightarrow> uint \<Rightarrow> 'a lifek_scheme machine \<Rightarrow> ('a lifek_scheme machine, int) outcome" where
  "open_inode ip omode s =
     (let bad = (\<lambda>s. bindK (iunlockput ip s) (\<lambda>_ s. fail_op s)) in
      bindK (filealloc s) (\<lambda>fo s.
      case fo of None \<Rightarrow> bad s
      | Some f \<Rightarrow>
        bindK (fdalloc f s) (\<lambda>fdo s.
        case fdo of None \<Rightarrow> bindK (fileclose f s) (\<lambda>_ s. bad s)
        | Some fd \<Rightarrow>
          bindK (iunlock (Some ip) s) (\<lambda>_ s.
          bindK (end_op s) (\<lambda>_ s.
          Done (int fd) (upd_file f (\<lambda>x. x\<lparr>f_type := FD_INODE, f_ip := Some ip, f_off := 0,
            f_readable := (omode AND O_WRONLY = 0),
            f_writable := (omode AND O_WRONLY \<noteq> 0 \<or> omode AND O_RDWR \<noteq> 0)\<rparr>) s))))))"

definition sys_open :: "'a lifek_scheme machine \<Rightarrow> ('a lifek_scheme machine, int) outcome" where
  "sys_open s =
     need (argstr 0 s) (\<lambda>path s.
     need (argint 1 s) (\<lambda>omode s.
     bindK (begin_op s) (\<lambda>_ s.
     if omode AND O_CREATE \<noteq> 0 then
       bindK (create path T_FILE 0 0 s) (\<lambda>ipo s.
         case ipo of None \<Rightarrow> fail_op s | Some ip \<Rightarrow> open_inode ip omode s)
     else
       bindK (namei path s) (\<lambda>ipo s.
         case ipo of None \<Rightarrow> fail_op s
         | Some ip \<Rightarrow>
           bindK (ilock (Some ip) s) (\<lambda>_ s.
           if i_type (inode_at ip s) = T_DIR \<and> omode \<noteq> O_RDONLY
           then bindK (iunlockput ip s) (\<lambda>_ s. fail_op s)
           else open_inode ip omode s)))))"

text \<open>\<^verbatim>\<open>sys_mkdir\<close>, \<^verbatim>\<open>sys_mknod\<close> and \<^verbatim>\<open>sys_chdir\<close> fetch their arguments inside the transaction.\<close>

definition need_op :: "('a lifek_scheme machine, 'b option) outcome \<Rightarrow>
    ('b \<Rightarrow> 'a lifek_scheme machine \<Rightarrow> ('a lifek_scheme machine, int) outcome) \<Rightarrow>
    ('a lifek_scheme machine, int) outcome" where
  "need_op r k = bindK r (\<lambda>x s. case x of None \<Rightarrow> fail_op s | Some a \<Rightarrow> k a s)"

definition sys_mkdir :: "'a lifek_scheme machine \<Rightarrow> ('a lifek_scheme machine, int) outcome" where
  "sys_mkdir s =
     bindK (begin_op s) (\<lambda>_ s.
     need_op (argstr 0 s) (\<lambda>path s.
     need_op (create path T_DIR 0 0 s) (\<lambda>ip s.
     bindK (iunlockput ip s) (\<lambda>_ s.
     bindK (end_op s) (\<lambda>_ s. Done 0 s)))))"

definition sys_mknod :: "'a lifek_scheme machine \<Rightarrow> ('a lifek_scheme machine, int) outcome" where
  "sys_mknod s =
     bindK (begin_op s) (\<lambda>_ s.
     need_op (argstr 0 s) (\<lambda>path s.
     need_op (argint 1 s) (\<lambda>major s.
     need_op (argint 2 s) (\<lambda>minor s.
     need_op (create path T_DEV (ucast major) (ucast minor) s) (\<lambda>ip s.
     bindK (iunlockput ip s) (\<lambda>_ s.
     bindK (end_op s) (\<lambda>_ s. Done 0 s)))))))"

definition sys_chdir :: "'a lifek_scheme machine \<Rightarrow> ('a lifek_scheme machine, int) outcome" where
  "sys_chdir s =
     bindK (current s) (\<lambda>cur s.
     bindK (begin_op s) (\<lambda>_ s.
     need_op (argstr 0 s) (\<lambda>path s.
     need_op (namei path s) (\<lambda>ip s.
     bindK (ilock (Some ip) s) (\<lambda>_ s.
     if i_type (inode_at ip s) \<noteq> T_DIR then bindK (iunlockput ip s) (\<lambda>_ s. fail_op s)
     else bindK (iunlock (Some ip) s) (\<lambda>_ s.
          bindK (case p_cwd (proc_at cur s) of None \<Rightarrow> Panic ''trap'' | Some c \<Rightarrow> iput c s) (\<lambda>_ s.
          bindK (end_op s) (\<lambda>_ s.
          Done 0 (upd_proc cur (\<lambda>p. p\<lparr>p_cwd := Some ip\<rparr>) s)))))))))"

section \<open>exec and pipe\<close>

fun fetch_argv :: "nat list \<Rightarrow> uint \<Rightarrow> bytes list \<Rightarrow> 'a lifek_scheme machine \<Rightarrow>
    ('a lifek_scheme machine, bytes list option) outcome" where
  "fetch_argv [] uargv acc s = Done None s"
| "fetch_argv (i # is) uargv acc s =
     bindK (fetchint (uargv + 4 * of_nat i) s) (\<lambda>r s.
       case r of None \<Rightarrow> Done None s
       | Some uarg \<Rightarrow>
         if uarg = 0 then Done (Some acc) s
         else bindK (fetchstr uarg s) (\<lambda>r s.
           case r of None \<Rightarrow> Done None s | Some a \<Rightarrow> fetch_argv is uargv (acc @ [a]) s))"

definition sys_exec :: "'a lifek_scheme machine \<Rightarrow> ('a lifek_scheme machine, int) outcome" where
  "sys_exec s =
     need (argstr 0 s) (\<lambda>path s.
     need (argint 1 s) (\<lambda>uargv s.
     need (fetch_argv [0..<MAXARG] uargv [] s) (\<lambda>argv s. exec path argv s)))"

definition sys_pipe :: "'a lifek_scheme machine \<Rightarrow> ('a lifek_scheme machine, int) outcome" where
  "sys_pipe s =
     need (argptr 0 8 s) (\<lambda>p s.
     need (pipealloc s) (\<lambda>(rf, wf) s.
     let bad = (\<lambda>s. bindK (fileclose rf s) (\<lambda>_ s. bindK (fileclose wf s) (\<lambda>_ s. Done (- 1) s))) in
     bindK (fdalloc rf s) (\<lambda>fd0 s.
     case fd0 of None \<Rightarrow> bad s
     | Some a \<Rightarrow>
       bindK (fdalloc wf s) (\<lambda>fd1 s.
       case fd1 of
         None \<Rightarrow>
           bindK (current s) (\<lambda>cur s.
             bad (upd_proc cur (\<lambda>p. p\<lparr>p_ofile := (p_ofile p)[a := None]\<rparr>) s))
       | Some b \<Rightarrow>
           bindK (vstore_bytes p (enc32 (of_nat a)) s) (\<lambda>_ s.
           bindK (vstore_bytes (p + 4) (enc32 (of_nat b)) s) (\<lambda>_ s. Done 0 s))))))"

end
