(* ===== verification/Kbd.thy ===== *)
theory Kbd
  imports Xv6_Prelude
begin

unbundle bit_operations_syntax

text \<open>
  The keyboard driver (\<^verbatim>\<open>kbd.c\<close>, \<^verbatim>\<open>kbd.h\<close>). A table of \<^verbatim>\<open>kbd.h\<close> is the list of its leading
  entries with the entries it gives by index; all others are 0. The status and data ports are
  arguments, the modifier state \<^verbatim>\<open>shift\<close> is passed along.
\<close>

section \<open>Tables\<close>

definition KBS_DIB :: uint where "KBS_DIB = 1"
definition SHIFT :: uint where "SHIFT = 1"
definition CTL :: uint where "CTL = 2"
definition ALT :: uint where "ALT = 4"
definition CAPSLOCK :: uint where "CAPSLOCK = 8"
definition NUMLOCK :: uint where "NUMLOCK = 16"
definition SCROLLLOCK :: uint where "SCROLLLOCK = 32"
definition E0ESC :: uint where "E0ESC = 64"

lemmas kbd_defs = KBS_DIB_def SHIFT_def CTL_def ALT_def CAPSLOCK_def NUMLOCK_def SCROLLLOCK_def E0ESC_def

definition keys :: "string \<Rightarrow> uchar list" where
  "keys cs = map of_char cs"

definition ctls :: "string \<Rightarrow> uchar list" where
  "ctls cs = map (\<lambda>c. of_char c - 64) cs"

definition table :: "uchar list \<Rightarrow> (nat \<times> uchar) list \<Rightarrow> nat \<Rightarrow> uchar" where
  "table base extra i = (case map_of extra i of Some v \<Rightarrow> v | None \<Rightarrow> if i < length base then base ! i else 0)"

definition shiftcode :: "nat \<Rightarrow> uchar" where
  "shiftcode = table [] [(0x1D, 2), (0x2A, 1), (0x36, 1), (0x38, 4), (0x9D, 2), (0xB8, 4)]"

definition togglecode :: "nat \<Rightarrow> uchar" where
  "togglecode = table [] [(0x3A, 8), (0x45, 16), (0x46, 32)]"

text \<open>The entries all three character tables share: the keys sent after an 0xE0 byte.\<close>

definition extended :: "(nat \<times> uchar) list" where
  "extended = [(0xC8, 0xE2), (0xD0, 0xE3), (0xC9, 0xE6), (0xD1, 0xE7), (0xCB, 0xE4), (0xCD, 0xE5),
     (0x97, 0xE0), (0xCF, 0xE1), (0xD2, 0xE8), (0xD3, 0xE9)]"

definition keypad :: "uchar list" where
  "keypad = [0, 32] @ replicate 13 0 @ keys ''789-456+1230.'' @ replicate 4 0"

definition normalmap :: "nat \<Rightarrow> uchar" where
  "normalmap = table ([0, 0x1B] @ keys ''1234567890-='' @ [8, 9] @ keys ''qwertyuiop[]'' @ [10, 0] @
     keys ''asdfghjkl;'' @ [39, 96, 0, 92] @ keys ''zxcvbnm,./'' @ [0, 42] @ keypad)
     ([(0x9C, 10), (0xB5, 47)] @ extended)"

definition shiftmap :: "nat \<Rightarrow> uchar" where
  "shiftmap = table ([0, 27] @ keys ''!@#$%^&*()_+'' @ [8, 9] @ keys ''QWERTYUIOP{}'' @ [10, 0] @
     keys ''ASDFGHJKL:'' @ [34, 126, 0, 124] @ keys ''ZXCVBNM<>?'' @ [0, 42] @ keypad)
     ([(0x9C, 10), (0xB5, 47)] @ extended)"

definition ctlmap :: "nat \<Rightarrow> uchar" where
  "ctlmap = table (replicate 16 0 @ ctls ''QWERTYUIOP'' @ [0, 0, 13, 0] @ ctls ''ASDFGHJKL'' @ [0, 0, 0, 0] @
     [92 - 64] @ ctls ''ZXCVBNM'' @ [0, 0, 47 - 64, 0, 0])
     ([(0x9C, 13), (0xB5, 47 - 64)] @ extended)"

definition charcode :: "nat \<Rightarrow> nat \<Rightarrow> uchar" where
  "charcode i = [normalmap, shiftmap, ctlmap, ctlmap] ! i"

section \<open>Reading a key\<close>

text \<open>Small letters (97 to 122) and capital letters (65 to 90) change places while caps lock is on.\<close>

definition swap_case :: "uint \<Rightarrow> uint" where
  "swap_case c =
     (if 97 \<le> c \<and> c \<le> 122 then c + (65 - 97) else if 65 \<le> c \<and> c \<le> 90 then c + (97 - 65) else c)"

text \<open>\<^verbatim>\<open>kbdgetc\<close> with the values of the two ports; the result and the new modifier state.\<close>

definition kbdgetc :: "uchar \<Rightarrow> uchar \<Rightarrow> uint \<Rightarrow> int \<times> uint" where
  "kbdgetc stat_port data_port shift =
     (let st = ucast stat_port :: uint; data = ucast data_port :: uint in
      if st AND KBS_DIB = 0 then (- 1, shift)
      else if data = 0xE0 then (0, shift OR E0ESC)
      else if data AND 0x80 \<noteq> 0 then
        let data = (if shift AND E0ESC \<noteq> 0 then data else data AND 0x7F)
        in (0, shift AND NOT (ucast (shiftcode (unat data)) OR E0ESC))
      else
        let (data, shift) = (if shift AND E0ESC \<noteq> 0 then (data OR 0x80, shift AND NOT E0ESC) else (data, shift));
            shift = shift OR ucast (shiftcode (unat data));
            shift = shift XOR ucast (togglecode (unat data));
            c = ucast (charcode (unat (shift AND (CTL OR SHIFT))) (unat data)) :: uint;
            c = (if shift AND CAPSLOCK \<noteq> 0 then swap_case c else c)
        in (sint c, shift))"

text \<open>
  The characters that \<^verbatim>\<open>consoleintr(kbdgetc)\<close> gets: one result for each pair of port values, up
  to the first negative one.
\<close>

fun kbd_read :: "(uchar \<times> uchar) list \<Rightarrow> uint \<Rightarrow> int list \<times> uint" where
  "kbd_read [] shift = ([], shift)"
| "kbd_read ((st, data) # ps) shift =
     (let (c, shift) = kbdgetc st data shift in
      if c < 0 then ([], shift) else let (cs, shift) = kbd_read ps shift in (c # cs, shift))"

end
