(* ===== verification/Trap.thy ===== *)
theory Trap
  imports Syscall Kbd
begin

unbundle bit_operations_syntax

text \<open>
  The process system calls (\<^verbatim>\<open>sysproc.c\<close>), the dispatch of system calls (\<^verbatim>\<open>syscall.c\<close>) and the
  trap handler (\<^verbatim>\<open>trap.c\<close>). The values a trap reads from hardware (the keyboard ports, the
  serial line, \<^verbatim>\<open>cr2\<close>) are arguments; acknowledging an interrupt has no effect on the state.
\<close>

section \<open>Process system calls\<close>

definition sys_answer :: "'a lifek_scheme machine \<Rightarrow> ('a lifek_scheme machine, int) outcome" where
  "sys_answer s = Done 42 s"

definition sys_pscnt :: "'a lifek_scheme machine \<Rightarrow> ('a lifek_scheme machine, int) outcome" where
  "sys_pscnt s = process_count s"

definition sys_fork :: "'a lifek_scheme machine \<Rightarrow> ('a lifek_scheme machine, int) outcome" where
  "sys_fork s = fork s"

definition sys_exit :: "'a lifek_scheme machine \<Rightarrow> ('a lifek_scheme machine, int) outcome" where
  "sys_exit s = bindK (exit s) (\<lambda>_ s. Done 0 s)"

definition sys_wait :: "'a lifek_scheme machine \<Rightarrow> ('a lifek_scheme machine, int) outcome" where
  "sys_wait s = wait s"

definition sys_kill :: "'a lifek_scheme machine \<Rightarrow> ('a lifek_scheme machine, int) outcome" where
  "sys_kill s = need (argint 0 s) (\<lambda>pid s. kill (sint pid) s)"

definition sys_getpid :: "'a lifek_scheme machine \<Rightarrow> ('a lifek_scheme machine, int) outcome" where
  "sys_getpid s = bindK (current s) (\<lambda>cur s. Done (p_pid (proc_at cur s)) s)"

text \<open>The first process has no parent; \<^verbatim>\<open>->pid\<close> of the null pointer is the word at user address 16.\<close>

definition sys_getppid :: "'a lifek_scheme machine \<Rightarrow> ('a lifek_scheme machine, int) outcome" where
  "sys_getppid s =
     bindK (current s) (\<lambda>cur s.
       case p_parent (proc_at cur s) of
         Some i \<Rightarrow> Done (p_pid (proc_at i s)) s
       | None \<Rightarrow> (case vload32 s 16 of None \<Rightarrow> Panic ''trap'' | Some v \<Rightarrow> Done (sint v) s))"

definition sys_sbrk :: "'a lifek_scheme machine \<Rightarrow> ('a lifek_scheme machine, int) outcome" where
  "sys_sbrk s =
     need (argint 0 s) (\<lambda>n s.
     bindK (current s) (\<lambda>cur s.
     let addr = sint (p_sz (proc_at cur s)) in
     bindK (growproc (sint n) s) (\<lambda>r s. if r < 0 then Done (- 1) s else Done addr s)))"

text \<open>The loop of \<^verbatim>\<open>sys_sleep\<close>, cut at its \<^verbatim>\<open>sleep\<close>; the comparison is one of unsigned numbers.\<close>

definition sys_sleep_loop :: "uint \<Rightarrow> uint \<Rightarrow> 'a lifek_scheme machine \<Rightarrow> ('a lifek_scheme machine, int) outcome" where
  "sys_sleep_loop ticks0 n s =
     (if ticks (kern s) - ticks0 < n then
        bindK (current s) (\<lambda>cur s.
          if p_killed (proc_at cur s) then bindK (release Ticks_lk s) (\<lambda>_ s. Done (- 1) s)
          else bindK (sleep Ticks_ch (Some Ticks_lk) s) (\<lambda>_ s. Done 0 s))
      else bindK (release Ticks_lk s) (\<lambda>_ s. Done 0 s))"

definition sys_sleep :: "'a lifek_scheme machine \<Rightarrow> ('a lifek_scheme machine, int) outcome" where
  "sys_sleep s =
     need (argint 0 s) (\<lambda>n s.
     bindK (acquire Ticks_lk s) (\<lambda>_ s. sys_sleep_loop (ticks (kern s)) n s))"

definition sys_sleep_resume :: "bool \<Rightarrow> nat \<Rightarrow> uint \<Rightarrow> uint \<Rightarrow> 'a lifek_scheme machine \<Rightarrow>
    ('a lifek_scheme machine, int) outcome" where
  "sys_sleep_resume en me ticks0 n s =
     bindK (sleep_resume en me Ticks_lk s) (\<lambda>_ s. sys_sleep_loop ticks0 n s)"

definition sys_uptime :: "'a lifek_scheme machine \<Rightarrow> ('a lifek_scheme machine, int) outcome" where
  "sys_uptime s =
     bindK (acquire Ticks_lk s) (\<lambda>_ s.
       let xticks = ticks (kern s) in
       bindK (release Ticks_lk s) (\<lambda>_ s. Done (sint xticks) s))"

definition sys_trace :: "'a lifek_scheme machine \<Rightarrow> ('a lifek_scheme machine, int) outcome" where
  "sys_trace s = need (argint 0 s) (\<lambda>v s. Done 0 (upd_kern (\<lambda>k. k\<lparr>trace := sint v\<rparr>) s))"

text \<open>The two loops of \<^verbatim>\<open>sys_pgcnt\<close>: over a page table, and over the page directory.\<close>

fun count_ptes :: "memory \<Rightarrow> addr \<Rightarrow> nat list \<Rightarrow> int \<Rightarrow> int" where
  "count_ptes m pt [] cnt = cnt"
| "count_ptes m pt (j # js) cnt =
     (let flag = PTE_P OR PTE_U in
      count_ptes m pt js (if read32 m (pt + 4 * of_nat j) AND flag = flag then cnt + 1 else cnt))"

fun count_pdes :: "memory \<Rightarrow> addr \<Rightarrow> nat list \<Rightarrow> int \<Rightarrow> int" where
  "count_pdes m pgdir [] cnt = cnt"
| "count_pdes m pgdir (i # is) cnt =
     (let pde = read32 m (pgdir + 4 * of_nat i) in
      count_pdes m pgdir is
        (if pde AND PTE_P \<noteq> 0 then count_ptes m (P2V (PTE_ADDR pde)) [0..<NPTENTRIES] cnt else cnt))"

definition sys_pgcnt :: "'a lifek_scheme machine \<Rightarrow> ('a lifek_scheme machine, int) outcome" where
  "sys_pgcnt s =
     bindK (current s) (\<lambda>cur s.
       Done (count_pdes (mem (kern s)) (p_pgdir (proc_at cur s)) [0..<NPDENTRIES] 0) s)"

section \<open>Dispatch\<close>

definition syscalls :: "int \<Rightarrow> (string \<times> ('a lifek_scheme machine \<Rightarrow> ('a lifek_scheme machine, int) outcome)) option" where
  "syscalls n = map_of
     [(1, (''sys_fork'', sys_fork)), (2, (''sys_exit'', sys_exit)), (3, (''sys_wait'', sys_wait)),
      (4, (''sys_pipe'', sys_pipe)), (5, (''sys_read'', sys_read)), (6, (''sys_kill'', sys_kill)),
      (7, (''sys_exec'', sys_exec)), (8, (''sys_fstat'', sys_fstat)), (9, (''sys_chdir'', sys_chdir)),
      (10, (''sys_dup'', sys_dup)), (11, (''sys_getpid'', sys_getpid)), (12, (''sys_sbrk'', sys_sbrk)),
      (13, (''sys_sleep'', sys_sleep)), (14, (''sys_uptime'', sys_uptime)), (15, (''sys_open'', sys_open)),
      (16, (''sys_write'', sys_write)), (17, (''sys_mknod'', sys_mknod)), (18, (''sys_unlink'', sys_unlink)),
      (19, (''sys_link'', sys_link)), (20, (''sys_mkdir'', sys_mkdir)), (21, (''sys_close'', sys_close)),
      (22, (''sys_trace'', sys_trace)), (42, (''sys_answer'', sys_answer)), (75, (''sys_getppid'', sys_getppid)),
      (76, (''sys_pscnt'', sys_pscnt)), (77, (''sys_pgcnt'', sys_pgcnt))] n"

definition syscall :: "'a lifek_scheme machine \<Rightarrow> ('a lifek_scheme machine, unit) outcome" where
  "syscall s =
     bindK (current s) (\<lambda>cur s.
       let num = sint (read32 (mem (kern s)) (p_tf (proc_at cur s) + tf_eax)) in
       case syscalls num of
         Some (name, f) \<Rightarrow>
           bindK (f s) (\<lambda>r s.
           let s = set_tf cur tf_eax (of_int r) s in
           if trace (kern s) > 0
           then cprintf (''[%d] %s: %d'' @ [CHR 0x0A]) [Num (of_int num), Str (codes name), Num (of_int r)] s
           else Done () s)
       | None \<Rightarrow>
           bindK (cprintf (''%d %s: unknown sys call %d'' @ [CHR 0x0A])
             [Num (of_int (p_pid (proc_at cur s))), Str (map sint (p_name (proc_at cur s))), Num (of_int num)] s) (\<lambda>_ s.
           Done () (set_tf cur tf_eax (- 1) s)))"

section \<open>Traps\<close>

definition T_SYSCALL :: uint where "T_SYSCALL = 64"
definition T_IRQ0 :: uint where "T_IRQ0 = 32"
definition IRQ_TIMER :: uint where "IRQ_TIMER = 0"
definition IRQ_KBD :: uint where "IRQ_KBD = 1"
definition IRQ_COM1 :: uint where "IRQ_COM1 = 4"
definition IRQ_IDE :: uint where "IRQ_IDE = 14"
definition IRQ_SPURIOUS :: uint where "IRQ_SPURIOUS = 31"

lemmas trap_defs = T_SYSCALL_def T_IRQ0_def IRQ_TIMER_def IRQ_KBD_def IRQ_COM1_def IRQ_IDE_def IRQ_SPURIOUS_def

record trap_input =
  ti_keys :: "int list"
  ti_serial :: "int list"
  ti_cr2 :: uint

definition tick :: "'a lifek_scheme machine \<Rightarrow> ('a lifek_scheme machine, unit) outcome" where
  "tick s =
     bindK (acquire Ticks_lk s) (\<lambda>_ s.
     let s = upd_kern (\<lambda>k. k\<lparr>ticks := ticks k + 1\<rparr>) s in
     bindK (wakeup Ticks_ch s) (\<lambda>_ s. release Ticks_lk s))"

definition tf_word :: "addr \<Rightarrow> uint \<Rightarrow> 'a lifek_scheme machine \<Rightarrow> uint" where
  "tf_word tf off s = read32 (mem (kern s)) (tf + off)"

definition tf_csel :: "addr \<Rightarrow> 'a lifek_scheme machine \<Rightarrow> uint" where
  "tf_csel tf s = tf_word tf tf_cs s AND 0xFFFF"

text \<open>The \<^verbatim>\<open>default\<close> case: a fault in the kernel or in user space.\<close>

definition trap_fault :: "addr \<Rightarrow> uint \<Rightarrow> 'a lifek_scheme machine \<Rightarrow> ('a lifek_scheme machine, unit) outcome" where
  "trap_fault tf cr2 s =
     bindK (myproc s) (\<lambda>p s.
       case p of
         None \<Rightarrow> Panic ''trap''
       | Some cur \<Rightarrow>
         if tf_csel tf s AND 3 = 0 then Panic ''trap''
         else bindK (cpuid s) (\<lambda>c s.
           bindK (cprintf (''pid %d %s: trap %d err %d on cpu %d eip 0x%x addr 0x%x--kill proc'' @ [CHR 0x0A])
             [Num (of_int (p_pid (proc_at cur s))), Str (map sint (p_name (proc_at cur s))),
              Num (tf_word tf tf_trapno s), Num (tf_word tf tf_err s), Num (of_nat c),
              Num (tf_word tf tf_eip s), Num cr2] s) (\<lambda>_ s.
           Done () (upd_proc cur (\<lambda>p. p\<lparr>p_killed := True\<rparr>) s))))"

definition trap_switch :: "addr \<Rightarrow> trap_input \<Rightarrow> 'a lifek_scheme machine \<Rightarrow> ('a lifek_scheme machine, unit) outcome" where
  "trap_switch tf inp s =
     (let no = tf_word tf tf_trapno s in
      if no = T_IRQ0 + IRQ_TIMER then
        bindK (cpuid s) (\<lambda>c s. if c = 0 then tick s else Done () s)
      else if no = T_IRQ0 + IRQ_IDE then Done () (ideintr s)
      else if no = T_IRQ0 + IRQ_IDE + 1 then Done () s
      else if no = T_IRQ0 + IRQ_KBD then consoleintr (ti_keys inp) s
      else if no = T_IRQ0 + IRQ_COM1 then consoleintr (ti_serial inp) s
      else if no = T_IRQ0 + 7 \<or> no = T_IRQ0 + IRQ_SPURIOUS then
        bindK (cpuid s) (\<lambda>c s.
          cprintf (''cpu%d: spurious interrupt at %x:%x'' @ [CHR 0x0A])
            [Num (of_nat c), Num (tf_csel tf s), Num (tf_word tf tf_eip s)] s)
      else trap_fault tf (ti_cr2 inp) s)"

definition exit_if_killed :: "addr \<Rightarrow> 'a lifek_scheme machine \<Rightarrow> ('a lifek_scheme machine, unit) outcome" where
  "exit_if_killed tf s =
     bindK (myproc s) (\<lambda>p s.
       case p of None \<Rightarrow> Done () s
       | Some cur \<Rightarrow>
         if p_killed (proc_at cur s) \<and> tf_csel tf s AND 3 = ucast DPL_USER then exit s else Done () s)"

definition trap :: "addr \<Rightarrow> trap_input \<Rightarrow> 'a lifek_scheme machine \<Rightarrow> ('a lifek_scheme machine, unit) outcome" where
  "trap tf inp s =
     (if tf_word tf tf_trapno s = T_SYSCALL then
        bindK (current s) (\<lambda>cur s.
        bindK (if p_killed (proc_at cur s) then exit s else Done () s) (\<lambda>_ s.
        let s = upd_proc cur (\<lambda>p. p\<lparr>p_tf := tf\<rparr>) s in
        bindK (syscall s) (\<lambda>_ s.
        bindK (current s) (\<lambda>cur s.
        if p_killed (proc_at cur s) then exit s else Done () s))))
      else
        bindK (trap_switch tf inp s) (\<lambda>_ s.
        bindK (exit_if_killed tf s) (\<lambda>_ s.
        bindK (myproc s) (\<lambda>p s.
        bindK (case p of None \<Rightarrow> Done () s
               | Some cur \<Rightarrow>
                 if p_state (proc_at cur s) = RUNNING \<and> tf_word tf tf_trapno s = T_IRQ0 + IRQ_TIMER
                 then yield s else Done () s) (\<lambda>_ s.
        exit_if_killed tf s)))))"

text \<open>What is left of \<^verbatim>\<open>trap\<close> when the process runs again after its \<^verbatim>\<open>yield\<close>.\<close>

definition trap_resume :: "bool \<Rightarrow> addr \<Rightarrow> 'a lifek_scheme machine \<Rightarrow> ('a lifek_scheme machine, unit) outcome" where
  "trap_resume en tf s = bindK (yield_resume en s) (\<lambda>_ s. exit_if_killed tf s)"

section \<open>The descriptor table\<close>

record gatedesc =
  g_off :: uint
  g_cs :: ushort
  g_istrap :: bool
  g_dpl :: "2 word"

definition SETGATE :: "bool \<Rightarrow> ushort \<Rightarrow> uint \<Rightarrow> 2 word \<Rightarrow> gatedesc" where
  "SETGATE istrap sel off d = \<lparr>g_off = off, g_cs = sel, g_istrap = istrap, g_dpl = d\<rparr>"

text \<open>\<open>vectors\<close> is the table of entry points that \<^verbatim>\<open>vectors.pl\<close> generates.\<close>

definition tvinit :: "(nat \<Rightarrow> uint) \<Rightarrow> 'k machine \<Rightarrow> gatedesc list \<times> 'k machine" where
  "tvinit vectors s =
     (let idt = map (\<lambda>i. SETGATE False (push_bit 3 (of_nat SEG_KCODE)) (vectors i) 0) [0..<256];
          idt = idt[unat T_SYSCALL := SETGATE True (push_bit 3 (of_nat SEG_KCODE)) (vectors (unat T_SYSCALL)) DPL_USER]
      in (idt, initlock Ticks_lk ''time'' s))"

end
