(* ===== verification/Calm.thy ===== *)
theory Calm
  imports Sleeplock
begin

text \<open>
  Running a routine alone. In a calm state the processor holds no spin lock and no spin lock is
  held elsewhere; a critical section then changes exactly the kernel data. The lemmas here
  reduce the locking of the components above to that, and give the sleep locks their meaning:
  taking a free one, waiting for a taken one, and releasing one with its wakeup.
\<close>

section \<open>Calm states\<close>

definition calm :: "'k machine \<Rightarrow> bool" where
  "calm s \<longleftrightarrow> cpu_ok s \<and> touch s = s \<and> mycli s = 0 \<and> (\<forall>l. lk_free l s \<and> lkcpu (locks s l) = None)"

lemma calm_quiet: "calm s \<Longrightarrow> quiet l s"
  by (simp add: calm_def quiet_def)

lemma calm_upd [simp]: "calm s \<Longrightarrow> calm (upd_kern f s)"
  by (simp add: calm_def upd_kern_commute)

lemma calm_section:
  assumes "calm s"
  shows "acquire l s = Done () (acq l s)" "release l (acq l s) = Done () s"
    "release l (upd_kern f (acq l s)) = Done () (upd_kern f s)"
  using critical [OF calm_quiet [OF assms]] assms by (simp_all add: calm_def)

lemma quiet_inside:
  assumes "calm s" "l' \<noteq> l"
  shows "quiet l' (acq l s)"
  using assms acq_ok(1) [of s l] by (simp add: calm_def quiet_def lk_free_def) (simp add: acq_def set_lock_def)

lemma touch_acq [simp]: "cpu_ok s \<Longrightarrow> touch (acq l s) = acq l s"
  using acq_ok(3) [of s l] cpu_okD(3) [of s] by (intro touch_id) simp

lemma calm_inner:
  assumes "calm s" "l' \<noteq> l"
  shows "acquire l' (upd_kern f (acq l s)) = Done () (upd_kern f (acq l' (acq l s)))"
    and "release l' (upd_kern f (acq l' (acq l s))) = Done () (upd_kern f (acq l s))"
proof -
  have q: "quiet l' (acq l s)" using quiet_inside [OF assms] .
  have c: "cpu_ok s" using assms by (simp add: calm_def)
  show "acquire l' (upd_kern f (acq l s)) = Done () (upd_kern f (acq l' (acq l s)))"
    using quiet_acquire [of l' "upd_kern f (acq l s)"] q by (simp add: upd_kern_commute)
  show "release l' (upd_kern f (acq l' (acq l s))) = Done () (upd_kern f (acq l s))"
    using release_acq(2) [OF q, of f] c by simp
qed

section \<open>The current process\<close>

definition me :: "'k machine \<Rightarrow> nat option" where
  "me s = cproc (cpus s ! this s)"

lemma me_upd [simp]: "me (upd_kern f s) = me s"
  by (simp add: me_def)

lemma me_touch [simp]: "me (touch s) = me s"
  by (cases "this s < length (cpus s)") (simp_all add: me_def cpus_touch list_update_beyond)

lemma me_acq [simp]: "cpu_ok s \<Longrightarrow> me (acq l s) = me s"
  using cpu_okD(2) [of s] by (simp add: me_def acq_def set_lock_def cpus_pushed)

lemma calm_ok: "calm s \<Longrightarrow> cpu_ok s"
  by (simp add: calm_def)

lemma myproc_calm: "calm s \<Longrightarrow> myproc s = Done (me s) s"
  by (simp add: calm_def myproc_ok me_def)

lemma myproc_inside: "calm s \<Longrightarrow> myproc (upd_kern f (acq l s)) = Done (me s) (upd_kern f (acq l s))"
  using myproc_ok [of "upd_kern f (acq l s)"] acq_ok(1) [of s l] me_acq [of s l]
  by (simp add: calm_ok upd_kern_commute me_def)

text \<open>A calm machine with one processor, which runs process \<open>i\<close>.\<close>

definition at_work :: "nat \<Rightarrow> 'k \<Rightarrow> 'k machine" where
  "at_work i k = \<lparr>lapic_id = 0, eflags_IF = (\<lambda>_. True),
     cpus = [\<lparr>apicid = 0, ncli = 0, intena = True, cproc = Some i\<rparr>],
     locks = (\<lambda>_. \<lparr>locked = 0, lkname = [], lkcpu = None\<rparr>), kern = k\<rparr>"

lemma at_work [simp]: "calm (at_work i k)" "me (at_work i k) = Some i" "kern (at_work i k) = k"
proof -
  have t: "this (at_work i k) = 0" by (simp add: this_def at_work_def)
  have f: "cpus (at_work i k) = [\<lparr>apicid = 0, ncli = 0, intena = True, cproc = Some i\<rparr>]"
    "lapic_id (at_work i k) = 0" "eflags_IF (at_work i k) = (\<lambda>_. True)"
    "locks (at_work i k) = (\<lambda>_. \<lparr>locked = 0, lkname = [], lkcpu = None\<rparr>)"
    by (simp_all add: at_work_def)
  have "touch (at_work i k) = at_work i k"
    by (intro machine.equality) (simp_all add: cpus_touch t f)
  then show "calm (at_work i k)"
    by (simp add: calm_def cpu_ok_def lk_free_def t f)
  show "me (at_work i k) = Some i" by (simp add: me_def t f)
  show "kern (at_work i k) = k" by (simp add: at_work_def)
qed

section \<open>Wakeup\<close>

definition wake :: "chan \<Rightarrow> proc list \<Rightarrow> proc list" where
  "wake ch = map (\<lambda>p. if p_state p = SLEEPING \<and> p_chan p = Some ch then p\<lparr>p_state := RUNNABLE\<rparr> else p)"

lemma wakeup1_wake: "wakeup1 ch = upd_kern (\<lambda>k. k\<lparr>ptable := wake ch (ptable k)\<rparr>)"
  by (simp add: wakeup1_def wake_def)

lemma length_wake [simp]: "length (wake ch ps) = length ps"
  by (simp add: wake_def)

lemma wake_nth: "i < length ps \<Longrightarrow> wake ch ps ! i =
    (if p_state (ps ! i) = SLEEPING \<and> p_chan (ps ! i) = Some ch then (ps ! i)\<lparr>p_state := RUNNABLE\<rparr> else ps ! i)"
  by (simp add: wake_def)

lemma wake_fields [simp]:
  "i < length ps \<Longrightarrow> p_pid (wake ch ps ! i) = p_pid (ps ! i)"
  "i < length ps \<Longrightarrow> p_killed (wake ch ps ! i) = p_killed (ps ! i)"
  "i < length ps \<Longrightarrow> p_ofile (wake ch ps ! i) = p_ofile (ps ! i)"
  "i < length ps \<Longrightarrow> p_cwd (wake ch ps ! i) = p_cwd (ps ! i)"
  "i < length ps \<Longrightarrow> p_pgdir (wake ch ps ! i) = p_pgdir (ps ! i)"
  "i < length ps \<Longrightarrow> p_sz (wake ch ps ! i) = p_sz (ps ! i)"
  "i < length ps \<Longrightarrow> p_parent (wake ch ps ! i) = p_parent (ps ! i)"
  by (simp_all add: wake_nth)

lemma wakeup_calm:
  "calm s \<Longrightarrow> wakeup ch s = Done () (upd_kern (\<lambda>k. k\<lparr>ptable := wake ch (ptable k)\<rparr>) s)"
  by (simp add: wakeup_def wakeup1_wake calm_section)

lemma wakeup_inside:
  assumes "calm s" "l \<noteq> Ptable_lk"
  shows "wakeup ch (upd_kern f (acq l s)) =
    Done () (upd_kern (\<lambda>k. (f k)\<lparr>ptable := wake ch (ptable (f k))\<rparr>) (acq l s))"
  using calm_inner [OF assms(1) assms(2) [symmetric]] by (simp add: wakeup_def wakeup1_wake)

section \<open>Sleep locks\<close>

definition running :: "nat \<Rightarrow> 'a procs_scheme machine \<Rightarrow> bool" where
  "running i s \<longleftrightarrow> me s = Some i \<and> i < length (ptable (kern s))"

definition pid_of :: "nat \<Rightarrow> 'a procs_scheme machine \<Rightarrow> int" where
  "pid_of i s = p_pid (proc_at i s)"

lemma sl_lk_not_ptable [simp]: "sl_lk l \<noteq> Ptable_lk"
  by (cases l) simp_all

lemma acquiresleep_free:
  assumes "calm s" "me s = Some i" "\<not> slocked (sleeplocks (kern s) l)"
  shows "acquiresleep l s = Done () (upd_sl l (\<lambda>k. k\<lparr>slocked := True, slpid := pid_of i s\<rparr>) s)"
  using assms
  by (simp add: acquiresleep_def acquiresleep_loop_def calm_section mypid_def upd_sl_def myproc_inside
      pid_of_def proc_at_def)

lemma holdingsleep_calm:
  assumes "calm s" "me s = Some i"
  shows "holdingsleep l s =
    Done (slocked (sleeplocks (kern s) l) \<and> slpid (sleeplocks (kern s) l) = pid_of i s) s"
proof -
  have m: "myproc (acq (sl_lk l) s) = Done (Some i) (acq (sl_lk l) s)"
    using myproc_inside [OF assms(1), of "\<lambda>k. k"] assms(2) by simp
  show ?thesis
    using assms by (simp add: holdingsleep_def calm_section mypid_def m pid_of_def proc_at_def bindK_if)
qed

lemma releasesleep_calm:
  assumes "calm s"
  shows "releasesleep l s = Done () (upd_kern (\<lambda>k. k\<lparr>ptable := wake (sl_chan l) (ptable k),
    sleeplocks := (sleeplocks k)(l := (sleeplocks k l)\<lparr>slocked := False, slpid := 0\<rparr>)\<rparr>) s)"
  using assms by (simp add: releasesleep_def calm_section upd_sl_def wakeup_inside)

end
