(* ===== verification/Bio_Ring.thy ===== *)
theory Bio_Ring
  imports Bio Calm
begin

text \<open>
  The ring of buffers refines a list. \<open>linked bs xs\<close> says that the links of the table \<open>bs\<close> visit
  exactly the buffers of \<open>xs\<close> in that order and back; the two loops of \<^verbatim>\<open>bget\<close> are then a search
  of the list from either end, and \<^verbatim>\<open>brelse\<close> moves a buffer to its front.
\<close>

section \<open>Chains of links\<close>

definition chain :: "(nat \<Rightarrow> nat) \<Rightarrow> (nat \<Rightarrow> nat) \<Rightarrow> nat list \<Rightarrow> bool" where
  "chain nx pv = successively (\<lambda>a b. nx a = b \<and> pv b = a)"

lemma chain_Cons [simp]:
  "chain nx pv []" "chain nx pv [a]"
  "chain nx pv (a # b # xs) \<longleftrightarrow> nx a = b \<and> pv b = a \<and> chain nx pv (b # xs)"
  by (simp_all add: chain_def)

lemma chain_append:
  "chain nx pv (xs @ ys) \<longleftrightarrow> chain nx pv xs \<and> chain nx pv ys \<and>
     (xs = [] \<or> ys = [] \<or> nx (last xs) = hd ys \<and> pv (hd ys) = last xs)"
  by (auto simp: chain_def successively_append_iff)

lemma in_tlD: "x \<in> set (tl xs) \<Longrightarrow> x \<in> set xs"
  by (cases xs) auto

lemma chain_cong:
  "chain nx pv xs \<Longrightarrow> (\<And>x. x \<in> set (butlast xs) \<Longrightarrow> nx' x = nx x) \<Longrightarrow>
     (\<And>x. x \<in> set (tl xs) \<Longrightarrow> pv' x = pv x) \<Longrightarrow> chain nx' pv' xs"
proof (induction xs)
  case Nil
  then show ?case by simp
next
  case (Cons a xs)
  then show ?case
  proof (cases xs)
    case Nil
    then show ?thesis by simp
  next
    case (Cons b ys)
    have "chain nx' pv' xs"
      using Cons.prems Cons by (intro Cons.IH) (auto dest: in_tlD)
    with Cons Cons.prems show ?thesis by simp
  qed
qed

lemma chain_rev: "chain nx pv xs \<Longrightarrow> chain pv nx (rev xs)"
proof (induction xs)
  case Nil
  then show ?case by simp
next
  case (Cons a xs)
  then show ?case
    by (cases xs) (auto simp: chain_append last_rev)
qed

lemma chain_unlink:
  assumes "chain nx pv (A @ b # B)" "A \<noteq> []" "B \<noteq> []"
    and "last A \<notin> set (butlast A)" "last A \<notin> set (butlast B)" "hd B \<notin> set (tl A)" "hd B \<notin> set (tl B)"
  shows "chain (nx(last A := hd B)) (pv(hd B := last A)) (A @ B)"
proof -
  have "chain nx pv A" "chain nx pv B"
    using assms(1,3) by (auto simp: chain_append neq_Nil_conv)
  then have "chain (nx(last A := hd B)) (pv(hd B := last A)) A" "chain (nx(last A := hd B)) (pv(hd B := last A)) B"
    using assms(4-7) by (auto elim!: chain_cong)
  then show ?thesis by (simp add: chain_append)
qed

lemma chain_link:
  assumes "chain nx pv (h # ys)" "ys \<noteq> []" "b \<notin> set (h # ys)" "h \<notin> set (butlast ys)" "hd ys \<notin> set (tl ys)"
  shows "chain (nx(b := hd ys, h := b)) (pv(b := h, hd ys := b)) (h # b # ys)"
proof -
  have "chain nx pv ys" using assms(1,2) by (cases ys) auto
  then have "chain (nx(b := hd ys, h := b)) (pv(b := h, hd ys := b)) ys"
    using assms(3-5) by (elim chain_cong) (auto dest: in_set_butlastD in_tlD)
  then show ?thesis using assms(2,3) by (cases ys) auto
qed

section \<open>The ring\<close>

definition linked :: "buf list \<Rightarrow> nat list \<Rightarrow> bool" where
  "linked bs xs \<longleftrightarrow> length bs = Suc NBUF \<and> distinct xs \<and> set xs = {..<NBUF} \<and>
     chain (\<lambda>b. b_next (bs ! b)) (\<lambda>b. b_prev (bs ! b)) (NBUF # xs @ [NBUF])"

lemma walk_chain:
  assumes "chain nx pv (ys @ [NBUF])" "NBUF \<notin> set ys" "length ys < n" "\<And>b. b \<in> set ys \<Longrightarrow> f (bs ! b) = nx b"
  shows "walk n f P bs (hd (ys @ [NBUF])) = Some (find (\<lambda>b. P (bs ! b)) ys)"
  using assms
proof (induction ys arbitrary: n)
  case Nil
  then show ?case by (cases n) auto
next
  case (Cons y ys)
  obtain m where m: "n = Suc m" using Cons.prems(3) by (cases n) auto
  have "nx y = hd (ys @ [NBUF])" "chain nx pv (ys @ [NBUF])"
    using Cons.prems(1) by (cases ys; simp)+
  then show ?case using Cons m by auto
qed

lemma linked_walks:
  assumes "linked bs xs"
  shows "walk (Suc NBUF) b_next P bs (b_next (bs ! NBUF)) = Some (find (\<lambda>b. P (bs ! b)) xs)"
    and "walk (Suc NBUF) b_prev P bs (b_prev (bs ! NBUF)) = Some (find (\<lambda>b. P (bs ! b)) (rev xs))"
proof -
  note l = assms [unfolded linked_def]
  have len: "length xs < Suc NBUF" using l distinct_card [of xs] by simp
  have n: "NBUF \<notin> set xs" using l by simp
  let ?nx = "\<lambda>b. b_next (bs ! b)" and ?pv = "\<lambda>b. b_prev (bs ! b)"
  have c: "chain ?nx ?pv (NBUF # xs @ [NBUF])" using l by simp
  have hx: "chain ?nx ?pv (xs @ [NBUF])" "?nx NBUF = hd (xs @ [NBUF])"
    using c by (cases xs; simp)+
  show "walk (Suc NBUF) b_next P bs (b_next (bs ! NBUF)) = Some (find (\<lambda>b. P (bs ! b)) xs)"
    unfolding hx(2) by (rule walk_chain [OF hx(1) n len]) simp
  have "chain ?pv ?nx (rev (NBUF # xs @ [NBUF]))" using chain_rev [OF c] .
  then have c': "chain ?pv ?nx (NBUF # rev xs @ [NBUF])" by simp
  have hr: "chain ?pv ?nx (rev xs @ [NBUF])" "?pv NBUF = hd (rev xs @ [NBUF])"
    using c' by (cases "rev xs"; simp)+
  show "walk (Suc NBUF) b_prev P bs (b_prev (bs ! NBUF)) = Some (find (\<lambda>b. P (bs ! b)) (rev xs))"
    unfolding hr(2) by (rule walk_chain [OF hr(1)]) (use n len in auto)
qed

lemma linked_cong:
  "linked bs xs \<Longrightarrow> length bs' = length bs \<Longrightarrow> (\<And>b. b \<le> NBUF \<Longrightarrow> b_next (bs' ! b) = b_next (bs ! b)) \<Longrightarrow>
     (\<And>b. b \<le> NBUF \<Longrightarrow> b_prev (bs' ! b) = b_prev (bs ! b)) \<Longrightarrow> linked bs' xs"
  unfolding linked_def by (auto elim!: chain_cong dest!: in_set_butlastD in_tlD)

lemma linked_update:
  "linked bs xs \<Longrightarrow> b_next x = b_next (bs ! b) \<Longrightarrow> b_prev x = b_prev (bs ! b) \<Longrightarrow> linked (bs[b := x]) xs"
proof (rule linked_cong [of bs xs])
  assume "b_next x = b_next (bs ! b)"
  then show "b_next (bs[b := x] ! c) = b_next (bs ! c)" for c
    by (cases "c = b"; cases "b < length bs") (simp_all add: list_update_beyond)
next
  assume "b_prev x = b_prev (bs ! b)"
  then show "b_prev (bs[b := x] ! c) = b_prev (bs ! c)" for c
    by (cases "c = b"; cases "b < length bs") (simp_all add: list_update_beyond)
qed simp_all

text \<open>The links after \<^verbatim>\<open>brelse\<close> has moved buffer \<open>b\<close>, on the table alone.\<close>

definition to_front :: "nat \<Rightarrow> buf list \<Rightarrow> buf list" where
  "to_front b bs =
     (let bs = bs[b_next (bs ! b) := (bs ! b_next (bs ! b))\<lparr>b_prev := b_prev (bs ! b)\<rparr>];
          bs = bs[b_prev (bs ! b) := (bs ! b_prev (bs ! b))\<lparr>b_next := b_next (bs ! b)\<rparr>];
          bs = bs[b := (bs ! b)\<lparr>b_next := b_next (bs ! NBUF)\<rparr>];
          bs = bs[b := (bs ! b)\<lparr>b_prev := NBUF\<rparr>];
          bs = bs[b_next (bs ! NBUF) := (bs ! b_next (bs ! NBUF))\<lparr>b_prev := b\<rparr>]
      in bs[NBUF := (bs ! NBUF)\<lparr>b_next := b\<rparr>])"

definition data_of :: "buf \<Rightarrow> bool \<times> bool \<times> uint \<times> uint \<times> uint \<times> bytes" where
  "data_of x = (b_valid x, b_dirty x, b_dev x, b_blockno x, b_refcnt x, b_data x)"

lemma data_of_links [simp]: "data_of (x\<lparr>b_prev := p\<rparr>) = data_of x" "data_of (x\<lparr>b_next := n\<rparr>) = data_of x"
  by (simp_all add: data_of_def)

lemma data_of_upd: "data_of y = data_of (bs ! i) \<Longrightarrow> data_of (bs[i := y] ! j) = data_of (bs ! j)"
  by (cases "i = j"; cases "i < length bs") (auto simp: list_update_beyond)

lemma to_front_data: "length (to_front b bs) = length bs" "data_of (to_front b bs ! i) = data_of (bs ! i)"
  by (simp_all add: to_front_def Let_def data_of_upd)

lemma upd_links:
  assumes "i < length bs"
  shows "(\<lambda>c. b_next (bs[i := (bs ! i)\<lparr>b_next := v\<rparr>] ! c)) = (\<lambda>c. b_next (bs ! c))(i := v)"
    "(\<lambda>c. b_prev (bs[i := (bs ! i)\<lparr>b_next := v\<rparr>] ! c)) = (\<lambda>c. b_prev (bs ! c))"
    "(\<lambda>c. b_next (bs[i := (bs ! i)\<lparr>b_prev := v\<rparr>] ! c)) = (\<lambda>c. b_next (bs ! c))"
    "(\<lambda>c. b_prev (bs[i := (bs ! i)\<lparr>b_prev := v\<rparr>] ! c)) = (\<lambda>c. b_prev (bs ! c))(i := v)"
  using assms by (auto simp: fun_eq_iff nth_list_update)

lemma to_front_links:
  assumes "length bs = Suc NBUF" "b < NBUF" "b_next (bs ! b) = n" "b_prev (bs ! b) = p" "n \<le> NBUF" "p \<le> NBUF"
    "n \<noteq> b" "p \<noteq> b" "((\<lambda>c. b_next (bs ! c))(p := n)) NBUF = h" "h \<le> NBUF"
  shows "(\<lambda>c. b_next (to_front b bs ! c)) = (\<lambda>c. b_next (bs ! c))(p := n, b := h, NBUF := b)"
    "(\<lambda>c. b_prev (to_front b bs ! c)) = (\<lambda>c. b_prev (bs ! c))(n := p, b := NBUF, h := b)"
proof -
  define NX PV where "NX bs = (\<lambda>c. b_next (bs ! c))" and "PV bs = (\<lambda>c. b_prev (bs ! c))" for bs :: "buf list"
  note nxpv = NX_def PV_def
  have u: "i < length bs \<Longrightarrow> NX (bs[i := (bs ! i)\<lparr>b_next := v\<rparr>]) = (NX bs)(i := v)"
    "i < length bs \<Longrightarrow> PV (bs[i := (bs ! i)\<lparr>b_next := v\<rparr>]) = PV bs"
    "i < length bs \<Longrightarrow> NX (bs[i := (bs ! i)\<lparr>b_prev := v\<rparr>]) = NX bs"
    "i < length bs \<Longrightarrow> PV (bs[i := (bs ! i)\<lparr>b_prev := v\<rparr>]) = (PV bs)(i := v)" for i v and bs :: "buf list"
    by (simp_all add: nxpv upd_links)
  have f: "b_next (bs ! c) = NX bs c" "b_prev (bs ! c) = PV bs c" for bs :: "buf list" and c
    by (simp_all add: nxpv)
  define b1 where "b1 = bs[n := (bs ! n)\<lparr>b_prev := p\<rparr>]"
  define b2 where "b2 = b1[p := (b1 ! p)\<lparr>b_next := n\<rparr>]"
  define b3 where "b3 = b2[b := (b2 ! b)\<lparr>b_next := h\<rparr>]"
  define b4 where "b4 = b3[b := (b3 ! b)\<lparr>b_prev := NBUF\<rparr>]"
  define b5 where "b5 = b4[h := (b4 ! h)\<lparr>b_prev := b\<rparr>]"
  note asm = assms [unfolded f]
  have h: "((NX bs)(p := n)) NBUF = h" using assms(9) by (simp add: NX_def)
  have l: "length b1 = Suc NBUF" "length b2 = Suc NBUF" "length b3 = Suc NBUF" "length b4 = Suc NBUF"
    "length b5 = Suc NBUF"
    using assms(1) by (simp_all add: b1_def b2_def b3_def b4_def b5_def)
  have n1: "NX b1 = NX bs" "PV b1 = (PV bs)(n := p)"
    using asm by (simp_all add: b1_def u)
  have n2: "NX b2 = (NX bs)(p := n)" "PV b2 = (PV bs)(n := p)"
    using asm l n1 by (simp_all add: b2_def u)
  have n3: "NX b3 = (NX bs)(p := n, b := h)" "PV b3 = (PV bs)(n := p)"
    using asm l n2 by (simp_all add: b3_def u)
  have n4: "NX b4 = (NX bs)(p := n, b := h)" "PV b4 = (PV bs)(n := p, b := NBUF)"
    using asm l n3 by (simp_all add: b4_def u)
  have n5: "NX b5 = (NX bs)(p := n, b := h)" "PV b5 = (PV bs)(n := p, b := NBUF, h := b)"
    using asm l n4 by (simp_all add: b5_def u)
  have e1: "b_next (b1 ! b) = n" "b_prev (b1 ! b) = p" "b_next (b2 ! NBUF) = h" "b_next (b4 ! NBUF) = h"
    using asm h n1 n2 n4 by (auto simp: f)
  have "to_front b bs = b5[NBUF := (b5 ! NBUF)\<lparr>b_next := b\<rparr>]"
    unfolding to_front_def Let_def assms(3,4) b1_def [symmetric] e1 b2_def [symmetric]
      b3_def [symmetric] b4_def [symmetric] b5_def [symmetric] ..
  then show "(\<lambda>c. b_next (to_front b bs ! c)) = (\<lambda>c. b_next (bs ! c))(p := n, b := h, NBUF := b)"
    "(\<lambda>c. b_prev (to_front b bs ! c)) = (\<lambda>c. b_prev (bs ! c))(n := p, b := NBUF, h := b)"
    using n5 l u [of NBUF b5] by (simp_all add: nxpv)
qed

lemma last_notin_butlast: "distinct xs \<Longrightarrow> xs \<noteq> [] \<Longrightarrow> last xs \<notin> set (butlast xs)"
  by (induction xs rule: rev_induct) auto

lemma hd_notin_tl: "distinct xs \<Longrightarrow> xs \<noteq> [] \<Longrightarrow> hd xs \<notin> set (tl xs)"
  by (cases xs) auto

lemma linked_to_front:
  assumes "linked bs xs" "b < NBUF"
  shows "linked (to_front b bs) (b # remove1 b xs)"
proof -
  let ?nx = "\<lambda>c. b_next (bs ! c)" and ?pv = "\<lambda>c. b_prev (bs ! c)"
  have l: "length bs = Suc NBUF" "distinct xs" "set xs = {..<NBUF}" "chain ?nx ?pv (NBUF # xs @ [NBUF])"
    using assms(1) by (auto simp: linked_def)
  obtain us vs where xs: "xs = us @ b # vs"
    using assms(2) l(3) by (metis lessThan_iff split_list)
  define A B where "A = NBUF # us" and "B = vs @ [NBUF]"
  have AB: "A \<noteq> []" "B \<noteq> []" "NBUF # xs @ [NBUF] = A @ b # B"
    "remove1 b xs = us @ vs" "b \<notin> set us" "b \<notin> set vs"
    using l(2) xs by (auto simp: A_def B_def remove1_append)
  have sub: "set us \<union> set vs \<subseteq> {..<NBUF}" "NBUF \<notin> set us" "NBUF \<notin> set vs" "distinct us" "distinct vs" "set us \<inter> set vs = {}"
    using l(2,3) xs by auto
  have c: "chain ?nx ?pv (A @ b # B)" using l(4) AB(3) by simp
  have p: "?pv b = last A" "?nx b = hd B"
    using c AB(1,2) by (auto simp: chain_append neq_Nil_conv)
  have dA: "distinct A" and dB: "distinct B" using sub by (simp_all add: A_def B_def)
  have "last A \<in> insert NBUF (set us)" "hd B \<in> insert NBUF (set vs)"
    using last_in_set [OF AB(1)] hd_in_set [OF AB(2)] by (simp_all add: A_def B_def)
  then have cond: "last A \<notin> set (butlast A)" "last A \<notin> set (butlast B)" "hd B \<notin> set (tl A)" "hd B \<notin> set (tl B)"
    using last_notin_butlast [OF dA AB(1)] hd_notin_tl [OF dB AB(2)] sub
    by (auto simp: A_def B_def)
  define h where "h = hd (us @ B)"
  have c2: "chain (?nx(last A := hd B)) (?pv(hd B := last A)) (NBUF # us @ B)"
    using chain_unlink [OF c AB(1,2) cond] by (simp add: A_def)
  have h: "(?nx(last A := hd B)) NBUF = h"
    using c2 by (cases "us @ B") (auto simp: h_def B_def)
  have hB: "us @ B \<noteq> []" "h \<in> insert NBUF (set us \<union> set vs)"
    using hd_in_set [of "us @ B"] by (auto simp: B_def h_def)
  have dist: "distinct (us @ B)" using sub by (auto simp: B_def)
  have c3: "chain ((?nx(last A := hd B))(b := h, NBUF := b)) ((?pv(hd B := last A))(b := NBUF, h := b)) (NBUF # b # us @ B)"
    unfolding h_def
  proof (rule chain_link [OF c2 hB(1)])
    show "b \<notin> set (NBUF # us @ B)" using AB(5,6) assms(2) by (auto simp: B_def)
    show "NBUF \<notin> set (butlast (us @ B))" using sub by (auto simp: B_def butlast_append)
    show "hd (us @ B) \<notin> set (tl (us @ B))" using hd_notin_tl [OF dist hB(1)] .
  qed
  have le: "hd B \<le> NBUF" "last A \<le> NBUF" "h \<le> NBUF" "hd B \<noteq> b" "last A \<noteq> b"
    using \<open>last A \<in> insert NBUF (set us)\<close> \<open>hd B \<in> insert NBUF (set vs)\<close> hB(2) sub(1) AB(5,6) assms(2) by auto
  note tf = to_front_links [OF l(1) assms(2) p(2) p(1) le(1,2,4,5) h le(3)]
  have "chain (\<lambda>c. b_next (to_front b bs ! c)) (\<lambda>c. b_prev (to_front b bs ! c)) (NBUF # b # us @ B)"
    unfolding tf by (rule c3)
  moreover have "set (b # us @ vs) = {..<NBUF}" "distinct (b # us @ vs)" using l(2,3) xs by auto
  ultimately show ?thesis
    by (simp add: linked_def to_front_data(1) l(1) AB(4) B_def)
qed

end
