(* ===== verification/Bio_Correct.thy ===== *)
theory Bio_Correct
  imports Bio_Ring
begin

text \<open>
  The buffer cache as a store of blocks. \<open>bc_ok H i s\<close> is the invariant of the cache while process
  \<open>i\<close> runs alone and holds the buffers \<open>H\<close>: the ring is a list of all buffers, no two buffers are
  for the same block, and a valid clean buffer that nobody holds agrees with the disk. \<open>content\<close>
  is the block a read returns: the cached copy if there is one, else the block on the disk.
\<close>

section \<open>Invariant\<close>

definition buf_ok :: "(nat \<Rightarrow> uchar) \<Rightarrow> int \<Rightarrow> int \<Rightarrow> bool \<Rightarrow> sleeplock \<Rightarrow> buf \<Rightarrow> bool" where
  "buf_ok d dsz pid held sl x \<longleftrightarrow>
     length (b_data x) = BSIZE \<and> b_refcnt x = (if held then 1 else 0) \<and> slocked sl = held \<and>
     (held \<longrightarrow> slpid sl = pid \<and> b_valid x) \<and> (b_dirty x \<longrightarrow> b_valid x) \<and>
     (b_valid x \<longrightarrow> b_dev x = 1 \<and> uint (b_blockno x) < dsz) \<and>
     (b_valid x \<and> \<not> b_dirty x \<and> \<not> held \<longrightarrow> b_data x = dblk d (unat (b_blockno x)))"

definition uniq :: "buf list \<Rightarrow> bool" where
  "uniq bs \<longleftrightarrow> (\<forall>b < NBUF. \<forall>c < NBUF. b_dev (bs ! b) = 1 \<and> b_dev (bs ! c) = 1 \<and>
     b_blockno (bs ! b) = b_blockno (bs ! c) \<longrightarrow> b = c)"

definition bc_ok :: "nat set \<Rightarrow> nat \<Rightarrow> 'a bufk_scheme machine \<Rightarrow> bool" where
  "bc_ok H i s \<longleftrightarrow> calm s \<and> running i s \<and> H \<subseteq> {..<NBUF} \<and> (\<exists>xs. linked (bufs (kern s)) xs) \<and>
     (\<forall>b < NBUF. buf_ok (memdisk (kern s)) (disksize (kern s)) (pid_of i s) (b \<in> H)
        (sleeplocks (kern s) (Buf_sl b)) (buf_at b s)) \<and>
     uniq (bufs (kern s))"

definition holds_blk :: "uint \<Rightarrow> buf \<Rightarrow> bool" where
  "holds_blk n x \<longleftrightarrow> b_valid x \<and> b_dev x = 1 \<and> b_blockno x = n"

definition content :: "'a bufk_scheme \<Rightarrow> uint \<Rightarrow> bytes" where
  "content k n = (case scan (holds_blk n) (take NBUF (bufs k)) of
     Some b \<Rightarrow> b_data (bufs k ! b) | None \<Rightarrow> dblk (memdisk k) (unat n))"

lemma length_dblk [simp]: "length (dblk d n) = BSIZE"
  by (simp add: dblk_def)

lemma linked_length: "linked bs xs \<Longrightarrow> length bs = Suc NBUF"
  by (simp add: linked_def)

lemma linked_mem: "linked bs xs \<Longrightarrow> b \<in> set xs \<longleftrightarrow> b < NBUF"
  by (simp add: linked_def)

lemma uniqD: "uniq bs \<Longrightarrow> b < NBUF \<Longrightarrow> c < NBUF \<Longrightarrow> b_dev (bs ! b) = 1 \<Longrightarrow> b_dev (bs ! c) = 1 \<Longrightarrow>
    b_blockno (bs ! b) = b_blockno (bs ! c) \<Longrightarrow> b = c"
  unfolding uniq_def by blast

lemma content_cached:
  assumes "length (bufs k) = Suc NBUF" "uniq (bufs k)" "b < NBUF" "holds_blk n (bufs k ! b)"
  shows "content k n = b_data (bufs k ! b)"
proof -
  have "\<not> holds_blk n (bufs k ! c)" if "c < b" for c
    using that assms(3,4) uniqD [OF assms(2), of b c] by (auto simp: holds_blk_def)
  then have "scan (holds_blk n) (take NBUF (bufs k)) = Some b"
    using assms by (auto simp: scan_Some)
  then show ?thesis by (simp add: content_def)
qed

lemma content_uncached:
  assumes "length (bufs k) = Suc NBUF" "\<And>b. b < NBUF \<Longrightarrow> \<not> holds_blk n (bufs k ! b)"
  shows "content k n = dblk (memdisk k) (unat n)"
proof -
  have "scan (holds_blk n) (take NBUF (bufs k)) = None"
    using assms by (simp add: scan_None_nth)
  then show ?thesis by (simp add: content_def)
qed

lemma content_cases:
  assumes "length (bufs k) = Suc NBUF" "uniq (bufs k)"
  obtains (hit) b where "b < NBUF" "holds_blk n (bufs k ! b)" "content k n = b_data (bufs k ! b)"
  | (miss) "\<And>b. b < NBUF \<Longrightarrow> \<not> holds_blk n (bufs k ! b)" "content k n = dblk (memdisk k) (unat n)"
  using content_cached [OF assms, of _ n] content_uncached [OF assms(1), of n] by metis

text \<open>Two tables with the same data in every buffer, and the same disk, have the same blocks.\<close>

lemma content_cong:
  assumes "length (bufs k) = Suc NBUF" "length (bufs k') = Suc NBUF" "memdisk k' = memdisk k"
    and "\<And>b. b < NBUF \<Longrightarrow> holds_blk n (bufs k' ! b) = holds_blk n (bufs k ! b)"
    and "\<And>b. b < NBUF \<Longrightarrow> holds_blk n (bufs k ! b) \<Longrightarrow> b_data (bufs k' ! b) = b_data (bufs k ! b)"
  shows "content k' n = content k n"
proof (cases "scan (holds_blk n) (take NBUF (bufs k))")
  case None
  then have "scan (holds_blk n) (take NBUF (bufs k')) = None"
    using assms by (simp add: scan_None_nth)
  then show ?thesis using None assms(3) by (simp add: content_def)
next
  case (Some b)
  then have "scan (holds_blk n) (take NBUF (bufs k')) = Some b" "b < NBUF" "holds_blk n (bufs k ! b)"
    using assms by (auto simp: scan_Some)
  then show ?thesis using Some assms(5) by (simp add: content_def)
qed

section \<open>Finding a buffer\<close>

lemma find_SomeD: "find P xs = Some x \<Longrightarrow> x \<in> set xs \<and> P x"
  by (induction xs) (auto split: if_splits)

lemma upd_buf_twice [simp]: "upd_buf b f (upd_buf b g s) = upd_buf b (\<lambda>x. f (g x)) s"
proof -
  have "(bs[b := g (bs ! b)])[b := f (bs[b := g (bs ! b)] ! b)] = bs[b := f (g (bs ! b))]" for bs
    by (cases "b < length bs") (simp_all add: list_update_beyond)
  then show ?thesis by (simp add: upd_buf_def)
qed

lemma bget_calm:
  assumes "calm s" "linked (bufs (kern s)) xs"
  shows "bget dev n s =
    (case find (\<lambda>b. b_dev (buf_at b s) = dev \<and> b_blockno (buf_at b s) = n) xs of
       Some b \<Rightarrow> bindK (acquiresleep (Buf_sl b) (upd_buf b (\<lambda>x. x\<lparr>b_refcnt := b_refcnt x + 1\<rparr>) s)) (\<lambda>_ s. Done b s)
     | None \<Rightarrow>
       (case find (\<lambda>b. b_refcnt (buf_at b s) = 0 \<and> \<not> b_dirty (buf_at b s)) (rev xs) of
          Some b \<Rightarrow> bindK (acquiresleep (Buf_sl b) (upd_buf b (\<lambda>x. x\<lparr>b_dev := dev, b_blockno := n,
            b_valid := False, b_dirty := False, b_refcnt := 1\<rparr>) s)) (\<lambda>_ s. Done b s)
        | None \<Rightarrow> Panic ''bget: no buffers''))"
proof -
  let ?a = "acq Bcache_lk s"
  have w: "walk (Suc NBUF) b_next P (bufs (kern ?a)) (b_next (buf_at NBUF ?a)) = Some (find (\<lambda>b. P (buf_at b s)) xs)"
    "walk (Suc NBUF) b_prev P (bufs (kern ?a)) (b_prev (buf_at NBUF ?a)) = Some (find (\<lambda>b. P (buf_at b s)) (rev xs))" for P
    using linked_walks [OF assms(2)] by (simp_all add: buf_at_def del: walk.simps)
  have r: "release Bcache_lk (upd_buf b f ?a) = Done () (upd_buf b f s)" for b f
    using assms(1) by (simp add: upd_buf_def calm_section)
  show ?thesis
    unfolding bget_def calm_section(1) [OF assms(1)] bindK.simps w
    by (simp add: r split: option.split)
qed

section \<open>Reading a block\<close>

lemma buf_at_upd: "buf_at c (upd_buf b f s) =
    (if c = b \<and> b < length (bufs (kern s)) then f (buf_at b s) else buf_at c s)"
  by (auto simp: buf_at_def upd_buf_def nth_list_update list_update_beyond)

lemma upd_fields [simp]:
  "me (upd_buf b f s) = me s" "me (upd_sl l g s) = me s"
  "pid_of i (upd_buf b f s) = pid_of i s" "pid_of i (upd_sl l g s) = pid_of i s"
  "sleeplocks (kern (upd_buf b f s)) = sleeplocks (kern s)" "buf_at c (upd_sl l g s) = buf_at c s"
  "disksize (kern (upd_buf b f s)) = disksize (kern s)" "disksize (kern (upd_sl l g s)) = disksize (kern s)"
  "memdisk (kern (upd_buf b f s)) = memdisk (kern s)" "memdisk (kern (upd_sl l g s)) = memdisk (kern s)"
  "length (bufs (kern (upd_buf b f s))) = length (bufs (kern s))" "bufs (kern (upd_sl l g s)) = bufs (kern s)"
  "ptable (kern (upd_buf b f s)) = ptable (kern s)" "ptable (kern (upd_sl l g s)) = ptable (kern s)"
  by (simp_all add: upd_buf_def upd_sl_def pid_of_def proc_at_def buf_at_def)

lemma calm_upds [simp]: "calm s \<Longrightarrow> calm (upd_buf b f s)" "calm s \<Longrightarrow> calm (upd_sl l g s)"
  by (simp_all add: upd_buf_def upd_sl_def)

lemma sleeplocks_upd_sl: "sleeplocks (kern (upd_sl l g s)) = (sleeplocks (kern s))(l := g (sleeplocks (kern s) l))"
  by (simp add: upd_sl_def)

lemma upd_buf_sl: "upd_buf b f (upd_sl l g s) = upd_sl l g (upd_buf b f s)"
  by (simp add: upd_buf_def upd_sl_def)

lemma upd_buf_const: "upd_buf b f s = upd_buf b (\<lambda>_. f (buf_at b s)) s"
  by (simp add: upd_buf_def buf_at_def upd_kern_def)

text \<open>The buffer becomes valid with the block on the disk, and nothing else changes.\<close>

lemma iderw_read:
  assumes "calm s" "me s = Some i" "slocked (sleeplocks (kern s) (Buf_sl b))"
    "slpid (sleeplocks (kern s) (Buf_sl b)) = pid_of i s" "\<not> b_valid (buf_at b s)" "\<not> b_dirty (buf_at b s)"
    "b_dev (buf_at b s) = 1" "uint (b_blockno (buf_at b s)) < disksize (kern s)"
  shows "iderw b s = Done () (upd_buf b (\<lambda>x. x\<lparr>b_data := dblk (memdisk (kern s)) (unat (b_blockno (buf_at b s))),
    b_valid := True\<rparr>) s)"
  using assms by (simp add: iderw_def holdingsleep_calm)

text \<open>What the buffer a read returns looks like: \<open>x\<close> before the read and \<open>y\<close> after it.\<close>

definition fetched :: "'a bufk_scheme \<Rightarrow> uint \<Rightarrow> buf \<Rightarrow> buf \<Rightarrow> bool" where
  "fetched k n x y \<longleftrightarrow> holds_blk n y \<and> b_refcnt y = 1 \<and> b_data y = content k n \<and>
     b_next y = b_next x \<and> b_prev y = b_prev x \<and>
     (if holds_blk n x then b_dirty y = b_dirty x
      else \<not> b_dirty y \<and> \<not> b_dirty x \<and> (\<forall>c < NBUF. b_dev (bufs k ! c) = 1 \<and> b_blockno (bufs k ! c) = n \<longrightarrow> bufs k ! c = x))"

lemma bc_okD:
  assumes "bc_ok H i s"
  shows "calm s" "me s = Some i" "i < length (ptable (kern s))" "H \<subseteq> {..<NBUF}" "uniq (bufs (kern s))"
    "length (bufs (kern s)) = Suc NBUF" "finite H"
    and "b < NBUF \<Longrightarrow> buf_ok (memdisk (kern s)) (disksize (kern s)) (pid_of i s) (b \<in> H)
        (sleeplocks (kern s) (Buf_sl b)) (buf_at b s)"
  using assms by (auto simp: bc_ok_def running_def linked_def finite_subset)

definition free_for :: "nat set \<Rightarrow> uint \<Rightarrow> 'a bufk_scheme machine \<Rightarrow> bool" where
  "free_for H n s \<longleftrightarrow> (\<exists>b < NBUF. b \<notin> H \<and> (\<not> b_dirty (buf_at b s) \<or> holds_blk n (buf_at b s)))"

text \<open>The two ways a read ends once \<^verbatim>\<open>bget\<close> has settled on buffer \<open>b\<close> and made it \<open>x\<close>.\<close>

abbreviation lock_buf :: "nat \<Rightarrow> int \<Rightarrow> 'a bufk_scheme machine \<Rightarrow> 'a bufk_scheme machine" where
  "lock_buf b pid \<equiv> upd_sl (Buf_sl b) (\<lambda>k. k\<lparr>slocked := True, slpid := pid\<rparr>)"

lemma bread_ends:
  assumes "calm s" "me s = Some i" "b < length (bufs (kern s))" "\<not> slocked (sleeplocks (kern s) (Buf_sl b))"
    and g: "bget 1 n s = bindK (acquiresleep (Buf_sl b) (upd_buf b (\<lambda>_. x) s)) (\<lambda>_ s. Done b s)"
  shows "b_valid x \<Longrightarrow> bread 1 n s = Done b (lock_buf b (pid_of i s) (upd_buf b (\<lambda>_. x) s))"
    and "\<not> b_valid x \<Longrightarrow> \<not> b_dirty x \<Longrightarrow> b_dev x = 1 \<Longrightarrow> b_blockno x = n \<Longrightarrow> uint n < disksize (kern s) \<Longrightarrow>
      bread 1 n s = Done b (lock_buf b (pid_of i s)
        (upd_buf b (\<lambda>_. x\<lparr>b_data := dblk (memdisk (kern s)) (unat n), b_valid := True\<rparr>) s))"
proof -
  define s2 where "s2 = lock_buf b (pid_of i s) (upd_buf b (\<lambda>_. x) s)"
  have "acquiresleep (Buf_sl b) (upd_buf b (\<lambda>_. x) s) = Done () s2"
    using acquiresleep_free [of "upd_buf b (\<lambda>_. x) s" i "Buf_sl b"] assms(1,2,4) by (simp add: s2_def)
  then have g2: "bget 1 n s = Done b s2" using g by simp
  have b2: "buf_at b s2 = x" using assms(3) by (simp add: s2_def buf_at_upd)
  show "bread 1 n s = Done b (lock_buf b (pid_of i s) (upd_buf b (\<lambda>_. x) s))" if "b_valid x"
    using g2 b2 that by (simp add: bread_def s2_def)
  assume x: "\<not> b_valid x" "\<not> b_dirty x" "b_dev x = 1" "b_blockno x = n" "uint n < disksize (kern s)"
  have "iderw b s2 = Done () (upd_buf b (\<lambda>x. x\<lparr>b_data := dblk (memdisk (kern s)) (unat n), b_valid := True\<rparr>) s2)"
    using iderw_read [of s2 i b] assms(1,2) b2 x by (simp add: s2_def sleeplocks_upd_sl)
  then show "bread 1 n s = Done b (lock_buf b (pid_of i s)
        (upd_buf b (\<lambda>_. x\<lparr>b_data := dblk (memdisk (kern s)) (unat n), b_valid := True\<rparr>) s))"
    using g2 b2 x by (simp add: bread_def s2_def upd_buf_sl)
qed

lemma bread_hit:
  assumes ok: "bc_ok H i s" and n: "uint n < disksize (kern s)" and xs: "linked (bufs (kern s)) xs"
    and f: "find (\<lambda>b. b_dev (buf_at b s) = 1 \<and> b_blockno (buf_at b s) = n) xs = Some b" and bH: "b \<notin> H"
  shows "\<exists>y. fetched (kern s) n (buf_at b s) y \<and> bread 1 n s = Done b (lock_buf b (pid_of i s) (upd_buf b (\<lambda>_. y) s))"
proof -
  note D = bc_okD [OF ok]
  have b: "b < NBUF" "b_dev (buf_at b s) = 1" "b_blockno (buf_at b s) = n"
    using find_SomeD [OF f] linked_mem [OF xs, of b] by auto
  have k: "b_refcnt (buf_at b s) = 0" "\<not> slocked (sleeplocks (kern s) (Buf_sl b))"
    "b_dirty (buf_at b s) \<Longrightarrow> b_valid (buf_at b s)"
    using D(8) [OF b(1)] bH by (auto simp: buf_ok_def)
  let ?x = "(buf_at b s)\<lparr>b_refcnt := 1\<rparr>"
  have g: "bget 1 n s = bindK (acquiresleep (Buf_sl b) (upd_buf b (\<lambda>_. ?x) s)) (\<lambda>_ s. Done b s)"
    using bget_calm [OF D(1) xs, of 1 n] f k(1) by (simp add: upd_buf_const [of b "\<lambda>x. x\<lparr>b_refcnt := b_refcnt x + 1\<rparr>"])
  have only: "\<forall>c < NBUF. b_dev (bufs (kern s) ! c) = 1 \<and> b_blockno (bufs (kern s) ! c) = n \<longrightarrow> bufs (kern s) ! c = buf_at b s"
    using uniqD [OF D(5) b(1)] b(2,3) unfolding buf_at_def by blast
  note ends = bread_ends [OF D(1,2) _ k(2) g]
  show ?thesis
  proof (cases "b_valid (buf_at b s)")
    case True
    have "content (kern s) n = b_data (buf_at b s)"
      using content_cached [OF D(6,5) b(1), of n] b True by (simp add: holds_blk_def buf_at_def)
    then have "fetched (kern s) n (buf_at b s) ?x"
      using True b by (simp add: fetched_def holds_blk_def)
    then show ?thesis using ends(1) True b(1) D(6) by auto
  next
    case False
    have "content (kern s) n = dblk (memdisk (kern s)) (unat n)"
      using only False by (intro content_uncached [OF D(6)]) (auto simp: holds_blk_def)
    then have "fetched (kern s) n (buf_at b s) (?x\<lparr>b_data := dblk (memdisk (kern s)) (unat n), b_valid := True\<rparr>)"
      using False b k(3) only by (auto simp: fetched_def holds_blk_def)
    moreover have "bread 1 n s = Done b (lock_buf b (pid_of i s)
        (upd_buf b (\<lambda>_. ?x\<lparr>b_data := dblk (memdisk (kern s)) (unat n), b_valid := True\<rparr>) s))"
      using ends(2) False b k(3) n D(6) by auto
    ultimately show ?thesis by blast
  qed
qed

lemma bread_miss:
  assumes ok: "bc_ok H i s" and n: "uint n < disksize (kern s)" and xs: "linked (bufs (kern s)) xs"
    and f: "find (\<lambda>b. b_dev (buf_at b s) = 1 \<and> b_blockno (buf_at b s) = n) xs = None" and room: "free_for H n s"
  shows "\<exists>b y. b < NBUF \<and> b \<notin> H \<and> fetched (kern s) n (buf_at b s) y \<and>
    bread 1 n s = Done b (lock_buf b (pid_of i s) (upd_buf b (\<lambda>_. y) s))"
proof -
  note D = bc_okD [OF ok]
  have no: "\<not> (b_dev (buf_at b s) = 1 \<and> b_blockno (buf_at b s) = n)" if "b < NBUF" for b
    using that f linked_mem [OF xs] by (auto simp: find_None_iff)
  have c: "content (kern s) n = dblk (memdisk (kern s)) (unat n)"
    using no by (intro content_uncached [OF D(6)]) (auto simp: holds_blk_def buf_at_def)
  obtain a where a: "a < NBUF" "a \<notin> H" "\<not> b_dirty (buf_at a s)"
    using room no by (auto simp: free_for_def holds_blk_def)
  then have "b_refcnt (buf_at a s) = 0 \<and> a \<in> set (rev xs)"
    using D(8) [OF a(1)] linked_mem [OF xs, of a] by (simp add: buf_ok_def)
  then obtain b where fb: "find (\<lambda>b. b_refcnt (buf_at b s) = 0 \<and> \<not> b_dirty (buf_at b s)) (rev xs) = Some b"
    using a(3) by (cases "find (\<lambda>b. b_refcnt (buf_at b s) = 0 \<and> \<not> b_dirty (buf_at b s)) (rev xs)") (auto simp: find_None_iff)
  have b: "b_refcnt (buf_at b s) = 0" "\<not> b_dirty (buf_at b s)" and b1: "b < NBUF"
    using find_SomeD [OF fb] linked_mem [OF xs, of b] by auto
  have bH: "b \<notin> H" "\<not> slocked (sleeplocks (kern s) (Buf_sl b))"
    using D(8) [OF b1] b(1) by (auto simp: buf_ok_def split: if_splits)
  let ?x = "(buf_at b s)\<lparr>b_dev := 1, b_blockno := n, b_valid := False, b_dirty := False, b_refcnt := 1\<rparr>"
  have g: "bget 1 n s = bindK (acquiresleep (Buf_sl b) (upd_buf b (\<lambda>_. ?x) s)) (\<lambda>_ s. Done b s)"
    using bget_calm [OF D(1) xs, of 1 n] f fb
    by (simp add: upd_buf_const [of b "\<lambda>x. x\<lparr>b_dev := 1, b_blockno := n, b_valid := False, b_dirty := False, b_refcnt := 1\<rparr>"])
  have "bread 1 n s = Done b (lock_buf b (pid_of i s)
      (upd_buf b (\<lambda>_. ?x\<lparr>b_data := dblk (memdisk (kern s)) (unat n), b_valid := True\<rparr>) s))"
    using bread_ends(2) [OF D(1,2) _ bH(2) g] b1 D(6) n by simp
  moreover have "\<forall>c < NBUF. b_dev (bufs (kern s) ! c) = 1 \<and> b_blockno (bufs (kern s) ! c) = n \<longrightarrow> bufs (kern s) ! c = buf_at b s"
    using no unfolding buf_at_def by blast
  then have "fetched (kern s) n (buf_at b s) (?x\<lparr>b_data := dblk (memdisk (kern s)) (unat n), b_valid := True\<rparr>)"
    using c b no [OF b1] by (simp add: fetched_def holds_blk_def)
  ultimately show ?thesis using b1 bH(1) by blast
qed

lemma bread_form:
  assumes ok: "bc_ok H i s" and n: "uint n < disksize (kern s)" and nh: "\<forall>b \<in> H. b_blockno (buf_at b s) \<noteq> n"
    and room: "free_for H n s"
  shows "\<exists>b y. b < NBUF \<and> b \<notin> H \<and> fetched (kern s) n (buf_at b s) y \<and>
    bread 1 n s = Done b (lock_buf b (pid_of i s) (upd_buf b (\<lambda>_. y) s))"
proof -
  obtain xs where xs: "linked (bufs (kern s)) xs" using ok by (auto simp: bc_ok_def)
  show ?thesis
  proof (cases "find (\<lambda>b. b_dev (buf_at b s) = 1 \<and> b_blockno (buf_at b s) = n) xs")
    case (Some b)
    then have "b < NBUF" "b \<notin> H"
      using find_SomeD [OF Some] linked_mem [OF xs, of b] nh by auto
    then show ?thesis using bread_hit [OF ok n xs Some] by blast
  next
    case None
    then show ?thesis using bread_miss [OF ok n xs None room] by blast
  qed
qed

section \<open>The laws of the block store\<close>

definition dirty_blks :: "'a bufk_scheme \<Rightarrow> uint set" where
  "dirty_blks k = {n. \<exists>b < NBUF. holds_blk n (bufs k ! b) \<and> b_dirty (bufs k ! b)}"

lemma bufs_upd_buf: "bufs (kern (upd_buf b f s)) = (bufs (kern s))[b := f (buf_at b s)]"
  by (simp add: upd_buf_def buf_at_def)

lemma fetched_only:
  assumes "bc_ok H i s" "b < NBUF" "fetched (kern s) n (buf_at b s) y" "c < NBUF" "b_dev (buf_at c s) = 1" "b_blockno (buf_at c s) = n"
  shows "c = b"
proof -
  have x: "b_dev (buf_at b s) = 1 \<and> b_blockno (buf_at b s) = n"
  proof (cases "holds_blk n (buf_at b s)")
    case True
    then show ?thesis by (simp add: holds_blk_def)
  next
    case False
    then have "bufs (kern s) ! c = buf_at b s"
      using assms(3-6) by (auto simp: fetched_def buf_at_def)
    then show ?thesis using assms(5,6) by (simp add: buf_at_def)
  qed
  then show ?thesis
    using uniqD [OF bc_okD(5) [OF assms(1)] assms(4,2)] assms(5,6) by (simp add: buf_at_def)
qed

lemma fetch_content:
  assumes ok: "bc_ok H i s" and b: "b < NBUF" "b \<notin> H" and f: "fetched (kern s) n (buf_at b s) y"
    and k': "bufs k' = (bufs (kern s))[b := y]" "memdisk k' = memdisk (kern s)"
  shows "content k' m = content (kern s) m" "uniq (bufs k')" "dirty_blks k' = dirty_blks (kern s)"
proof -
  note D = bc_okD [OF ok]
  note only = fetched_only [OF ok b(1) f]
  have y: "holds_blk n y" "b_data y = content (kern s) n" using f by (auto simp: fetched_def)
  have nth: "bufs k' ! c = (if c = b then y else buf_at c s)" if "c < NBUF" for c
    using that D(6) by (simp add: k' buf_at_def nth_list_update)
  have len: "length (bufs k') = Suc NBUF" using D(6) k' by simp
  show u: "uniq (bufs k')"
    unfolding uniq_def
  proof (intro allI impI, elim conjE)
    fix c d assume "c < NBUF" "d < NBUF" "b_dev (bufs k' ! c) = 1" "b_dev (bufs k' ! d) = 1"
      "b_blockno (bufs k' ! c) = b_blockno (bufs k' ! d)"
    then have cd: "c < NBUF" "d < NBUF"
      "b_dev (if c = b then y else buf_at c s) = 1" "b_dev (if d = b then y else buf_at d s) = 1"
      "b_blockno (if c = b then y else buf_at c s) = b_blockno (if d = b then y else buf_at d s)"
      using nth by simp_all
    consider "c = b" "d = b" | "c = b" "d \<noteq> b" | "c \<noteq> b" "d = b" | "c \<noteq> b" "d \<noteq> b" by blast
    then show "c = d"
    proof cases
      case 1 then show ?thesis by simp
    next
      case 2 then show ?thesis using cd y(1) only [OF cd(2)] by (simp add: holds_blk_def)
    next
      case 3 then show ?thesis using cd y(1) only [OF cd(1)] by (simp add: holds_blk_def)
    next
      case 4 then show ?thesis using cd uniqD [OF D(5) cd(1,2)] by (simp add: buf_at_def)
    qed
  qed
  show "content k' m = content (kern s) m"
  proof (cases "m = n")
    case True
    then show ?thesis using content_cached [OF len u b(1), of n] y nth [OF b(1)] by simp
  next
    case False
    then have ny: "\<not> holds_blk m y" using y(1) by (auto simp: holds_blk_def)
    show ?thesis
    proof (cases "holds_blk m (buf_at b s)")
      case True
      have "\<not> holds_blk m (bufs k' ! c)" if "c < NBUF" for c
      proof (cases "c = b")
        case False
        have "\<not> holds_blk m (buf_at c s)"
          using False True uniqD [OF D(5) that b(1)] unfolding holds_blk_def buf_at_def by metis
        then show ?thesis using False nth [OF that] by simp
      qed (use ny nth [OF that] in simp)
      then have "content k' m = dblk (memdisk k') (unat m)" by (rule content_uncached [OF len])
      moreover have "\<not> b_dirty (buf_at b s)" using f True False by (auto simp: fetched_def holds_blk_def split: if_splits)
      then have "b_data (buf_at b s) = dblk (memdisk (kern s)) (unat m)"
        using D(8) [OF b(1)] b(2) True by (auto simp: buf_ok_def holds_blk_def)
      moreover have "content (kern s) m = b_data (buf_at b s)"
        using content_cached [OF D(6,5) b(1)] True by (simp add: buf_at_def)
      ultimately show ?thesis using k'(2) by simp
    next
      case other: False
      then show ?thesis
        using ny nth by (intro content_cong [OF D(6) len k'(2)]) (auto simp: buf_at_def)
    qed
  qed
  show "dirty_blks k' = dirty_blks (kern s)"
  proof -
    have "(holds_blk m (bufs k' ! c) \<and> b_dirty (bufs k' ! c)) = (holds_blk m (buf_at c s) \<and> b_dirty (buf_at c s))"
      if "c < NBUF" for m c
      using that f nth [OF that] by (cases "c = b") (auto simp: fetched_def holds_blk_def split: if_splits)
    then show ?thesis by (auto simp: dirty_blks_def buf_at_def)
  qed
qed

text \<open>What the operations of the cache leave alone: everything but the buffers, their locks, the disk,
  and the processes they wake.\<close>

definition woken :: "proc list \<Rightarrow> proc list \<Rightarrow> bool" where
  "woken = list_all2 (\<lambda>p q. q = p \<or> p_state p = SLEEPING \<and> q = p\<lparr>p_state := RUNNABLE\<rparr>)"

definition bframe :: "'a bufk_scheme machine \<Rightarrow> 'a bufk_scheme machine \<Rightarrow> bool" where
  "bframe s t \<longleftrightarrow> (\<exists>pt sl bs md dl. t = upd_kern (\<lambda>k. k\<lparr>ptable := pt, sleeplocks := sl, bufs := bs,
       memdisk := md, disk_log := dl\<rparr>) s \<and> woken (ptable (kern s)) pt \<and>
     (\<forall>j. sl (Inode_sl j) = sleeplocks (kern s) (Inode_sl j)))"

lemma bframeI:
  "t = upd_kern (\<lambda>k. k\<lparr>ptable := pt, sleeplocks := sl, bufs := bs, memdisk := md, disk_log := dl\<rparr>) s \<Longrightarrow>
     woken (ptable (kern s)) pt \<Longrightarrow> (\<And>j. sl (Inode_sl j) = sleeplocks (kern s) (Inode_sl j)) \<Longrightarrow> bframe s t"
  unfolding bframe_def by blast

lemma woken_refl [simp]: "woken ps ps"
  by (simp add: woken_def list.rel_refl)

lemma woken_wake [simp]: "woken ps (wake ch ps)"
  by (auto simp: woken_def wake_def list_all2_conv_all_nth)

lemma woken_trans: "woken ps qs \<Longrightarrow> woken qs rs \<Longrightarrow> woken ps rs"
  unfolding woken_def by (erule (1) list_all2_trans [rotated]) auto

lemma bframe_refl [simp]: "bframe s s"
proof -
  have "s = upd_kern (\<lambda>k. k\<lparr>ptable := ptable (kern s), sleeplocks := sleeplocks (kern s), bufs := bufs (kern s),
       memdisk := memdisk (kern s), disk_log := disk_log (kern s)\<rparr>) s"
    by (simp add: upd_kern_def)
  then show ?thesis by (rule bframeI) simp_all
qed

lemma bframe_trans:
  assumes "bframe s t" "bframe t u"
  shows "bframe s u"
proof -
  obtain pt sl bs md dl where t: "t = upd_kern (\<lambda>k. k\<lparr>ptable := pt, sleeplocks := sl, bufs := bs, memdisk := md,
      disk_log := dl\<rparr>) s" and wt: "woken (ptable (kern s)) pt" "\<forall>j. sl (Inode_sl j) = sleeplocks (kern s) (Inode_sl j)"
    using assms(1) unfolding bframe_def by blast
  obtain pt' sl' bs' md' dl' where u: "u = upd_kern (\<lambda>k. k\<lparr>ptable := pt', sleeplocks := sl', bufs := bs',
      memdisk := md', disk_log := dl'\<rparr>) t"
    and wu: "woken (ptable (kern t)) pt'" "\<forall>j. sl' (Inode_sl j) = sleeplocks (kern t) (Inode_sl j)"
    using assms(2) unfolding bframe_def by blast
  show ?thesis
  proof (rule bframeI)
    show "u = upd_kern (\<lambda>k. k\<lparr>ptable := pt', sleeplocks := sl', bufs := bs', memdisk := md', disk_log := dl'\<rparr>) s"
      by (simp add: t u)
    show "woken (ptable (kern s)) pt'" using wt(1) wu(1) woken_trans [of _ pt] by (simp add: t)
    show "sl' (Inode_sl j) = sleeplocks (kern s) (Inode_sl j)" for j using wt(2) wu(2) by (simp add: t)
  qed
qed

lemma bframe_upd_buf: "bframe s (upd_buf b f s)"
proof -
  have "upd_buf b f s = upd_kern (\<lambda>k. k\<lparr>ptable := ptable (kern s), sleeplocks := sleeplocks (kern s),
      bufs := (bufs (kern s))[b := f (buf_at b s)], memdisk := memdisk (kern s), disk_log := disk_log (kern s)\<rparr>) s"
    by (simp add: upd_kern_def upd_buf_def buf_at_def)
  then show ?thesis by (rule bframeI) simp_all
qed

lemma bframe_upd_sl: "bframe s (upd_sl (Buf_sl b) f s)"
proof -
  have "upd_sl (Buf_sl b) f s = upd_kern (\<lambda>k. k\<lparr>ptable := ptable (kern s),
      sleeplocks := (sleeplocks (kern s))(Buf_sl b := f (sleeplocks (kern s) (Buf_sl b))),
      bufs := bufs (kern s), memdisk := memdisk (kern s), disk_log := disk_log (kern s)\<rparr>) s"
    by (simp add: upd_kern_def upd_sl_def)
  then show ?thesis by (rule bframeI) simp_all
qed

lemma bframe_fields:
  assumes "bframe s t"
  shows "disksize (kern t) = disksize (kern s)" "me t = me s" "calm s \<Longrightarrow> calm t"
    "length (ptable (kern t)) = length (ptable (kern s))"
    "sleeplocks (kern t) (Inode_sl j) = sleeplocks (kern s) (Inode_sl j)"
    "j < length (ptable (kern s)) \<Longrightarrow> pid_of j t = pid_of j s"
  using assms
  by (auto simp: bframe_def woken_def pid_of_def proc_at_def list_all2_conv_all_nth)

text \<open>\<^verbatim>\<open>bread\<close> returns a buffer with the block, locked for the caller; no block changes.\<close>

lemma bread_ok:
  assumes ok: "bc_ok H i s" and n: "uint n < disksize (kern s)" and nh: "\<forall>b \<in> H. b_blockno (buf_at b s) \<noteq> n"
    and room: "free_for H n s"
  shows "\<exists>b t. bread 1 n s = Done b t \<and> bc_ok (insert b H) i t \<and> b < NBUF \<and> b \<notin> H \<and> bframe s t \<and>
    holds_blk n (buf_at b t) \<and> b_data (buf_at b t) = content (kern s) n \<and> content (kern t) = content (kern s) \<and>
    dirty_blks (kern t) = dirty_blks (kern s) \<and> memdisk (kern t) = memdisk (kern s) \<and>
    disk_log (kern t) = disk_log (kern s) \<and> (\<forall>c. c \<noteq> b \<longrightarrow> buf_at c t = buf_at c s)"
proof -
  note D = bc_okD [OF ok]
  obtain b y where b: "b < NBUF" "b \<notin> H" and f: "fetched (kern s) n (buf_at b s) y"
    and r: "bread 1 n s = Done b (lock_buf b (pid_of i s) (upd_buf b (\<lambda>_. y) s))"
    using bread_form [OF ok n nh room] by (elim exE conjE) (rule that)
  define t where "t = lock_buf b (pid_of i s) (upd_buf b (\<lambda>_. y) s)"
  have kt: "bufs (kern t) = (bufs (kern s))[b := y]" "memdisk (kern t) = memdisk (kern s)"
    "disk_log (kern t) = disk_log (kern s)" "disksize (kern t) = disksize (kern s)" "pid_of i t = pid_of i s"
    by (simp_all add: t_def bufs_upd_buf) (simp add: upd_sl_def upd_buf_def)
  have nth: "buf_at c t = (if c = b then y else buf_at c s)" for c
    using b(1) D(6) by (auto simp: t_def buf_at_upd)
  note fc = fetch_content [OF ok b f kt(1,2)]
  obtain xs where xs: "linked (bufs (kern s)) xs" using ok by (auto simp: bc_ok_def)
  have lk: "linked (bufs (kern t)) xs"
    unfolding kt(1) using f by (intro linked_update [OF xs]) (simp_all add: fetched_def buf_at_def)
  have y: "holds_blk n y" "b_refcnt y = 1" "b_data y = content (kern s) n" using f by (auto simp: fetched_def)
  have len: "length (content (kern s) n) = BSIZE"
    using D(8) by (cases rule: content_cases [OF D(6,5), of n]) (auto simp: buf_ok_def buf_at_def)
  have bok: "buf_ok (memdisk (kern t)) (disksize (kern t)) (pid_of i t) (c \<in> insert b H)
      (sleeplocks (kern t) (Buf_sl c)) (buf_at c t)" if "c < NBUF" for c
  proof (cases "c = b")
    case True
    then show ?thesis
      using y n len by (simp add: buf_ok_def nth kt holds_blk_def) (simp add: t_def sleeplocks_upd_sl)
  next
    case False
    then show ?thesis
      using D(8) [OF that] by (simp add: nth kt) (simp add: t_def sleeplocks_upd_sl)
  qed
  have fr: "bframe s t" unfolding t_def by (rule bframe_trans [OF bframe_upd_buf bframe_upd_sl])
  have "bc_ok (insert b H) i t"
    using D(1-4) b(1) lk bok fc(2) bframe_fields [OF fr] by (auto simp: bc_ok_def running_def)
  moreover have "content (kern t) = content (kern s)" using fc(1) by (auto simp: fun_eq_iff)
  ultimately show ?thesis
    using r b fr y fc(3) kt nth by (intro exI [of _ b] exI [of _ t]) (simp add: t_def [symmetric])
qed

lemma dblk_dput: "length bs = BSIZE \<Longrightarrow> dblk (dput d n bs) m = (if m = n then bs else dblk d m)"
proof (cases "m = n")
  case True
  assume "length bs = BSIZE"
  then show ?thesis using True by (auto simp: dblk_def dput_def intro: nth_equalityI)
next
  case False
  have "\<not> (n * BSIZE \<le> m * BSIZE + j \<and> m * BSIZE + j < n * BSIZE + BSIZE)" if "j < BSIZE" for j
  proof
    assume a: "n * BSIZE \<le> m * BSIZE + j \<and> m * BSIZE + j < n * BSIZE + BSIZE"
    have "(m * BSIZE + j) div BSIZE = m" using that by simp
    moreover have "(m * BSIZE + j) div BSIZE = n"
      using a by (intro div_nat_eqI) (simp_all add: mult.commute)
    ultimately show False using False by simp
  qed
  then show ?thesis using False by (auto simp: dblk_def dput_def)
qed

text \<open>Changing the data of a held buffer changes its block, and only that one.\<close>

lemma bc_ok_upd_held:
  assumes ok: "bc_ok H i s" and b: "b \<in> H"
    and y: "length (b_data y) = BSIZE" "b_refcnt y = b_refcnt (buf_at b s)" "b_valid y" "b_dev y = b_dev (buf_at b s)"
      "b_blockno y = b_blockno (buf_at b s)" "b_next y = b_next (buf_at b s)" "b_prev y = b_prev (buf_at b s)"
  shows "bc_ok H i (upd_buf b (\<lambda>_. y) s)"
    and "content (kern (upd_buf b (\<lambda>_. y) s)) = (content (kern s))(b_blockno (buf_at b s) := b_data y)"
    and "dirty_blks (kern (upd_buf b (\<lambda>_. y) s)) =
      (if b_dirty y then insert (b_blockno y) (dirty_blks (kern s)) else dirty_blks (kern s) - {b_blockno y})"
proof -
  note D = bc_okD [OF ok]
  let ?t = "upd_buf b (\<lambda>_. y) s"
  have b1: "b < NBUF" using b D(4) by auto
  have x: "b_valid (buf_at b s)" "b_dev (buf_at b s) = 1" "uint (b_blockno (buf_at b s)) < disksize (kern s)"
    using D(8) [OF b1] b by (auto simp: buf_ok_def)
  have nth: "buf_at c ?t = (if c = b then y else buf_at c s)" for c using b1 D(6) by (simp add: buf_at_upd)
  then have nth': "bufs (kern ?t) ! c = (if c = b then y else buf_at c s)" for c by (simp add: buf_at_def)
  have len: "length (bufs (kern ?t)) = Suc NBUF" using D(6) by simp
  obtain xs where xs: "linked (bufs (kern s)) xs" using ok by (auto simp: bc_ok_def)
  have lk: "linked (bufs (kern ?t)) xs"
    unfolding bufs_upd_buf using y by (intro linked_update [OF xs]) (simp_all add: buf_at_def)
  have "b_dev (bufs (kern ?t) ! c) = b_dev (bufs (kern s) ! c)"
    "b_blockno (bufs (kern ?t) ! c) = b_blockno (bufs (kern s) ! c)" for c
    using nth' y(4,5) by (simp_all add: buf_at_def)
  then have u: "uniq (bufs (kern ?t))" using D(5) unfolding uniq_def by presburger
  have bok: "buf_ok (memdisk (kern ?t)) (disksize (kern ?t)) (pid_of i ?t) (c \<in> H)
      (sleeplocks (kern ?t) (Buf_sl c)) (buf_at c ?t)" if "c < NBUF" for c
    using D(8) [OF that] D(8) [OF b1] b y x nth by (cases "c = b") (auto simp: buf_ok_def)
  show "bc_ok H i ?t" using D(1-4) lk bok u by (auto simp: bc_ok_def running_def)
  have other: "c = b" if "c < NBUF" "holds_blk (b_blockno (buf_at b s)) (buf_at c s)" for c
    using uniqD [OF D(5) that(1) b1] that(2) x by (simp add: holds_blk_def buf_at_def)
  show "content (kern ?t) = (content (kern s))(b_blockno (buf_at b s) := b_data y)"
  proof
    fix m
    show "content (kern ?t) m = ((content (kern s))(b_blockno (buf_at b s) := b_data y)) m"
    proof (cases "m = b_blockno (buf_at b s)")
      case True
      then show ?thesis using content_cached [OF len u b1, of m] nth' y x by (simp add: holds_blk_def)
    next
      case False
      then have "content (kern ?t) m = content (kern s) m"
        using nth' y by (intro content_cong [OF D(6) len]) (auto simp: holds_blk_def buf_at_def)
      then show ?thesis using False by simp
    qed
  qed
  show "dirty_blks (kern ?t) =
      (if b_dirty y then insert (b_blockno y) (dirty_blks (kern s)) else dirty_blks (kern s) - {b_blockno y})"
  proof -
    have e: "m \<in> dirty_blks (kern ?t) \<longleftrightarrow> (if m = b_blockno y then b_dirty y else m \<in> dirty_blks (kern s))" for m
    proof (cases "m = b_blockno y")
      case True
      have "holds_blk m (bufs (kern ?t) ! b)" using True nth' y x by (simp add: holds_blk_def)
      moreover have "c = b" if "c < NBUF" "holds_blk m (bufs (kern ?t) ! c)" for c
        using other [OF that(1)] that nth' True y(5) by (cases "c = b") auto
      ultimately have "m \<in> dirty_blks (kern ?t) \<longleftrightarrow> b_dirty (bufs (kern ?t) ! b)"
        unfolding dirty_blks_def using b1 by blast
      then show ?thesis using True nth' by simp
    next
      case False
      then have "(holds_blk m (bufs (kern ?t) ! c) \<and> b_dirty (bufs (kern ?t) ! c)) =
          (holds_blk m (bufs (kern s) ! c) \<and> b_dirty (bufs (kern s) ! c))" for c
        using nth' [of c] y(5) by (cases "c = b") (auto simp: holds_blk_def buf_at_def)
      then have "m \<in> dirty_blks (kern ?t) \<longleftrightarrow> m \<in> dirty_blks (kern s)"
        unfolding dirty_blks_def by simp
      then show ?thesis using False by simp
    qed
    show ?thesis by (rule set_eqI) (simp add: e)
  qed
qed

lemma dirty_held: "bc_ok H i s \<Longrightarrow> b \<in> H \<Longrightarrow> b_dirty (buf_at b s) \<longleftrightarrow> b_blockno (buf_at b s) \<in> dirty_blks (kern s)"
proof -
  assume ok: "bc_ok H i s" and b: "b \<in> H"
  note D = bc_okD [OF ok]
  have b1: "b < NBUF" using b D(4) by auto
  have x: "b_valid (buf_at b s)" "b_dev (buf_at b s) = 1"
    using D(8) [OF b1] b by (auto simp: buf_ok_def)
  have "c = b" if "c < NBUF" "holds_blk (b_blockno (buf_at b s)) (buf_at c s)" for c
    using uniqD [OF D(5) that(1) b1] that(2) x by (simp add: holds_blk_def buf_at_def)
  moreover have "holds_blk (b_blockno (buf_at b s)) (buf_at b s)" using x by (simp add: holds_blk_def)
  ultimately show ?thesis unfolding dirty_blks_def buf_at_def using b1 by blast
qed

text \<open>The state after the disk has taken a block.\<close>

definition disk_put :: "nat \<Rightarrow> bytes \<Rightarrow> 'a bufk_scheme machine \<Rightarrow> 'a bufk_scheme machine" where
  "disk_put n bs = upd_kern (\<lambda>k. k\<lparr>memdisk := dput (memdisk k) n bs, disk_log := disk_log k @ [(n, bs)]\<rparr>)"

lemma disk_put_fields [simp]:
  "bufs (kern (disk_put n bs s)) = bufs (kern s)" "buf_at c (disk_put n bs s) = buf_at c s"
  "sleeplocks (kern (disk_put n bs s)) = sleeplocks (kern s)" "disksize (kern (disk_put n bs s)) = disksize (kern s)"
  "me (disk_put n bs s) = me s" "pid_of i (disk_put n bs s) = pid_of i s" "ptable (kern (disk_put n bs s)) = ptable (kern s)"
  "memdisk (kern (disk_put n bs s)) = dput (memdisk (kern s)) n bs" "calm s \<Longrightarrow> calm (disk_put n bs s)"
  "disk_log (kern (disk_put n bs s)) = disk_log (kern s) @ [(n, bs)]"
  by (simp_all add: disk_put_def buf_at_def pid_of_def proc_at_def)

lemma bframe_disk_put: "bframe s (disk_put n bs s)"
proof (rule bframeI)
  show "disk_put n bs s = upd_kern (\<lambda>k. k\<lparr>ptable := ptable (kern s), sleeplocks := sleeplocks (kern s), bufs := bufs (kern s),
      memdisk := dput (memdisk (kern s)) n bs, disk_log := disk_log (kern s) @ [(n, bs)]\<rparr>) s"
    by (simp add: upd_kern_def disk_put_def)
qed simp_all

text \<open>Writing the data of a held buffer to its place on the disk keeps the invariant and every block.\<close>

lemma bc_ok_disk_put:
  assumes ok: "bc_ok H i s" and b: "b \<in> H"
  defines "t \<equiv> disk_put (unat (b_blockno (buf_at b s))) (b_data (buf_at b s)) s"
  shows "bc_ok H i t" "content (kern t) = content (kern s)" "dirty_blks (kern t) = dirty_blks (kern s)"
proof -
  note D = bc_okD [OF ok]
  have b1: "b < NBUF" using b D(4) by auto
  have x: "b_valid (buf_at b s)" "b_dev (buf_at b s) = 1" "length (b_data (buf_at b s)) = BSIZE"
    using D(8) [OF b1] b by (auto simp: buf_ok_def)
  have far: "dblk (memdisk (kern t)) (unat m) = dblk (memdisk (kern s)) (unat m)" if "m \<noteq> b_blockno (buf_at b s)" for m
    using that x(3) unsigned_word_eqI [of m "b_blockno (buf_at b s)"] by (auto simp: t_def dblk_dput)
  have other: "b_blockno (buf_at c s) \<noteq> b_blockno (buf_at b s)" if "c < NBUF" "c \<noteq> b" "b_dev (buf_at c s) = 1" for c
    using uniqD [OF D(5) that(1) b1] that x by (auto simp: buf_at_def)
  have bok: "buf_ok (memdisk (kern t)) (disksize (kern t)) (pid_of i t) (c \<in> H) (sleeplocks (kern t) (Buf_sl c)) (buf_at c t)"
    if "c < NBUF" for c
    using D(8) [OF that] b other [OF that] far [of "b_blockno (buf_at c s)"]
    by (cases "c = b") (auto simp: buf_ok_def t_def)
  show "bc_ok H i t" using ok bok D by (auto simp: bc_ok_def running_def t_def)
  show "dirty_blks (kern t) = dirty_blks (kern s)" by (simp add: dirty_blks_def t_def)
  show "content (kern t) = content (kern s)"
  proof
    fix m
    show "content (kern t) m = content (kern s) m"
    proof (cases "scan (holds_blk m) (take NBUF (bufs (kern s)))")
      case (Some c)
      then show ?thesis by (simp add: content_def t_def)
    next
      case None
      then have "\<not> holds_blk m (buf_at b s)" using b1 D(6) by (auto simp: scan_None_nth buf_at_def)
      then have "dblk (memdisk (kern t)) (unat m) = dblk (memdisk (kern s)) (unat m)"
        using far [of m] x by (auto simp: holds_blk_def)
      then show ?thesis using None by (simp add: content_def t_def)
    qed
  qed
qed

lemma held_state:
  assumes "bc_ok H i s" "b \<in> H"
  shows "holdingsleep (Buf_sl b) s = Done True s" "b < NBUF" "holds_blk (b_blockno (buf_at b s)) (buf_at b s)"
    "uint (b_blockno (buf_at b s)) < disksize (kern s)" "length (b_data (buf_at b s)) = BSIZE"
    "b_data (buf_at b s) = content (kern s) (b_blockno (buf_at b s))" "b_refcnt (buf_at b s) = 1"
proof -
  note D = bc_okD [OF assms(1)]
  show b: "b < NBUF" using assms(2) D(4) by auto
  note k = D(8) [OF b, unfolded buf_ok_def]
  show "holdingsleep (Buf_sl b) s = Done True s" using holdingsleep_calm [OF D(1,2)] k assms(2) by simp
  show h: "holds_blk (b_blockno (buf_at b s)) (buf_at b s)" using k assms(2) by (simp add: holds_blk_def)
  show "uint (b_blockno (buf_at b s)) < disksize (kern s)" "length (b_data (buf_at b s)) = BSIZE" "b_refcnt (buf_at b s) = 1"
    using k assms(2) by auto
  show "b_data (buf_at b s) = content (kern s) (b_blockno (buf_at b s))"
    using content_cached [OF D(6,5) b] h by (simp add: buf_at_def)
qed

text \<open>\<^verbatim>\<open>bwrite\<close> puts the held buffer on the disk and makes it clean.\<close>

lemma bwrite_ok:
  assumes ok: "bc_ok H i s" and b: "b \<in> H"
  shows "\<exists>t. bwrite b s = Done () t \<and> bc_ok H i t \<and> bframe s t \<and> content (kern t) = content (kern s) \<and>
    memdisk (kern t) = dput (memdisk (kern s)) (unat (b_blockno (buf_at b s))) (b_data (buf_at b s)) \<and>
    disk_log (kern t) = disk_log (kern s) @ [(unat (b_blockno (buf_at b s)), b_data (buf_at b s))] \<and>
    dirty_blks (kern t) = dirty_blks (kern s) - {b_blockno (buf_at b s)} \<and>
    buf_at b t = (buf_at b s)\<lparr>b_dirty := False\<rparr> \<and> (\<forall>c. c \<noteq> b \<longrightarrow> buf_at c t = buf_at c s)"
proof -
  note D = bc_okD [OF ok]
  note h = held_state [OF ok b]
  define x where "x = buf_at b s"
  define s1 where "s1 = upd_buf b (\<lambda>_. x\<lparr>b_dirty := True\<rparr>) s"
  have v: "b_valid x" "b_dev x = 1" using h(3) by (simp_all add: x_def holds_blk_def)
  then have xv: "x\<lparr>b_dirty := False, b_valid := True\<rparr> = x\<lparr>b_dirty := False\<rparr>" by (cases x) simp
  have b1: "buf_at b s1 = x\<lparr>b_dirty := True\<rparr>" using h(2) D(6) by (simp add: s1_def buf_at_upd)
  have hs1: "holdingsleep (Buf_sl b) s1 = Done True s1"
    using holdingsleep_calm [of s1 i "Buf_sl b"] D(1,2) h(1) holdingsleep_calm [OF D(1,2), of "Buf_sl b"] by (simp add: s1_def)
  define u where "u = upd_buf b (\<lambda>_. x\<lparr>b_dirty := False\<rparr>) s"
  define t where "t = disk_put (unat (b_blockno x)) (b_data x) u"
  have dp: "upd_buf b f (disk_put n bs w) = disk_put n bs (upd_buf b f w)" for f n bs and w :: "'a bufk_scheme machine"
    by (simp add: upd_buf_def disk_put_def)
  have "iderw b s1 = Done () (upd_buf b (\<lambda>x. x\<lparr>b_valid := True\<rparr>)
      (disk_put (unat (b_blockno x)) (b_data x) (upd_buf b (\<lambda>x. x\<lparr>b_dirty := False\<rparr>) s1)))"
    using b1 hs1 h(4) v D(6) h(2) by (simp add: iderw_def disk_put_def x_def [symmetric] s1_def buf_at_upd Let_def)
  also have "upd_buf b (\<lambda>x. x\<lparr>b_valid := True\<rparr>)
      (disk_put (unat (b_blockno x)) (b_data x) (upd_buf b (\<lambda>x. x\<lparr>b_dirty := False\<rparr>) s1)) = t"
    using xv by (simp add: dp t_def u_def s1_def)
  finally have w: "bwrite b s = Done () t"
    using h(1) by (simp add: bwrite_def s1_def x_def upd_buf_const [of b "\<lambda>x. x\<lparr>b_dirty := True\<rparr>"])
  have bu: "buf_at b u = x\<lparr>b_dirty := False\<rparr>" using h(2) D(6) by (simp add: u_def buf_at_upd)
  note uh = bc_ok_upd_held [OF ok b, of "x\<lparr>b_dirty := False\<rparr>", folded u_def, unfolded x_def [symmetric]]
  have ucond: "bc_ok H i u" "content (kern u) = (content (kern s))(b_blockno x := b_data x)"
    "dirty_blks (kern u) = dirty_blks (kern s) - {b_blockno x}"
    using uh h(5) v by (simp_all add: x_def)
  have "content (kern u) = content (kern s)" using ucond(2) h(6) by (simp add: x_def)
  moreover note pt = bc_ok_disk_put [OF ucond(1) b, unfolded bu, simplified, folded t_def]
  moreover have "bframe s t" unfolding t_def u_def by (rule bframe_trans [OF bframe_upd_buf bframe_disk_put])
  moreover have "disk_log (kern u) = disk_log (kern s)" by (simp add: u_def upd_buf_def)
  moreover have "buf_at c t = (if c = b then x\<lparr>b_dirty := False\<rparr> else buf_at c s)" for c
    using h(2) D(6) by (simp add: t_def u_def buf_at_upd)
  ultimately show ?thesis
    using w ucond(3) by (intro exI [of _ t]) (simp add: t_def x_def u_def)
qed

definition set_bufs :: "buf list \<Rightarrow> 'a bufk_scheme machine \<Rightarrow> 'a bufk_scheme machine" where
  "set_bufs bs = upd_kern (\<lambda>k. k\<lparr>bufs := bs\<rparr>)"

lemma set_bufs [simp]: "set_bufs bs (set_bufs bs' s) = set_bufs bs s" "buf_at c (set_bufs bs s) = bs ! c"
  "bufs (kern (set_bufs bs s)) = bs" "set_bufs (bufs (kern s)) s = s"
  by (simp_all add: set_bufs_def buf_at_def upd_kern_def)

lemma upd_buf_set: "upd_buf b f (set_bufs bs s) = set_bufs (bs[b := f (bs ! b)]) s"
  by (simp add: upd_buf_def set_bufs_def)

lemma brelse_links:
  "(let s = upd_buf (b_next (buf_at b s)) (\<lambda>x. x\<lparr>b_prev := b_prev (buf_at b s)\<rparr>) s;
        s = upd_buf (b_prev (buf_at b s)) (\<lambda>x. x\<lparr>b_next := b_next (buf_at b s)\<rparr>) s;
        s = upd_buf b (\<lambda>x. x\<lparr>b_next := b_next (buf_at NBUF s)\<rparr>) s;
        s = upd_buf b (\<lambda>x. x\<lparr>b_prev := NBUF\<rparr>) s
    in link_first b s) = set_bufs (to_front b (bufs (kern s))) s"
proof -
  define bs u where "bs = bufs (kern s)" and "u = s"
  have s: "s = set_bufs bs u" by (simp add: bs_def u_def)
  show ?thesis unfolding s link_first_def Let_def to_front_def upd_buf_set set_bufs(1-3) ..
qed

text \<open>The state after \<^verbatim>\<open>brelse\<close> of a buffer with one reference.\<close>

definition released :: "nat \<Rightarrow> 'a bufk_scheme machine \<Rightarrow> 'a bufk_scheme machine" where
  "released b s = upd_kern (\<lambda>k. k\<lparr>ptable := wake (Buflk_ch b) (ptable k),
     sleeplocks := (sleeplocks k)(Buf_sl b := (sleeplocks k (Buf_sl b))\<lparr>slocked := False, slpid := 0\<rparr>),
     bufs := to_front b ((bufs k)[b := (bufs k ! b)\<lparr>b_refcnt := 0\<rparr>])\<rparr>) s"

lemma brelse_form:
  assumes ok: "bc_ok H i s" and b: "b \<in> H"
  shows "brelse b s = Done () (released b s)"
proof -
  note D = bc_okD [OF ok]
  note h = held_state [OF ok b]
  define s1 where "s1 = upd_kern (\<lambda>k. k\<lparr>ptable := wake (Buflk_ch b) (ptable k),
    sleeplocks := (sleeplocks k)(Buf_sl b := (sleeplocks k (Buf_sl b))\<lparr>slocked := False, slpid := 0\<rparr>)\<rparr>) s"
  have r1: "releasesleep (Buf_sl b) s = Done () s1" using releasesleep_calm [OF D(1)] by (simp add: s1_def)
  have c1: "calm s1" using D(1) by (simp add: s1_def)
  let ?a = "acq Bcache_lk s1"
  define u where "u = upd_buf b (\<lambda>x. x\<lparr>b_refcnt := b_refcnt x - 1\<rparr>) ?a"
  have ba: "buf_at b ?a = buf_at b s" by (simp add: buf_at_def s1_def)
  have z: "b_refcnt (buf_at b u) = 0"
    using h(2,7) D(6) ba by (simp add: u_def buf_at_upd) (simp add: s1_def)
  have bu: "bufs (kern u) = (bufs (kern s))[b := (buf_at b s)\<lparr>b_refcnt := 0\<rparr>]"
    using h(7) ba by (simp add: u_def bufs_upd_buf) (simp add: s1_def)
  have "release Bcache_lk (set_bufs bs u) = Done () (set_bufs bs s1)" for bs
    using calm_section(3) [OF c1] by (simp add: set_bufs_def u_def upd_buf_def)
  then have "brelse b s = Done () (set_bufs (to_front b (bufs (kern u))) s1)"
    unfolding brelse_def h(1) bindK.simps r1 calm_section(1) [OF c1] Let_def u_def [symmetric]
      brelse_links [unfolded Let_def] by (simp add: z)
  then show ?thesis by (simp add: bu released_def s1_def set_bufs_def buf_at_def upd_kern_def)
qed

lemma released_fields [simp]:
  "memdisk (kern (released b s)) = memdisk (kern s)" "disk_log (kern (released b s)) = disk_log (kern s)"
  "disksize (kern (released b s)) = disksize (kern s)" "me (released b s) = me s" "calm s \<Longrightarrow> calm (released b s)"
  "length (ptable (kern (released b s))) = length (ptable (kern s))"
  "i < length (ptable (kern s)) \<Longrightarrow> pid_of i (released b s) = pid_of i s"
  by (simp_all add: released_def pid_of_def proc_at_def)

lemma released_buf:
  assumes "b < length (bufs (kern s))"
  shows "data_of (buf_at c (released b s)) = data_of (if c = b then (buf_at b s)\<lparr>b_refcnt := 0\<rparr> else buf_at c s)"
  using assms by (simp add: released_def buf_at_def to_front_data)

lemma data_of_eqD:
  assumes "data_of x = data_of y"
  shows "b_valid x = b_valid y" "b_dirty x = b_dirty y" "b_dev x = b_dev y" "b_blockno x = b_blockno y"
    "b_refcnt x = b_refcnt y" "b_data x = b_data y" "holds_blk n x = holds_blk n y"
    "buf_ok d z p h l x = buf_ok d z p h l y"
  using assms by (simp_all add: data_of_def holds_blk_def buf_ok_def)

lemma bframe_released: "bframe s (released b s)"
proof (rule bframeI)
  show "released b s = upd_kern (\<lambda>k. k\<lparr>ptable := wake (Buflk_ch b) (ptable (kern s)),
      sleeplocks := (sleeplocks (kern s))(Buf_sl b := (sleeplocks (kern s) (Buf_sl b))\<lparr>slocked := False, slpid := 0\<rparr>),
      bufs := to_front b ((bufs (kern s))[b := (bufs (kern s) ! b)\<lparr>b_refcnt := 0\<rparr>]),
      memdisk := memdisk (kern s), disk_log := disk_log (kern s)\<rparr>) s"
    by (simp add: released_def upd_kern_def)
qed simp_all

text \<open>\<^verbatim>\<open>brelse\<close> gives the buffer back; it has to be dirty or agree with the disk.\<close>

lemma brelse_ok:
  assumes ok: "bc_ok H i s" and b: "b \<in> H"
    and clean: "b_dirty (buf_at b s) \<or> b_data (buf_at b s) = dblk (memdisk (kern s)) (unat (b_blockno (buf_at b s)))"
  shows "brelse b s = Done () (released b s)" "bc_ok (H - {b}) i (released b s)"
    "content (kern (released b s)) = content (kern s)" "dirty_blks (kern (released b s)) = dirty_blks (kern s)"
proof -
  note D = bc_okD [OF ok]
  note h = held_state [OF ok b]
  let ?t = "released b s"
  have bl: "b < length (bufs (kern s))" using h(2) D(6) by simp
  note rb = data_of_eqD [OF released_buf [OF bl]]
  have same: "holds_blk n (buf_at c ?t) = holds_blk n (buf_at c s)" "b_data (buf_at c ?t) = b_data (buf_at c s)"
    "b_dirty (buf_at c ?t) = b_dirty (buf_at c s)" "b_dev (buf_at c ?t) = b_dev (buf_at c s)"
    "b_blockno (buf_at c ?t) = b_blockno (buf_at c s)" for c n
    by (simp_all add: rb) (simp add: holds_blk_def)
  obtain xs where xs: "linked (bufs (kern s)) xs" using ok by (auto simp: bc_ok_def)
  have "linked ((bufs (kern s))[b := (bufs (kern s) ! b)\<lparr>b_refcnt := 0\<rparr>]) xs" by (rule linked_update [OF xs]) simp_all
  then have lk: "linked (bufs (kern ?t)) (b # remove1 b xs)"
    using linked_to_front h(2) by (simp add: released_def)
  have u: "uniq (bufs (kern ?t))"
    using D(5) same(4,5) unfolding uniq_def buf_at_def by presburger
  have bok: "buf_ok (memdisk (kern ?t)) (disksize (kern ?t)) (pid_of i ?t) (c \<in> H - {b})
      (sleeplocks (kern ?t) (Buf_sl c)) (buf_at c ?t)" if "c < NBUF" for c
  proof (cases "c = b")
    case True
    then show ?thesis
      using D(8) [OF h(2)] b clean D(3) by (simp add: rb) (auto simp: buf_ok_def released_def)
  next
    case False
    then show ?thesis
      using D(8) [OF that] D(3) by (simp add: rb) (simp add: released_def)
  qed
  show "brelse b s = Done () ?t" by (rule brelse_form [OF ok b])
  show "bc_ok (H - {b}) i ?t" using D(1-4) lk bok u by (auto simp: bc_ok_def running_def)
  show "dirty_blks (kern ?t) = dirty_blks (kern s)"
    using same unfolding dirty_blks_def buf_at_def by simp
  show "content (kern ?t) = content (kern s)"
  proof
    fix m show "content (kern ?t) m = content (kern s) m"
      using same linked_length [OF lk] by (intro content_cong [OF D(6)]) (simp_all add: buf_at_def)
  qed
qed

text \<open>There is a buffer for a block as long as the held and the dirty buffers are not all.\<close>

lemma free_for_card:
  assumes ok: "bc_ok H i s" and c: "card H + card (dirty_blks (kern s)) < NBUF"
  shows "free_for H n s"
proof (rule ccontr)
  assume "\<not> free_for H n s"
  then have all: "\<And>b. b < NBUF \<Longrightarrow> b \<notin> H \<Longrightarrow> b_dirty (buf_at b s)" by (auto simp: free_for_def)
  note D = bc_okD [OF ok]
  let ?f = "\<lambda>b. b_blockno (buf_at b s)"
  have v: "b_valid (buf_at b s)" "b_dev (buf_at b s) = 1" if "b < NBUF" "b \<notin> H" for b
    using D(8) [OF that(1)] all [OF that] by (auto simp: buf_ok_def)
  have inj: "inj_on ?f ({..<NBUF} - H)"
    using uniqD [OF D(5)] v unfolding inj_on_def buf_at_def by auto
  have "?f ` ({..<NBUF} - H) \<subseteq> dirty_blks (kern s)"
    using v all unfolding dirty_blks_def holds_blk_def buf_at_def by auto
  moreover have "dirty_blks (kern s) \<subseteq> (\<lambda>b. b_blockno (bufs (kern s) ! b)) ` {..<NBUF}"
    by (auto simp: dirty_blks_def holds_blk_def)
  then have "finite (dirty_blks (kern s))" by (rule finite_subset) simp
  ultimately have "card ({..<NBUF} - H) \<le> card (dirty_blks (kern s))"
    using card_mono card_image [OF inj] by metis
  then show False using c card_Diff_subset [OF D(7,4)] by simp
qed

end
