(* ===== verification/Log_Steps.thy ===== *)
theory Log_Steps
  imports Log Bio_Correct
begin

text \<open>
  The steps the log is made of: copying one block to another and rewriting the header, each as an
  effect on the blocks, on the disk and on the sequence of writes the disk receives.
\<close>

section \<open>Writes of the disk\<close>

definition replay :: "(nat \<times> bytes) list \<Rightarrow> (nat \<Rightarrow> uchar) \<Rightarrow> nat \<Rightarrow> uchar" where
  "replay ws d = fold (\<lambda>(n, bs) d. dput d n bs) ws d"

definition wrote :: "(nat \<times> bytes) list \<Rightarrow> 'a bufk_scheme machine \<Rightarrow> 'a bufk_scheme machine \<Rightarrow> bool" where
  "wrote ws s t \<longleftrightarrow> memdisk (kern t) = replay ws (memdisk (kern s)) \<and> disk_log (kern t) = disk_log (kern s) @ ws"

lemma replay_simps [simp]: "replay [] d = d" "replay (w # ws) d = replay ws (dput d (fst w) (snd w))"
  "replay (ws @ vs) d = replay vs (replay ws d)"
  by (simp_all add: replay_def case_prod_beta)

lemma wrote_Nil: "memdisk (kern t) = memdisk (kern s) \<Longrightarrow> disk_log (kern t) = disk_log (kern s) \<Longrightarrow> wrote [] s t"
  by (simp add: wrote_def)

lemma wrote_trans: "wrote ws s t \<Longrightarrow> wrote vs t u \<Longrightarrow> wrote (ws @ vs) s u"
  by (simp add: wrote_def)

lemma dblk_replay:
  "\<forall>(m, bs) \<in> set ws. length bs = BSIZE \<Longrightarrow>
     dblk (replay ws d) n = (case map_of (rev ws) n of Some bs \<Rightarrow> bs | None \<Rightarrow> dblk d n)"
proof (induction ws arbitrary: d)
  case Nil
  then show ?case by simp
next
  case (Cons w ws)
  then show ?case
    by (cases w) (auto simp: dblk_dput map_add_def split: option.split)
qed

section \<open>Steps on blocks\<close>

text \<open>A block that is not dirty is on the disk, once no buffer is held.\<close>

lemma clean_content:
  assumes ok: "bc_ok H i s" and n: "n \<notin> dirty_blks (kern s)" and nh: "\<forall>b \<in> H. b_blockno (buf_at b s) \<noteq> n"
  shows "content (kern s) n = dblk (memdisk (kern s)) (unat n)"
proof (cases rule: content_cases [OF bc_okD(6,5) [OF ok], of n, case_names hit miss])
  case (hit b)
  have "\<not> b_dirty (buf_at b s)" "b \<notin> H"
    using hit n nh by (auto simp: dirty_blks_def buf_at_def holds_blk_def)
  then show ?thesis using hit bc_okD(8) [OF ok hit(1)] by (auto simp: buf_ok_def holds_blk_def buf_at_def)
qed

lemma content_length:
  assumes ok: "bc_ok H i s"
  shows "length (content (kern s) n) = BSIZE"
  using bc_okD(8) [OF ok] by (cases rule: content_cases [OF bc_okD(6,5) [OF ok], of n]) (auto simp: buf_ok_def buf_at_def)

definition room :: "uint \<Rightarrow> 'a bufk_scheme machine \<Rightarrow> bool" where
  "room n s \<longleftrightarrow> n \<in> dirty_blks (kern s) \<or> Suc (card (dirty_blks (kern s))) < NBUF"

lemma free_for_second:
  assumes "bc_ok {b} i s" "room n s" "b_blockno (buf_at b s) \<noteq> n"
  shows "free_for {b} n s"
proof (cases "n \<in> dirty_blks (kern s)")
  case True
  then show ?thesis using assms(3) by (auto simp: dirty_blks_def free_for_def holds_blk_def buf_at_def)
next
  case False
  then show ?thesis using assms(2) by (intro free_for_card [OF assms(1)]) (simp add: room_def)
qed

text \<open>From two held buffers on: the common end of a step of \<^verbatim>\<open>write_log\<close> and of \<^verbatim>\<open>install_trans\<close>.\<close>

definition copy_finish :: "nat \<Rightarrow> nat \<Rightarrow> 'a bufk_scheme machine \<Rightarrow> ('a bufk_scheme machine, unit) outcome" where
  "copy_finish src dst s =
     (let s = upd_buf dst (\<lambda>x. x\<lparr>b_data := b_data (buf_at src s)\<rparr>) s in
      bindK (bwrite dst s) (\<lambda>_ s. bindK (brelse src s) (\<lambda>_ s. brelse dst s)))"

definition copied_blk :: "uint \<Rightarrow> uint \<Rightarrow> 'a bufk_scheme machine \<Rightarrow> 'a bufk_scheme machine \<Rightarrow> bool" where
  "copied_blk a c s t \<longleftrightarrow> bframe s t \<and> content (kern t) = (content (kern s))(c := content (kern s) a) \<and>
     wrote [(unat c, content (kern s) a)] s t \<and> dirty_blks (kern t) = dirty_blks (kern s) - {c}"

lemma copy_finish_ok:
  assumes ok: "bc_ok {x, y} i s" and xy: "x \<noteq> y" "b_blockno (buf_at x s) = a" "b_blockno (buf_at y s) = c"
    and src: "a \<in> dirty_blks (kern s) \<or> b_data (buf_at x s) = dblk (memdisk (kern s)) (unat a)"
  shows "\<exists>t. copy_finish x y s = Done () t \<and> bc_ok {} i t \<and> copied_blk a c s t"
proof -
  note D = bc_okD [OF ok]
  have x: "x \<in> {x, y}" and y: "y \<in> {x, y}" by auto
  note hx = held_state [OF ok x] and hy = held_state [OF ok y]
  have ac: "a \<noteq> c" using uniqD [OF D(5) hx(2) hy(2)] hx(3) hy(3) xy by (auto simp: holds_blk_def buf_at_def)
  define X where "X = b_data (buf_at x s)"
  have XA: "X = content (kern s) a" using hx(6) xy by (simp add: X_def)
  define s1 where "s1 = upd_buf y (\<lambda>_. (buf_at y s)\<lparr>b_data := X\<rparr>) s"
  have s1: "bc_ok {x, y} i s1" "content (kern s1) = (content (kern s))(c := X)"
    "dirty_blks (kern s1) = dirty_blks (kern s)"
    using bc_ok_upd_held [OF ok y, of "(buf_at y s)\<lparr>b_data := X\<rparr>"] hx(5) hy(3) xy dirty_held [OF ok y]
    by (simp_all add: s1_def X_def holds_blk_def insert_absorb)
  have b1: "buf_at y s1 = (buf_at y s)\<lparr>b_data := X\<rparr>" "buf_at x s1 = buf_at x s"
    using hy(2) D(6) xy(1) by (simp_all add: s1_def buf_at_upd)
  obtain s2 where w: "bwrite y s1 = Done () s2" "bc_ok {x, y} i s2" "bframe s1 s2" "content (kern s2) = content (kern s1)"
      "memdisk (kern s2) = dput (memdisk (kern s1)) (unat c) X" "disk_log (kern s2) = disk_log (kern s1) @ [(unat c, X)]"
      "dirty_blks (kern s2) = dirty_blks (kern s1) - {c}" "buf_at y s2 = (buf_at y s1)\<lparr>b_dirty := False\<rparr>"
      "buf_at x s2 = buf_at x s1"
    using bwrite_ok [OF s1(1) y] b1 xy by auto
  have dx: "b_dirty (buf_at x s2) \<or> b_data (buf_at x s2) = dblk (memdisk (kern s2)) (unat (b_blockno (buf_at x s2)))"
  proof (cases "a \<in> dirty_blks (kern s)")
    case True
    then show ?thesis using w(7,9) s1(3) b1(2) xy ac dirty_held [OF w(2) x] by simp
  next
    case False
    have "unat a \<noteq> unat c" using ac unsigned_word_eqI [of a c] by auto
    then show ?thesis using False src w(5,9) b1(2) xy hx(5) by (simp add: s1_def dblk_dput X_def)
  qed
  note r = brelse_ok [OF w(2) x dx]
  define s3 where "s3 = released x s2"
  have r3: "bc_ok {y} i s3" using r(2) xy(1) by (simp add: s3_def insert_Diff_if)
  have "x < length (bufs (kern s2))" using bc_okD(6) [OF w(2)] hx(2) by simp
  then have yd: "b_data (buf_at y s3) = X" "b_blockno (buf_at y s3) = c"
    using data_of_eqD(4,6) [OF released_buf [of x s2 y]] xy w(8) b1 by (simp_all add: s3_def)
  have dy: "b_dirty (buf_at y s3) \<or> b_data (buf_at y s3) = dblk (memdisk (kern s3)) (unat (b_blockno (buf_at y s3)))"
    using yd w(5) hx(5) by (simp add: s3_def dblk_dput X_def)
  have y3: "y \<in> {y}" by simp
  note r4 = brelse_ok [OF r3 y3 dy]
  define t where "t = released y s3"
  have "upd_buf y (b_data_update (\<lambda>_. X)) s = s1"
    by (simp add: s1_def upd_buf_const [of y "b_data_update (\<lambda>_. X)"])
  then have "copy_finish x y s = Done () t"
    using w(1) r(1) r4(1) by (simp add: copy_finish_def X_def [symmetric] s3_def [symmetric] t_def)
  moreover have "bc_ok {} i t" using r4(2) by (simp add: t_def)
  moreover have "bframe s t"
    unfolding t_def s3_def using bframe_trans [OF bframe_upd_buf w(3) [unfolded s1_def]] bframe_released bframe_trans by blast
  moreover have "content (kern t) = (content (kern s))(c := content (kern s) a)"
    using r4(3) r(3) w(4) s1(2) XA by (simp add: t_def s3_def)
  moreover have "dirty_blks (kern t) = dirty_blks (kern s) - {c}" using r4(4) r(4) w(7) s1(3) by (simp add: t_def s3_def)
  moreover have "wrote [(unat c, content (kern s) a)] s t"
    using w(5,6) XA by (simp add: wrote_def t_def s3_def s1_def) (simp add: upd_buf_def)
  ultimately show ?thesis unfolding copied_blk_def by blast
qed

text \<open>What reading blocks leaves alone.\<close>

definition unchanged :: "'a bufk_scheme machine \<Rightarrow> 'a bufk_scheme machine \<Rightarrow> bool" where
  "unchanged s t \<longleftrightarrow> bframe s t \<and> content (kern t) = content (kern s) \<and> dirty_blks (kern t) = dirty_blks (kern s) \<and>
     memdisk (kern t) = memdisk (kern s) \<and> disk_log (kern t) = disk_log (kern s)"

lemma unchanged_trans: "unchanged s t \<Longrightarrow> unchanged t u \<Longrightarrow> unchanged s u"
  by (auto simp: unchanged_def intro: bframe_trans)

lemma copied_after: "unchanged s t \<Longrightarrow> copied_blk a c t u \<Longrightarrow> copied_blk a c s u"
  by (auto simp: unchanged_def copied_blk_def wrote_def intro: bframe_trans)

lemma read_one:
  assumes "bc_ok {} i s" "uint p < disksize (kern s)" "card (dirty_blks (kern s)) < NBUF"
  shows "\<exists>x t. bread 1 p s = Done x t \<and> bc_ok {x} i t \<and> unchanged s t \<and> b_blockno (buf_at x t) = p \<and>
    b_data (buf_at x t) = content (kern s) p"
  using bread_ok [OF assms(1,2)] free_for_card [OF assms(1), of p] assms(3)
  by (auto simp: unchanged_def holds_blk_def)

lemma read_two:
  assumes ok: "bc_ok {} i s" and p: "uint p < disksize (kern s)" and q: "uint q < disksize (kern s)" and pq: "p \<noteq> q"
    and d: "card (dirty_blks (kern s)) < NBUF" and r: "room q s"
  shows "\<exists>x s1 y t. bread 1 p s = Done x s1 \<and> bread 1 q s1 = Done y t \<and> bframe s s1 \<and>
    bc_ok {x, y} i t \<and> unchanged s t \<and> x \<noteq> y \<and> b_blockno (buf_at x t) = p \<and> b_blockno (buf_at y t) = q \<and>
    b_data (buf_at x t) = content (kern s) p \<and> b_data (buf_at y t) = content (kern s) q"
proof -
  obtain x s1 where r1: "bread 1 p s = Done x s1" "bc_ok {x} i s1" "unchanged s s1" "b_blockno (buf_at x s1) = p"
      "b_data (buf_at x s1) = content (kern s) p"
    using read_one [OF ok p d] by blast
  have q1: "uint q < disksize (kern s1)" "room q s1" "content (kern s1) = content (kern s)"
    using q r r1(3) bframe_fields(1) [of s s1] by (simp_all add: unchanged_def room_def)
  have n: "\<forall>b \<in> {x}. b_blockno (buf_at b s1) \<noteq> q" using r1(4) pq by simp
  have ff: "free_for {x} q s1" using free_for_second [OF r1(2) q1(2)] r1(4) pq by simp
  obtain y t where r2: "bread 1 q s1 = Done y t" "bc_ok {y, x} i t" "y \<noteq> x" "bframe s1 t" "holds_blk q (buf_at y t)"
      "b_data (buf_at y t) = content (kern s1) q" "content (kern t) = content (kern s1)"
      "dirty_blks (kern t) = dirty_blks (kern s1)" "memdisk (kern t) = memdisk (kern s1)"
      "disk_log (kern t) = disk_log (kern s1)" "buf_at x t = buf_at x s1"
    using bread_ok [OF r1(2) q1(1) n ff] by auto
  have "unchanged s1 t" using r2 by (simp add: unchanged_def)
  then have "unchanged s t" using r1(3) unchanged_trans by blast
  then show ?thesis
    using r2 r1 q1(3) by (intro exI [of _ x] exI [of _ s1] exI [of _ y] exI [of _ t])
      (simp add: insert_commute holds_blk_def unchanged_def)
qed

section \<open>Steps of the log\<close>

lemma bframe_klog: "bframe s t \<Longrightarrow> klog (kern t) = klog (kern s)"
  by (auto simp: bframe_def)

text \<open>Log block \<open>j\<close> and the home of the \<open>j\<close>-th logged block.\<close>

definition lblk :: "log \<Rightarrow> nat \<Rightarrow> uint" where
  "lblk l j = of_int (lg_start l + int j + 1)"

definition hblk :: "log \<Rightarrow> nat \<Rightarrow> uint" where
  "hblk l j = of_int (lh_block (lg_lh l) ! j)"

lemma write_log_step:
  assumes ok: "bc_ok {} i s" and dev: "lg_dev (the_log s) = 1"
    and l: "uint (lblk (the_log s) j) < disksize (kern s)" and h: "uint (hblk (the_log s) j) < disksize (kern s)"
    and ne: "lblk (the_log s) j \<noteq> hblk (the_log s) j" and d: "card (dirty_blks (kern s)) < NBUF"
    and logged: "hblk (the_log s) j \<in> dirty_blks (kern s)"
  shows "\<exists>t. write_log_from (j # js) s = write_log_from js t \<and> bc_ok {} i t \<and>
    copied_blk (hblk (the_log s) j) (lblk (the_log s) j) s t"
proof -
  have rm: "room (hblk (the_log s) j) s" using logged by (simp add: room_def)
  obtain x s1 y u where u: "bread 1 (lblk (the_log s) j) s = Done x s1" "bread 1 (hblk (the_log s) j) s1 = Done y u"
      "bframe s s1" "bc_ok {x, y} i u" "unchanged s u" "x \<noteq> y" "b_blockno (buf_at x u) = lblk (the_log s) j"
      "b_blockno (buf_at y u) = hblk (the_log s) j"
    using read_two [OF ok l h ne d rm] by (elim exE conjE) (rule that)
  have ok': "bc_ok {y, x} i u" using u(4) by (simp add: insert_commute)
  have k1: "the_log s1 = the_log s" using bframe_klog [OF u(3)] by (simp add: the_log_def)
  have "hblk (the_log s) j \<in> dirty_blks (kern u)" using u(5) logged by (simp add: unchanged_def)
  then obtain t where t: "copy_finish y x u = Done () t" "bc_ok {} i t" "copied_blk (hblk (the_log s) j) (lblk (the_log s) j) u t"
    using copy_finish_ok [OF ok' u(6) [symmetric] u(8,7)] by blast
  have "write_log_from (j # js) s = bindK (copy_finish y x u) (\<lambda>_ s. write_log_from js s)"
    using u(1,2) k1 dev by (simp add: copy_finish_def bindK_assoc lblk_def hblk_def Let_def)
  then show ?thesis using t copied_after [OF u(5) t(3)] by auto
qed

lemma install_step:
  assumes ok: "bc_ok {} i s" and dev: "lg_dev (the_log s) = 1"
    and l: "uint (lblk (the_log s) j) < disksize (kern s)" and h: "uint (hblk (the_log s) j) < disksize (kern s)"
    and ne: "lblk (the_log s) j \<noteq> hblk (the_log s) j" and d: "card (dirty_blks (kern s)) < NBUF"
    and rm: "room (hblk (the_log s) j) s" and clean: "lblk (the_log s) j \<notin> dirty_blks (kern s)"
  shows "\<exists>t. install_from (j # js) s = install_from js t \<and> bc_ok {} i t \<and>
    copied_blk (lblk (the_log s) j) (hblk (the_log s) j) s t"
proof -
  obtain x s1 y u where u: "bread 1 (lblk (the_log s) j) s = Done x s1" "bread 1 (hblk (the_log s) j) s1 = Done y u"
      "bframe s s1" "bc_ok {x, y} i u" "unchanged s u" "x \<noteq> y" "b_blockno (buf_at x u) = lblk (the_log s) j"
      "b_blockno (buf_at y u) = hblk (the_log s) j" "b_data (buf_at x u) = content (kern s) (lblk (the_log s) j)"
    using read_two [OF ok l h ne d rm] by (elim exE conjE) (rule that)
  have k1: "the_log s1 = the_log s" using bframe_klog [OF u(3)] by (simp add: the_log_def)
  have "content (kern s) (lblk (the_log s) j) = dblk (memdisk (kern s)) (unat (lblk (the_log s) j))"
    using clean_content [OF ok clean] by simp
  then have "b_data (buf_at x u) = dblk (memdisk (kern u)) (unat (lblk (the_log s) j))"
    using u(5,9) by (simp add: unchanged_def)
  then obtain t where t: "copy_finish x y u = Done () t" "bc_ok {} i t" "copied_blk (lblk (the_log s) j) (hblk (the_log s) j) u t"
    using copy_finish_ok [OF u(4,6,7,8)] by blast
  have "install_from (j # js) s = bindK (copy_finish x y u) (\<lambda>_ s. install_from js s)"
    using u(1,2) k1 dev by (simp add: copy_finish_def bindK_assoc lblk_def hblk_def Let_def)
  then show ?thesis using t copied_after [OF u(5) t(3)] by auto
qed

section \<open>The header block\<close>

definition header :: "logheader \<Rightarrow> bytes \<Rightarrow> bytes" where
  "header h d = put_blocks (lh_block h) [0..<nat (lh_n h)] (put32 d 0 (of_int (lh_n h)))"

lemma length_put_blocks: "\<forall>i \<in> set is. 8 + 4 * i \<le> length d \<Longrightarrow> length (put_blocks bl is d) = length d"
  by (induction bl "is" d rule: put_blocks.induct) auto

lemma length_header: "length d = BSIZE \<Longrightarrow> lh_n h \<le> int LOGSIZE \<Longrightarrow> length (header h d) = BSIZE"
  by (subst header_def, subst length_put_blocks) (auto simp: BSIZE_def param_defs)

lemma get32_put_blocks_other:
  "\<forall>i \<in> set is. 8 + 4 * i \<le> length d \<Longrightarrow> k + 4 \<le> length d \<Longrightarrow> \<forall>i \<in> set is. k + 4 \<le> 4 + 4 * i \<or> 8 + 4 * i \<le> k \<Longrightarrow>
     get32 (put_blocks bl is d) k = get32 d k"
  by (induction bl "is" d rule: put_blocks.induct) (auto simp: get_put_other)

lemma hdr_header:
  assumes "length d = BSIZE" "0 \<le> lh_n h" "lh_n h \<le> int LOGSIZE"
  shows "hdr_n (header h d) = lh_n h"
proof -
  have "get32 (header h d) 0 = get32 (put32 d 0 (of_int (lh_n h))) 0"
    unfolding header_def using assms by (intro get32_put_blocks_other) (auto simp: BSIZE_def param_defs)
  then show ?thesis using assms by (simp add: hdr_n_def BSIZE_def param_defs signed_of_int signed_take_bit_int_eq_self)
qed

lemma put_blocks_append: "put_blocks bl (is @ js) d = put_blocks bl js (put_blocks bl is d)"
  by (induction bl "is" d rule: put_blocks.induct) auto

lemma hdr_block_header:
  assumes d: "length d = BSIZE" and n: "lh_n h \<le> int LOGSIZE" and j: "j < nat (lh_n h)"
    and b: "0 \<le> lh_block h ! j" "lh_block h ! j < 2 ^ 31"
  shows "hdr_block (header h d) j = lh_block h ! j"
proof -
  define e where "e = put_blocks (lh_block h) [0..<j] (put32 d 0 (of_int (lh_n h)))"
  have le: "length e = BSIZE"
    unfolding e_def using d n j by (subst length_put_blocks) (auto simp: BSIZE_def param_defs)
  have "[0..<nat (lh_n h)] = [0..<j] @ j # [Suc j..<nat (lh_n h)]"
    using j by (metis upt_add_eq_append upt_conv_Cons le_add_diff_inverse less_imp_le zero_le)
  then have "header h d = put_blocks (lh_block h) [Suc j..<nat (lh_n h)] (put32 e (4 + 4 * j) (of_int (lh_block h ! j)))"
    by (simp add: header_def put_blocks_append e_def)
  then have "get32 (header h d) (4 + 4 * j) = get32 (put32 e (4 + 4 * j) (of_int (lh_block h ! j))) (4 + 4 * j)"
    using le n j by (simp only:) (intro get32_put_blocks_other; auto simp: BSIZE_def param_defs)
  also have "\<dots> = of_int (lh_block h ! j)" using le n j by (intro get32_put32) (simp add: BSIZE_def param_defs)
  finally show ?thesis using b by (simp add: hdr_block_def signed_of_int signed_take_bit_int_eq_self)
qed

end
