(* ===== verification/Log_Correct.thy ===== *)
theory Log_Correct
  imports Log_Steps
begin

text \<open>
  The log makes a transaction atomic. \<open>commit_writes\<close> is the sequence of block writes of a commit;
  a crash leaves the disk with some first part of it. Recovery then gives every block outside
  the log either its value before the transaction or its value after it, the same choice for all.
\<close>

section \<open>Reading and writing the header\<close>

lemma upd_log_fields [simp]:
  "bufs (kern (upd_log f s)) = bufs (kern s)" "memdisk (kern (upd_log f s)) = memdisk (kern s)"
  "disk_log (kern (upd_log f s)) = disk_log (kern s)" "disksize (kern (upd_log f s)) = disksize (kern s)"
  "ptable (kern (upd_log f s)) = ptable (kern s)" "sleeplocks (kern (upd_log f s)) = sleeplocks (kern s)"
  "me (upd_log f s) = me s" "calm s \<Longrightarrow> calm (upd_log f s)" "buf_at c (upd_log f s) = buf_at c s"
  "pid_of i (upd_log f s) = pid_of i s" "the_log (upd_log f s) = f (the_log s)"
  by (simp_all add: upd_log_def buf_at_def pid_of_def proc_at_def the_log_def)

lemma upd_log_preds [simp]:
  "bc_ok H i s \<Longrightarrow> bc_ok H i (upd_log f s)" "content (kern (upd_log f s)) = content (kern s)"
  "dirty_blks (kern (upd_log f s)) = dirty_blks (kern s)"
  by (auto simp: bc_ok_def running_def content_def dirty_blks_def fun_eq_iff split: option.split)

lemma upd_lh_log: "upd_lh f s = upd_log (\<lambda>l. l\<lparr>lg_lh := f (lg_lh l)\<rparr>) s"
  by (simp add: upd_lh_def)

definition rewritten :: "uint \<Rightarrow> bytes \<Rightarrow> 'a bufk_scheme machine \<Rightarrow> 'a bufk_scheme machine \<Rightarrow> bool" where
  "rewritten n bs s t \<longleftrightarrow> bframe s t \<and> content (kern t) = (content (kern s))(n := bs) \<and>
     wrote [(unat n, bs)] s t \<and> dirty_blks (kern t) = dirty_blks (kern s) - {n}"

lemma write_head_ok:
  assumes ok: "bc_ok {} i s" and dev: "lg_dev (the_log s) = 1"
    and st: "uint (of_int (lg_start (the_log s)) :: uint) < disksize (kern s)"
    and d: "card (dirty_blks (kern s)) < NBUF" and n: "lh_n (lg_lh (the_log s)) \<le> int LOGSIZE"
  shows "\<exists>t. write_head s = Done () t \<and> bc_ok {} i t \<and>
    rewritten (of_int (lg_start (the_log s))) (header (lg_lh (the_log s)) (content (kern s) (of_int (lg_start (the_log s))))) s t"
proof -
  define p :: uint where "p = of_int (lg_start (the_log s))"
  define hb where "hb = header (lg_lh (the_log s)) (content (kern s) p)"
  obtain x s1 where r: "bread 1 p s = Done x s1" "bc_ok {x} i s1" "unchanged s s1" "b_blockno (buf_at x s1) = p"
      "b_data (buf_at x s1) = content (kern s) p"
    using read_one [OF ok _ d, of p] st by (auto simp: p_def)
  have k1: "the_log s1 = the_log s" using bframe_klog [of s s1] r(3) by (simp add: the_log_def unchanged_def)
  have lh: "length hb = BSIZE" using length_header [OF content_length [OF ok] n] by (simp add: hb_def)
  have x: "x \<in> {x}" by simp
  note hx = held_state [OF r(2) x]
  define s2 where "s2 = upd_buf x (\<lambda>_. (buf_at x s1)\<lparr>b_data := hb\<rparr>) s1"
  have s2: "bc_ok {x} i s2" "content (kern s2) = (content (kern s1))(p := hb)" "dirty_blks (kern s2) = dirty_blks (kern s1)"
    using bc_ok_upd_held [OF r(2) x, of "(buf_at x s1)\<lparr>b_data := hb\<rparr>"] lh hx(3) r(4) dirty_held [OF r(2) x]
    by (simp_all add: s2_def holds_blk_def insert_absorb)
  have b2: "buf_at x s2 = (buf_at x s1)\<lparr>b_data := hb\<rparr>" using hx(2) bc_okD(6) [OF r(2)] by (simp add: s2_def buf_at_upd)
  obtain s3 where w: "bwrite x s2 = Done () s3" "bc_ok {x} i s3" "bframe s2 s3" "content (kern s3) = content (kern s2)"
      "memdisk (kern s3) = dput (memdisk (kern s2)) (unat p) hb" "disk_log (kern s3) = disk_log (kern s2) @ [(unat p, hb)]"
      "dirty_blks (kern s3) = dirty_blks (kern s2) - {p}" "buf_at x s3 = (buf_at x s2)\<lparr>b_dirty := False\<rparr>"
    using bwrite_ok [OF s2(1) x] b2 r(4) by auto
  have "b_dirty (buf_at x s3) \<or> b_data (buf_at x s3) = dblk (memdisk (kern s3)) (unat (b_blockno (buf_at x s3)))"
    using w(5,8) b2 r(4) lh by (simp add: dblk_dput)
  note re = brelse_ok [OF w(2) x this]
  define t where "t = released x s3"
  have e: "upd_buf x (\<lambda>x. x\<lparr>b_data := put_blocks (lh_block (lg_lh (the_log s))) [0..<nat (lh_n (lg_lh (the_log s)))]
        (put32 (b_data x) 0 (of_int (lh_n (lg_lh (the_log s)))))\<rparr>) s1 = s2"
    by (subst upd_buf_const) (simp add: s2_def hb_def header_def r(5))
  have "write_head s = Done () t"
    using r(1) e w(1) re(1) k1 dev by (simp add: write_head_def p_def [symmetric] t_def Let_def)
  moreover have "bc_ok {} i t" using re(2) by (simp add: t_def)
  moreover have "bframe s s1" "bframe s1 s2" "bframe s3 t"
    using r(3) by (simp_all add: unchanged_def s2_def t_def bframe_upd_buf bframe_released)
  then have "bframe s t" using w(3) bframe_trans by metis
  ultimately show ?thesis
    using re(3,4) w(4-7) s2(2,3) r(3)
    by (intro exI [of _ t]) (simp add: rewritten_def p_def [symmetric] hb_def [symmetric] t_def wrote_def unchanged_def,
        simp add: s2_def upd_buf_def)
qed

text \<open>The header read from block \<open>d\<close> into memory.\<close>

definition read_into :: "bytes \<Rightarrow> logheader \<Rightarrow> logheader" where
  "read_into d h = h\<lparr>lh_n := hdr_n d, lh_block := get_blocks d [0..<nat (hdr_n d)] (lh_block h)\<rparr>"

lemma read_head_ok:
  assumes ok: "bc_ok {} i s" and dev: "lg_dev (the_log s) = 1"
    and st: "uint (of_int (lg_start (the_log s)) :: uint) < disksize (kern s)"
    and d: "card (dirty_blks (kern s)) < NBUF" and clean: "of_int (lg_start (the_log s)) \<notin> dirty_blks (kern s)"
    and n: "hdr_n (content (kern s) (of_int (lg_start (the_log s)))) \<le> int LOGSIZE"
  shows "\<exists>t. read_head s = Done () (upd_lh (read_into (content (kern s) (of_int (lg_start (the_log s))))) t) \<and>
    bc_ok {} i t \<and> unchanged s t"
proof -
  define p :: uint where "p = of_int (lg_start (the_log s))"
  define D where "D = content (kern s) p"
  obtain x s1 where r: "bread 1 p s = Done x s1" "bc_ok {x} i s1" "unchanged s s1" "b_blockno (buf_at x s1) = p"
      "b_data (buf_at x s1) = D"
    using read_one [OF ok _ d, of p] st by (auto simp: p_def D_def)
  have x: "x \<in> {x}" by simp
  have "D = dblk (memdisk (kern s)) (unat p)" using clean_content [OF ok, of p] clean by (simp add: D_def p_def)
  then have cl: "b_dirty (buf_at x s1) \<or> b_data (buf_at x s1) = dblk (memdisk (kern s1)) (unat (b_blockno (buf_at x s1)))"
    using r(3,4,5) by (simp add: unchanged_def)
  define f :: "log \<Rightarrow> log" where "f = (\<lambda>l. l\<lparr>lg_lh := read_into D (lg_lh l)\<rparr>)"
  have ok2: "bc_ok {x} i (upd_log f s1)" using r(2) by simp
  note re = brelse_ok [OF r(2) x cl]
  have rel: "brelse x (upd_log f s1) = Done () (released x (upd_log f s1))" by (rule brelse_form [OF ok2 x])
  have com: "released x (upd_log f s1) = upd_log f (released x s1)"
    by (simp add: released_def upd_log_def)
  have e: "upd_lh (\<lambda>h. h\<lparr>lh_block := get_blocks D [0..<nat (lh_n h)] (lh_block h)\<rparr>) (upd_lh (\<lambda>h. h\<lparr>lh_n := hdr_n D\<rparr>) s1) = upd_log f s1"
    by (simp add: upd_lh_def upd_log_def f_def read_into_def)
  have nn: "\<not> int LOGSIZE < lh_n (lg_lh (the_log (upd_lh (\<lambda>h. h\<lparr>lh_n := hdr_n D\<rparr>) s1)))"
    using n by (simp add: upd_lh_log D_def p_def)
  have "read_head s = brelse x (upd_log f s1)"
    using r(1,5) dev nn by (simp add: read_head_def p_def [symmetric] e Let_def)
  then have "read_head s = Done () (upd_lh (read_into D) (released x s1))"
    using rel com by (simp add: upd_lh_log f_def)
  moreover have "unchanged s (released x s1)"
    using r(3) re(3,4) bframe_trans [OF _ bframe_released, of s s1 x] by (auto simp: unchanged_def)
  ultimately show ?thesis using re(2) by (auto simp: D_def p_def)
qed

section \<open>The loops\<close>

text \<open>
  The log and the blocks in it fit on the disk: the log is the \<open>lg_size\<close> blocks from its start, a header
  and the log blocks, and the blocks that are logged are distinct and outside it.
\<close>

definition log_fits :: "log \<Rightarrow> int \<Rightarrow> bool" where
  "log_fits l dsz \<longleftrightarrow> lg_dev l = 1 \<and> 0 \<le> lg_start l \<and> 0 < lg_size l \<and> lg_start l + lg_size l \<le> dsz \<and> dsz \<le> 2 ^ 31"

definition in_log :: "log \<Rightarrow> int \<Rightarrow> bool" where
  "in_log l n \<longleftrightarrow> lg_start l \<le> n \<and> n < lg_start l + lg_size l"

definition hdr_fits :: "log \<Rightarrow> int \<Rightarrow> bool" where
  "hdr_fits l dsz \<longleftrightarrow> (let h = lg_lh l in length (lh_block h) = LOGSIZE \<and> 0 \<le> lh_n h \<and> lh_n h \<le> int LOGSIZE \<and>
     lh_n h < lg_size l \<and> distinct (take (nat (lh_n h)) (lh_block h)) \<and>
     (\<forall>j < nat (lh_n h). 0 \<le> lh_block h ! j \<and> lh_block h ! j < dsz \<and> \<not> in_log l (lh_block h ! j)))"

lemma uint_of_int_small: "0 \<le> x \<Longrightarrow> x < 2 ^ 31 \<Longrightarrow> uint (of_int x :: uint) = x"
  by (simp add: take_bit_int_eq_self unsigned_of_int)

lemma log_blocks:
  assumes "log_fits l dsz"
  shows "uint (of_int (lg_start l) :: uint) = lg_start l"
    and "int j + 1 < lg_size l \<Longrightarrow> uint (lblk l j) = lg_start l + int j + 1"
    and "hdr_fits l dsz \<Longrightarrow> j < nat (lh_n (lg_lh l)) \<Longrightarrow> uint (hblk l j) = lh_block (lg_lh l) ! j"
proof -
  have l: "0 \<le> lg_start l" "0 < lg_size l" "lg_start l + lg_size l \<le> 2 ^ 31" "dsz \<le> 2 ^ 31" using assms by (auto simp: log_fits_def)
  show "uint (of_int (lg_start l) :: uint) = lg_start l" by (rule uint_of_int_small) (use l in auto)
  show "uint (lblk l j) = lg_start l + int j + 1" if "int j + 1 < lg_size l"
    unfolding lblk_def by (rule uint_of_int_small) (use l that in auto)
  assume "hdr_fits l dsz" "j < nat (lh_n (lg_lh l))"
  then have "0 \<le> lh_block (lg_lh l) ! j" "lh_block (lg_lh l) ! j < dsz" by (auto simp: hdr_fits_def Let_def)
  then show "uint (hblk l j) = lh_block (lg_lh l) ! j"
    unfolding hblk_def by (intro uint_of_int_small) (use l in auto)
qed

lemma log_distinct:
  assumes f: "log_fits l dsz" and h: "hdr_fits l dsz" and j: "j < nat (lh_n (lg_lh l))" and k: "k < nat (lh_n (lg_lh l))"
  shows "lblk l j \<noteq> hblk l k" "of_int (lg_start l) \<noteq> hblk l k" "of_int (lg_start l) \<noteq> lblk l j"
    "lblk l j = lblk l k \<Longrightarrow> j = k" "hblk l j = hblk l k \<Longrightarrow> j = k"
    "uint (lblk l j) < dsz" "uint (hblk l j) < dsz"
proof -
  have n: "nat (lh_n (lg_lh l)) \<le> LOGSIZE" "int j + 1 < lg_size l" "int k + 1 < lg_size l" using h j k by (auto simp: hdr_fits_def Let_def)
  have b: "\<not> in_log l (lh_block (lg_lh l) ! k)" "lh_block (lg_lh l) ! j < dsz"
    using h j k by (auto simp: hdr_fits_def Let_def)
  note u = log_blocks(1) [OF f] log_blocks(2) [OF f n(2)] log_blocks(2) [OF f n(3)] log_blocks(3) [OF f h j] log_blocks(3) [OF f h k]
  show "lblk l j \<noteq> hblk l k" using u n j k b(1) by (auto simp: in_log_def)
  show "of_int (lg_start l) \<noteq> hblk l k" using u n j k b(1) by (auto simp: in_log_def)
  show "of_int (lg_start l) \<noteq> lblk l j" using u n j k by auto
  show "j = k" if "lblk l j = lblk l k"
  proof -
    have "lg_start l + int j + 1 = lg_start l + int k + 1"
      using arg_cong [OF that, of uint] unfolding u(2,3) by argo
    then show ?thesis by simp
  qed
  show "uint (lblk l j) < dsz" using u n j f by (auto simp: log_fits_def)
  show "uint (hblk l j) < dsz" using u b(2) by simp
  show "j = k" if "hblk l j = hblk l k"
  proof -
    have "lh_block (lg_lh l) ! j = lh_block (lg_lh l) ! k" using u(4,5) that by simp
    moreover have "distinct (take (nat (lh_n (lg_lh l))) (lh_block (lg_lh l)))" "length (lh_block (lg_lh l)) = LOGSIZE"
      using h by (auto simp: hdr_fits_def Let_def)
    ultimately show ?thesis using j k n nth_eq_iff_index_eq [of "take (nat (lh_n (lg_lh l))) (lh_block (lg_lh l))" j k] by simp
  qed
qed

text \<open>The writes of the two loops.\<close>

definition log_writes :: "log \<Rightarrow> (uint \<Rightarrow> bytes) \<Rightarrow> nat list \<Rightarrow> (nat \<times> bytes) list" where
  "log_writes l c js = map (\<lambda>j. (unat (lblk l j), c (hblk l j))) js"

definition home_writes :: "log \<Rightarrow> (uint \<Rightarrow> bytes) \<Rightarrow> nat list \<Rightarrow> (nat \<times> bytes) list" where
  "home_writes l c js = map (\<lambda>j. (unat (hblk l j), c (lblk l j))) js"

lemma write_log_from_ok:
  assumes "bc_ok {} i s" "the_log s = l" "log_fits l (disksize (kern s))" "hdr_fits l (disksize (kern s))"
    "set js \<subseteq> {..<nat (lh_n (lg_lh l))}" "distinct js" "card (dirty_blks (kern s)) < NBUF"
    "\<forall>j \<in> set js. hblk l j \<in> dirty_blks (kern s)" "\<forall>j < nat (lh_n (lg_lh l)). lblk l j \<notin> dirty_blks (kern s)"
  shows "\<exists>t. write_log_from js s = Done () t \<and> bc_ok {} i t \<and> bframe s t \<and>
    wrote (log_writes l (content (kern s)) js) s t \<and> dirty_blks (kern t) = dirty_blks (kern s) \<and>
    (\<forall>n. n \<notin> lblk l ` set js \<longrightarrow> content (kern t) n = content (kern s) n) \<and>
    (\<forall>j \<in> set js. content (kern t) (lblk l j) = content (kern s) (hblk l j))"
  using assms
proof (induction js arbitrary: s)
  case Nil
  then show ?case by (auto simp: log_writes_def wrote_def)
next
  case (Cons j js)
  have j: "j < nat (lh_n (lg_lh l))" using Cons.prems(5) by simp
  note ld = log_distinct [OF Cons.prems(3,4)]
  have dev: "lg_dev (the_log s) = 1" using Cons.prems(2,3) by (simp add: log_fits_def)
  obtain t where t: "write_log_from (j # js) s = write_log_from js t" "bc_ok {} i t" "copied_blk (hblk l j) (lblk l j) s t"
    using write_log_step [OF Cons.prems(1) dev, of j js] Cons.prems(2,7,8) ld(1,6,7) [OF j j] by auto
  have kt: "the_log t = l" "disksize (kern t) = disksize (kern s)" "dirty_blks (kern t) = dirty_blks (kern s)" "bframe s t"
    "content (kern t) = (content (kern s))(lblk l j := content (kern s) (hblk l j))"
    "wrote [(unat (lblk l j), content (kern s) (hblk l j))] s t"
    using t(3) bframe_klog [of s t] bframe_fields(1) [of s t] Cons.prems(2,9) j by (auto simp: copied_blk_def the_log_def)
  have hk: "content (kern t) (hblk l k) = content (kern s) (hblk l k)" if "k \<in> set js" for k
  proof -
    have "k < nat (lh_n (lg_lh l))" using that Cons.prems(5) by auto
    then show ?thesis using ld(1) [OF j, of k] kt(5) by simp
  qed
  have pre: "log_fits l (disksize (kern t))" "hdr_fits l (disksize (kern t))" "set js \<subseteq> {..<nat (lh_n (lg_lh l))}"
    "distinct js" "card (dirty_blks (kern t)) < NBUF" "\<forall>j \<in> set js. hblk l j \<in> dirty_blks (kern t)"
    "\<forall>j < nat (lh_n (lg_lh l)). lblk l j \<notin> dirty_blks (kern t)"
    using Cons.prems kt(2,3) by simp_all
  obtain u where u: "write_log_from js t = Done () u" "bc_ok {} i u" "bframe t u"
      "wrote (log_writes l (content (kern t)) js) t u" "dirty_blks (kern u) = dirty_blks (kern t)"
      "\<forall>n. n \<notin> lblk l ` set js \<longrightarrow> content (kern u) n = content (kern t) n"
      "\<forall>j \<in> set js. content (kern u) (lblk l j) = content (kern t) (hblk l j)"
    using Cons.IH [OF t(2) kt(1) pre] by (elim exE conjE) (rule that)
  have "lblk l j \<notin> lblk l ` set js"
    using Cons.prems(5,6) ld(4) [OF j] by (auto simp: image_iff)
  then have "content (kern u) (lblk l j) = content (kern s) (hblk l j)" using u(6) kt(5) by simp
  moreover have "log_writes l (content (kern t)) js = log_writes l (content (kern s)) js"
    using hk by (simp add: log_writes_def)
  moreover have "wrote (log_writes l (content (kern s)) (j # js)) s u"
    using wrote_trans [OF kt(6) u(4)] unfolding calculation(2) by (simp add: log_writes_def)
  ultimately show ?case
    using t(1) u kt hk bframe_trans [OF kt(4) u(3)] by (intro exI [of _ u]) auto
qed

lemma finite_dirty: "finite (dirty_blks k)"
proof -
  have "dirty_blks k \<subseteq> (\<lambda>b. b_blockno (bufs k ! b)) ` {..<NBUF}" by (auto simp: dirty_blks_def holds_blk_def)
  then show ?thesis by (rule finite_subset) simp
qed

lemma card_dirty_after:
  "dirty_blks (kern t) = dirty_blks (kern s) - X \<Longrightarrow> card (dirty_blks (kern t)) \<le> card (dirty_blks (kern s))"
  by (rule card_mono [OF finite_dirty]) blast

lemma room_after:
  assumes "dirty_blks (kern t) = dirty_blks (kern s) - {c}" "n \<noteq> c" "room n s"
  shows "room n t"
proof (cases "n \<in> dirty_blks (kern s)")
  case True
  then show ?thesis using assms(1,2) by (simp add: room_def)
next
  case False
  then show ?thesis using assms(3) card_dirty_after [OF assms(1)] by (simp add: room_def)
qed

lemma install_from_ok:
  assumes "bc_ok {} i s" "the_log s = l" "log_fits l (disksize (kern s))" "hdr_fits l (disksize (kern s))"
    "set js \<subseteq> {..<nat (lh_n (lg_lh l))}" "distinct js" "card (dirty_blks (kern s)) < NBUF"
    "\<forall>j \<in> set js. room (hblk l j) s" "\<forall>j < nat (lh_n (lg_lh l)). lblk l j \<notin> dirty_blks (kern s)"
  shows "\<exists>t. install_from js s = Done () t \<and> bc_ok {} i t \<and> bframe s t \<and>
    wrote (home_writes l (content (kern s)) js) s t \<and> dirty_blks (kern t) = dirty_blks (kern s) - hblk l ` set js \<and>
    (\<forall>n. n \<notin> hblk l ` set js \<longrightarrow> content (kern t) n = content (kern s) n) \<and>
    (\<forall>j \<in> set js. content (kern t) (hblk l j) = content (kern s) (lblk l j))"
  using assms
proof (induction js arbitrary: s)
  case Nil
  then show ?case by (auto simp: home_writes_def wrote_def)
next
  case (Cons j js)
  have j: "j < nat (lh_n (lg_lh l))" using Cons.prems(5) by simp
  note ld = log_distinct [OF Cons.prems(3,4)]
  have dev: "lg_dev (the_log s) = 1" using Cons.prems(2,3) by (simp add: log_fits_def)
  obtain t where t: "install_from (j # js) s = install_from js t" "bc_ok {} i t" "copied_blk (lblk l j) (hblk l j) s t"
    using install_step [OF Cons.prems(1) dev, of j js] Cons.prems(2,7,8,9) ld(1,6,7) [OF j j] j by auto
  have kt: "the_log t = l" "disksize (kern t) = disksize (kern s)" "dirty_blks (kern t) = dirty_blks (kern s) - {hblk l j}"
    "bframe s t" "content (kern t) = (content (kern s))(hblk l j := content (kern s) (lblk l j))"
    "wrote [(unat (hblk l j), content (kern s) (lblk l j))] s t"
    using t(3) bframe_klog [of s t] bframe_fields(1) [of s t] Cons.prems(2) by (auto simp: copied_blk_def the_log_def)
  have kj: "k < nat (lh_n (lg_lh l))" "k \<noteq> j" if "k \<in> set js" for k using that Cons.prems(5,6) by auto
  have hk: "content (kern t) (lblk l k) = content (kern s) (lblk l k)" if "k \<in> set js" for k
    using ld(1) [OF kj(1) [OF that] j] kt(5) by simp
  have hn: "hblk l k \<noteq> hblk l j" if "k \<in> set js" for k using ld(5) [OF kj(1) [OF that] j] kj(2) [OF that] by blast
  have rm: "\<forall>j \<in> set js. room (hblk l j) t" using Cons.prems(8) hn by (auto intro: room_after [OF kt(3)])
  have pre: "log_fits l (disksize (kern t))" "hdr_fits l (disksize (kern t))" "set js \<subseteq> {..<nat (lh_n (lg_lh l))}"
    "distinct js" "card (dirty_blks (kern t)) < NBUF" "\<forall>j \<in> set js. room (hblk l j) t"
    "\<forall>j < nat (lh_n (lg_lh l)). lblk l j \<notin> dirty_blks (kern t)"
    using Cons.prems(3-7,9) kt(2,3) card_dirty_after [OF kt(3)] rm by auto
  obtain u where u: "install_from js t = Done () u" "bc_ok {} i u" "bframe t u"
      "wrote (home_writes l (content (kern t)) js) t u" "dirty_blks (kern u) = dirty_blks (kern t) - hblk l ` set js"
      "\<forall>n. n \<notin> hblk l ` set js \<longrightarrow> content (kern u) n = content (kern t) n"
      "\<forall>j \<in> set js. content (kern u) (hblk l j) = content (kern t) (lblk l j)"
    using Cons.IH [OF t(2) kt(1) pre] by (elim exE conjE) (rule that)
  have "hblk l j \<notin> hblk l ` set js" using hn by force
  then have "content (kern u) (hblk l j) = content (kern s) (lblk l j)" using u(6) kt(5) by simp
  moreover have "home_writes l (content (kern t)) js = home_writes l (content (kern s)) js"
    using hk by (simp add: home_writes_def)
  moreover have "wrote (home_writes l (content (kern s)) (j # js)) s u"
    using wrote_trans [OF kt(6) u(4)] unfolding calculation(2) by (simp add: home_writes_def)
  moreover have "dirty_blks (kern u) = dirty_blks (kern s) - hblk l ` set (j # js)" using u(5) kt(3) by auto
  ultimately show ?case
    using t(1) u kt hk bframe_trans [OF kt(4) u(3)] by (intro exI [of _ u]) auto
qed

section \<open>Commit\<close>

definition logged :: "log \<Rightarrow> nat list" where
  "logged l = [0..<nat (lh_n (lg_lh l))]"

abbreviation start_blk :: "log \<Rightarrow> uint" where
  "start_blk l \<equiv> of_int (lg_start l)"

text \<open>The log \<open>l\<close> is ready to be committed: every logged block is dirty, and nothing else is.\<close>

definition to_commit :: "log \<Rightarrow> 'a bufk_scheme machine \<Rightarrow> bool" where
  "to_commit l s \<longleftrightarrow> log_fits l (disksize (kern s)) \<and> hdr_fits l (disksize (kern s)) \<and> lh_n (lg_lh l) < int NBUF \<and>
     dirty_blks (kern s) = hblk l ` set (logged l)"

definition commit_head :: "log \<Rightarrow> (uint \<Rightarrow> bytes) \<Rightarrow> bytes" where
  "commit_head l c = header (lg_lh l) (c (start_blk l))"

definition clear_head :: "log \<Rightarrow> bytes \<Rightarrow> bytes" where
  "clear_head l d = header ((lg_lh l)\<lparr>lh_n := 0\<rparr>) d"

definition commit_writes :: "log \<Rightarrow> (uint \<Rightarrow> bytes) \<Rightarrow> (nat \<times> bytes) list" where
  "commit_writes l c = log_writes l c (logged l) @ [(unat (start_blk l), commit_head l c)] @
     map (\<lambda>j. (unat (hblk l j), c (hblk l j))) (logged l) @ [(unat (start_blk l), clear_head l (commit_head l c))]"

lemma to_commitD:
  assumes "to_commit l s"
  shows "log_fits l (disksize (kern s))" "hdr_fits l (disksize (kern s))" "dirty_blks (kern s) = hblk l ` set (logged l)"
    "card (dirty_blks (kern s)) < NBUF" "start_blk l \<notin> dirty_blks (kern s)"
    "\<forall>j < nat (lh_n (lg_lh l)). lblk l j \<notin> dirty_blks (kern s)" "lh_n (lg_lh l) \<le> int LOGSIZE" "lg_dev l = 1"
    "uint (start_blk l) < disksize (kern s)" "set (logged l) = {..<nat (lh_n (lg_lh l))}"
proof -
  show f: "log_fits l (disksize (kern s))" and h: "hdr_fits l (disksize (kern s))"
    and d: "dirty_blks (kern s) = hblk l ` set (logged l)" using assms by (auto simp: to_commit_def)
  show sl: "set (logged l) = {..<nat (lh_n (lg_lh l))}" by (auto simp: logged_def)
  note ld = log_distinct [OF f h]
  have "card (dirty_blks (kern s)) \<le> card (set (logged l))" unfolding d by (rule card_image_le) simp
  moreover have "lh_n (lg_lh l) < int NBUF" using assms by (simp add: to_commit_def)
  then have "nat (lh_n (lg_lh l)) < NBUF" unfolding param_defs by linarith
  ultimately show "card (dirty_blks (kern s)) < NBUF" by (simp add: sl)
  show "start_blk l \<notin> dirty_blks (kern s)" using ld(2) by (auto simp: d sl)
  show "\<forall>j < nat (lh_n (lg_lh l)). lblk l j \<notin> dirty_blks (kern s)" using ld(1) by (auto simp: d sl)
  show "lh_n (lg_lh l) \<le> int LOGSIZE" "lg_dev l = 1" using f h by (auto simp: hdr_fits_def log_fits_def Let_def)
  show "uint (start_blk l) < disksize (kern s)" unfolding log_blocks(1) [OF f] using f by (simp add: log_fits_def)
qed

lemma clear_ok:
  assumes ok: "bc_ok {} i s" and l: "the_log s = l" and f: "log_fits l (disksize (kern s))" and d: "dirty_blks (kern s) = {}"
  shows "\<exists>t. write_head (upd_lh (\<lambda>h. h\<lparr>lh_n := 0\<rparr>) s) = Done () t \<and> bc_ok {} i t \<and> dirty_blks (kern t) = {} \<and>
    the_log t = l\<lparr>lg_lh := (lg_lh l)\<lparr>lh_n := 0\<rparr>\<rparr> \<and> disksize (kern t) = disksize (kern s) \<and>
    content (kern t) = (content (kern s))(start_blk l := clear_head l (content (kern s) (start_blk l))) \<and>
    wrote [(unat (start_blk l), clear_head l (content (kern s) (start_blk l)))] s t"
proof -
  define s1 where "s1 = upd_lh (\<lambda>h. h\<lparr>lh_n := 0\<rparr>) s"
  have s1: "bc_ok {} i s1" "the_log s1 = l\<lparr>lg_lh := (lg_lh l)\<lparr>lh_n := 0\<rparr>\<rparr>" "dirty_blks (kern s1) = {}"
      "content (kern s1) = content (kern s)" "disksize (kern s1) = disksize (kern s)"
      "memdisk (kern s1) = memdisk (kern s)" "disk_log (kern s1) = disk_log (kern s)"
    using ok l d by (simp_all add: s1_def upd_lh_log)
  have p: "uint (of_int (lg_start (the_log s1)) :: uint) < disksize (kern s1)"
    using s1(2,5) f log_blocks(1) [OF f] by (simp add: log_fits_def)
  obtain t where t: "write_head s1 = Done () t" "bc_ok {} i t"
      "rewritten (start_blk l) (clear_head l (content (kern s) (start_blk l))) s1 t"
    using write_head_ok [OF s1(1) _ p] s1 f by (auto simp: clear_head_def log_fits_def param_defs)
  then show ?thesis
    using s1 bframe_klog [of s1 t] bframe_fields(1) [of s1 t] unfolding s1_def [symmetric]
    by (intro exI [of _ t]) (auto simp: rewritten_def the_log_def wrote_def)
qed

lemma commit_ok:
  assumes ok: "bc_ok {} i s" and l: "the_log s = l" and n: "0 < lh_n (lg_lh l)" and c: "to_commit l s"
  shows "\<exists>t. commit s = Done () t \<and> bc_ok {} i t \<and> dirty_blks (kern t) = {} \<and>
    the_log t = l\<lparr>lg_lh := (lg_lh l)\<lparr>lh_n := 0\<rparr>\<rparr> \<and> wrote (commit_writes l (content (kern s))) s t"
proof -
  note C = to_commitD [OF c] and js = logged_def [of l]
  define N where "N = nat (lh_n (lg_lh l))"
  have dist: "distinct (logged l)" and sub: "set (logged l) \<subseteq> {..<nat (lh_n (lg_lh l))}" by (auto simp: logged_def)
  have hd: "\<forall>j \<in> set (logged l). hblk l j \<in> dirty_blks (kern s)" using C(3) by simp
  obtain s1 where s1: "write_log_from (logged l) s = Done () s1" "bc_ok {} i s1" "bframe s s1"
      "wrote (log_writes l (content (kern s)) (logged l)) s s1" "dirty_blks (kern s1) = dirty_blks (kern s)"
      "\<forall>n. n \<notin> lblk l ` set (logged l) \<longrightarrow> content (kern s1) n = content (kern s) n"
      "\<forall>j \<in> set (logged l). content (kern s1) (lblk l j) = content (kern s) (hblk l j)"
    using write_log_from_ok [OF ok l C(1,2) sub dist C(4) hd C(6)] by (elim exE conjE) (rule that)
  have k1: "the_log s1 = l" "disksize (kern s1) = disksize (kern s)"
    using bframe_klog [OF s1(3)] bframe_fields(1) [OF s1(3)] l by (simp_all add: the_log_def)
  have st1: "content (kern s1) (start_blk l) = content (kern s) (start_blk l)"
    using s1(6) log_distinct(3) [OF C(1,2)] C(10) by auto
  obtain s2 where s2: "write_head s1 = Done () s2" "bc_ok {} i s2" "rewritten (start_blk l) (commit_head l (content (kern s))) s1 s2"
    using write_head_ok [OF s1(2)] k1 C s1(5) st1 by (auto simp: commit_head_def)
  have k2: "the_log s2 = l" "disksize (kern s2) = disksize (kern s)" "dirty_blks (kern s2) = dirty_blks (kern s)"
      "content (kern s2) = (content (kern s1))(start_blk l := commit_head l (content (kern s)))"
      "wrote [(unat (start_blk l), commit_head l (content (kern s)))] s1 s2"
    using s2(3) bframe_klog [of s1 s2] bframe_fields(1) [of s1 s2] k1 s1(5) C(5) by (auto simp: the_log_def rewritten_def)
  have pre: "log_fits l (disksize (kern s2))" "hdr_fits l (disksize (kern s2))" "card (dirty_blks (kern s2)) < NBUF"
      "\<forall>j \<in> set (logged l). room (hblk l j) s2" "\<forall>j < nat (lh_n (lg_lh l)). lblk l j \<notin> dirty_blks (kern s2)"
    using C k2 by (auto simp: room_def)
  obtain s3 where s3: "install_from (logged l) s2 = Done () s3" "bc_ok {} i s3" "bframe s2 s3"
      "wrote (home_writes l (content (kern s2)) (logged l)) s2 s3"
      "dirty_blks (kern s3) = dirty_blks (kern s2) - hblk l ` set (logged l)"
      "\<forall>n. n \<notin> hblk l ` set (logged l) \<longrightarrow> content (kern s3) n = content (kern s2) n"
    using install_from_ok [OF s2(2) k2(1) pre(1,2) sub dist pre(3-5)] by (elim exE conjE) (rule that)
  have k3: "the_log s3 = l" "disksize (kern s3) = disksize (kern s)" "dirty_blks (kern s3) = {}"
    using bframe_klog [OF s3(3)] bframe_fields(1) [OF s3(3)] k2 s3(5) C(3) by (simp_all add: the_log_def)
  have st3: "content (kern s3) (start_blk l) = commit_head l (content (kern s))"
    using s3(6) C(3,5) k2(4) by simp
  have hw: "home_writes l (content (kern s2)) (logged l) = map (\<lambda>j. (unat (hblk l j), content (kern s) (hblk l j))) (logged l)"
  proof -
    have "lblk l j \<noteq> start_blk l" if "j \<in> set (logged l)" for j using log_distinct(3) [OF C(1,2), of j j] that C(10) by auto
    then show ?thesis using s1(7) k2(4) by (simp add: home_writes_def)
  qed
  have f3: "log_fits l (disksize (kern s3))" using C(1) k3(2) by simp
  obtain t where t: "write_head (upd_lh (\<lambda>h. h\<lparr>lh_n := 0\<rparr>) s3) = Done () t" "bc_ok {} i t" "dirty_blks (kern t) = {}"
      "the_log t = l\<lparr>lg_lh := (lg_lh l)\<lparr>lh_n := 0\<rparr>\<rparr>"
      "wrote [(unat (start_blk l), clear_head l (content (kern s3) (start_blk l)))] s3 t"
    using clear_ok [OF s3(2) k3(1) f3 k3(3)] by (elim exE conjE) (rule that)
  have "commit s = Done () t"
    using n l s1(1) s2(1) s3(1) t(1) k2(1) by (simp add: commit_def write_log_def install_trans_def logged_def)
  moreover have "wrote (commit_writes l (content (kern s))) s t"
    using wrote_trans [OF s1(4) wrote_trans [OF k2(5) wrote_trans [OF s3(4) t(5)]]] st3 hw by (simp add: commit_writes_def)
  ultimately show ?thesis using t by blast
qed

end
