(* ===== verification/Log_Crash.thy ===== *)
theory Log_Crash
  imports Log_Correct
begin

text \<open>
  Recovery and crashes. A crash leaves the disk with some first part of the writes of a commit; the
  disk takes a block at a time. Recovery, run on a machine whose cache is clean, then gives every
  block outside the log its value before the transaction when the header had not been written,
  and its value after the transaction when it had.
\<close>

section \<open>Recovery\<close>

lemma length_get_blocks [simp]: "length (get_blocks d is bl) = length bl"
  by (induction d "is" bl rule: get_blocks.induct) auto

lemma get_blocks_nth:
  "j < length bl \<Longrightarrow> get_blocks d is bl ! j = (if j \<in> set is then hdr_block d j else bl ! j)"
  by (induction d "is" bl rule: get_blocks.induct) (auto simp: nth_list_update)

definition with_head :: "bytes \<Rightarrow> log \<Rightarrow> log" where
  "with_head d l = l\<lparr>lg_lh := read_into d (lg_lh l)\<rparr>"

lemma with_head_fields [simp]:
  "lg_start (with_head d l) = lg_start l" "lg_size (with_head d l) = lg_size l" "lg_dev (with_head d l) = lg_dev l"
  "lh_n (lg_lh (with_head d l)) = hdr_n d" "log_fits (with_head d l) dsz = log_fits l dsz"
  "in_log (with_head d l) n = in_log l n" "lblk (with_head d l) j = lblk l j"
  by (simp_all add: with_head_def read_into_def log_fits_def in_log_def lblk_def)

definition recovery_writes :: "log \<Rightarrow> (nat \<Rightarrow> uchar) \<Rightarrow> (nat \<times> bytes) list" where
  "recovery_writes l d = (let hb = dblk d (unat (start_blk l)) in
     home_writes (with_head hb l) (\<lambda>n. dblk d (unat n)) (logged (with_head hb l)) @
     [(unat (start_blk l), clear_head (with_head hb l) hb)])"

lemma recover_ok:
  assumes ok: "bc_ok {} i r" and l: "the_log r = l" and d: "dirty_blks (kern r) = {}"
    and hb: "hb = dblk (memdisk (kern r)) (unat (start_blk l))"
    and f: "log_fits l (disksize (kern r))" and h: "hdr_fits (with_head hb l) (disksize (kern r))"
  shows "\<exists>t. recover_from_log r = Done () t \<and> bc_ok {} i t \<and> dirty_blks (kern t) = {} \<and> lh_n (lg_lh (the_log t)) = 0 \<and>
    wrote (recovery_writes l (memdisk (kern r))) r t"
proof -
  have cd: "content (kern r) = (\<lambda>n. dblk (memdisk (kern r)) (unat n))"
    using clean_content [OF ok] d by (auto simp: fun_eq_iff)
  have n: "hdr_n hb \<le> int LOGSIZE" using h by (simp add: hdr_fits_def Let_def)
  have p: "uint (of_int (lg_start (the_log r)) :: uint) < disksize (kern r)"
    using log_blocks(1) [OF f] f l by (simp add: log_fits_def)
  have c0: "card (dirty_blks (kern r)) < NBUF" by (simp add: d param_defs)
  have hb': "content (kern r) (of_int (lg_start (the_log r))) = hb" using hb l cd by simp
  obtain s1 where s1: "read_head r = Done () (upd_lh (read_into hb) s1)" "bc_ok {} i s1" "unchanged r s1"
    using read_head_ok [OF ok _ p c0] d l f n unfolding hb' by (auto simp: log_fits_def)
  define s2 where "s2 = upd_lh (read_into hb) s1"
  have s2: "bc_ok {} i s2" "content (kern s2) = content (kern r)" "dirty_blks (kern s2) = {}" "the_log s2 = with_head hb l"
      "disksize (kern s2) = disksize (kern r)" "memdisk (kern s2) = memdisk (kern r)" "disk_log (kern s2) = disk_log (kern r)"
    using s1(2,3) d l bframe_klog [of r s1] bframe_fields(1) [of r s1]
    by (simp_all add: s2_def upd_lh_log unchanged_def with_head_def) (simp add: the_log_def)
  have pre: "log_fits (with_head hb l) (disksize (kern s2))" "hdr_fits (with_head hb l) (disksize (kern s2))"
      "set (logged (with_head hb l)) \<subseteq> {..<nat (lh_n (lg_lh (with_head hb l)))}" "distinct (logged (with_head hb l))"
      "card (dirty_blks (kern s2)) < NBUF" "\<forall>j \<in> set (logged (with_head hb l)). room (hblk (with_head hb l) j) s2"
      "\<forall>j < nat (lh_n (lg_lh (with_head hb l))). lblk (with_head hb l) j \<notin> dirty_blks (kern s2)"
    using f h s2 by (auto simp: logged_def room_def param_defs)
  obtain s3 where s3: "install_from (logged (with_head hb l)) s2 = Done () s3" "bc_ok {} i s3" "bframe s2 s3"
      "wrote (home_writes (with_head hb l) (content (kern s2)) (logged (with_head hb l))) s2 s3"
      "dirty_blks (kern s3) = dirty_blks (kern s2) - hblk (with_head hb l) ` set (logged (with_head hb l))"
      "\<forall>n. n \<notin> hblk (with_head hb l) ` set (logged (with_head hb l)) \<longrightarrow> content (kern s3) n = content (kern s2) n"
    using install_from_ok [OF s2(1,4) pre] by (elim exE conjE) (rule that)
  have k3: "the_log s3 = with_head hb l" "dirty_blks (kern s3) = {}" "log_fits (with_head hb l) (disksize (kern s3))"
    using bframe_klog [OF s3(3)] bframe_fields(1) [OF s3(3)] s2 s3(5) f by (simp_all add: the_log_def)
  have "start_blk l \<notin> hblk (with_head hb l) ` set (logged (with_head hb l))"
    using log_distinct(2) [OF pre(1,2)] pre(3) by auto
  then have st: "content (kern s3) (start_blk l) = hb" using s3(6) s2(2) cd hb by simp
  obtain t where t: "write_head (upd_lh (\<lambda>h. h\<lparr>lh_n := 0\<rparr>) s3) = Done () t" "bc_ok {} i t" "dirty_blks (kern t) = {}"
      "the_log t = (with_head hb l)\<lparr>lg_lh := (lg_lh (with_head hb l))\<lparr>lh_n := 0\<rparr>\<rparr>"
      "wrote [(unat (start_blk l), clear_head (with_head hb l) hb)] s3 t"
    using clear_ok [OF s3(2) k3(1,3,2)] st by auto
  have "recover_from_log r = Done () t"
    using s1(1) s3(1) t(1) s2(4) by (simp add: recover_from_log_def install_trans_def s2_def [symmetric] logged_def)
  moreover have "wrote (recovery_writes l (memdisk (kern r))) s2 t"
    using wrote_trans [OF s3(4) t(5)] s2(2) cd unfolding recovery_writes_def Let_def hb [symmetric] by simp
  then have "wrote (recovery_writes l (memdisk (kern r))) r t" using s2(6,7) by (simp add: wrote_def)
  ultimately show ?thesis using t by auto
qed

section \<open>Crashes\<close>

definition blk_sized :: "(nat \<times> bytes) list \<Rightarrow> bool" where
  "blk_sized ws \<longleftrightarrow> (\<forall>(m, bs) \<in> set ws. length bs = BSIZE)"

lemma replay_other:
  assumes "blk_sized ws" "n \<notin> fst ` set ws"
  shows "dblk (replay ws d) n = dblk d n"
proof -
  have "map_of (rev ws) n = None" using assms(2) by (auto simp: map_of_eq_None_iff)
  then show ?thesis using assms(1) by (simp add: dblk_replay blk_sized_def)
qed

lemma replay_graph:
  assumes "\<forall>n. length (c n) = BSIZE" "(n :: uint) \<in> h ` set js"
  shows "dblk (replay (map (\<lambda>j. (unat (h j), c (h j))) js) d) (unat n) = c n"
proof -
  have "map_of (rev (map (\<lambda>j. (unat (h j), c (h j))) js)) (unat n) = Some (c n)"
    using assms(2)
  proof (induction js rule: rev_induct)
    case (snoc x xs)
    then show ?case by (cases "h x = n") (auto dest: unsigned_word_eqI)
  qed simp
  then show ?thesis using assms(1) by (subst dblk_replay) auto
qed

definition log_blks :: "log \<Rightarrow> uint set" where
  "log_blks l = {n. in_log l (uint n)}"

abbreviation install_writes :: "log \<Rightarrow> (uint \<Rightarrow> bytes) \<Rightarrow> (nat \<times> bytes) list" where
  "install_writes l c \<equiv> map (\<lambda>j. (unat (hblk l j), c (hblk l j))) (logged l)"

lemma log_writes_in:
  assumes "log_fits l dsz" "hdr_fits l dsz"
  shows "fst ` set (log_writes l c (logged l)) \<subseteq> unat ` log_blks l" "start_blk l \<in> log_blks l"
    "hblk l ` set (logged l) \<inter> log_blks l = {}"
proof -
  have n: "lh_n (lg_lh l) < lg_size l" using assms(2) by (auto simp: hdr_fits_def Let_def)
  have "lblk l j \<in> log_blks l" if "j \<in> set (logged l)" for j
    using log_blocks(2) [OF assms(1), of j] n that by (simp add: log_blks_def in_log_def logged_def)
  then show "fst ` set (log_writes l c (logged l)) \<subseteq> unat ` log_blks l" by (auto simp: log_writes_def)
  show "start_blk l \<in> log_blks l" using log_blocks(1) [OF assms(1)] assms(1) by (simp add: log_blks_def in_log_def log_fits_def)
  show "hblk l ` set (logged l) \<inter> log_blks l = {}"
    using log_blocks(3) [OF assms] assms(2) by (auto simp: log_blks_def hdr_fits_def Let_def logged_def)
qed

lemma unat_notin: "n \<notin> A \<Longrightarrow> unat (n :: uint) \<notin> unat ` A"
  by (auto dest: unsigned_word_eqI)

lemma installed_view:
  assumes c: "\<forall>n. length (c n) = BSIZE" "\<forall>n. n \<notin> hblk l ` set (logged l) \<longrightarrow> c n = dblk d (unat n)"
    and ws: "blk_sized ws" "fst ` set ws \<subseteq> unat ` (log_blks l \<union> hblk l ` set (logged l))"
    and ys: "blk_sized ys" "fst ` set ys \<subseteq> unat ` log_blks l" and n: "n \<notin> log_blks l"
  shows "dblk (replay (ws @ install_writes l c @ ys) d) (unat n) = c n"
proof -
  have y: "unat n \<notin> fst ` set ys" using ys(2) unat_notin [OF n] by blast
  show ?thesis
  proof (cases "n \<in> hblk l ` set (logged l)")
    case True
    then show ?thesis using replay_other [OF ys(1) y] replay_graph [OF c(1) True] by simp
  next
    case False
    then have "unat n \<notin> fst ` set ws" using ws(2) n unat_notin [of n "log_blks l \<union> hblk l ` set (logged l)"] by blast
    moreover have "unat n \<notin> fst ` set (install_writes l c)" using unat_notin [OF False] by force
    moreover have "blk_sized (install_writes l c)" using c(1) by (auto simp: blk_sized_def)
    ultimately show ?thesis using replay_other [OF ys(1) y] replay_other [OF ws(1)] replay_other c(2) False by simp
  qed
qed

lemma hdr_clear: "length d = BSIZE \<Longrightarrow> hdr_n (clear_head l d) = 0" "length d = BSIZE \<Longrightarrow> length (clear_head l d) = BSIZE"
  by (simp_all add: clear_head_def hdr_header length_header param_defs)

lemma empty_head:
  assumes "hdr_n hb = 0" "length (lh_block (lg_lh l)) = LOGSIZE" "0 < lg_size l"
  shows "hdr_fits (with_head hb l) dsz" "logged (with_head hb l) = []"
  using assms by (simp_all add: hdr_fits_def Let_def with_head_def read_into_def logged_def)

lemma committed_head:
  assumes f: "log_fits l dsz" and h: "hdr_fits l dsz" and d: "length d = BSIZE"
    and k: "length (lh_block (lg_lh k)) = LOGSIZE" "lg_start k = lg_start l" "lg_size k = lg_size l"
  shows "hdr_fits (with_head (header (lg_lh l) d) k) dsz" "logged (with_head (header (lg_lh l) d) k) = logged l"
    "j \<in> set (logged l) \<Longrightarrow> hblk (with_head (header (lg_lh l) d) k) j = hblk l j"
proof -
  define N where "N = lh_n (lg_lh l)"
  have h': "length (lh_block (lg_lh l)) = LOGSIZE" "0 \<le> N" "N \<le> int LOGSIZE" "N < lg_size l" "distinct (take (nat N) (lh_block (lg_lh l)))"
    "\<forall>j < nat N. 0 \<le> lh_block (lg_lh l) ! j \<and> lh_block (lg_lh l) ! j < dsz \<and> \<not> in_log l (lh_block (lg_lh l) ! j)"
    using h by (simp_all add: hdr_fits_def Let_def N_def)
  have n: "hdr_n (header (lg_lh l) d) = N" using hdr_header [OF d] h' by (simp add: N_def)
  have b: "lh_block (lg_lh (with_head (header (lg_lh l) d) k)) ! j = lh_block (lg_lh l) ! j" if "j < nat N" for j
  proof -
    have "dsz \<le> 2 ^ 31" using f by (simp add: log_fits_def)
    moreover have "0 \<le> lh_block (lg_lh l) ! j" "lh_block (lg_lh l) ! j < dsz" using h'(6) that by simp_all
    ultimately have "hdr_block (header (lg_lh l) d) j = lh_block (lg_lh l) ! j"
      using hdr_block_header [OF d] h'(3) that by (simp add: N_def)
    moreover have "j < length (lh_block (lg_lh k))" using that h'(3) k(1) by simp
    ultimately show ?thesis using that n by (simp add: with_head_def read_into_def get_blocks_nth)
  qed
  have len: "length (lh_block (lg_lh (with_head (header (lg_lh l) d) k))) = LOGSIZE" using k by (simp add: with_head_def read_into_def)
  have "take (nat N) (lh_block (lg_lh (with_head (header (lg_lh l) d) k))) = take (nat N) (lh_block (lg_lh l))"
    using b len h'(1) by (intro nth_equalityI) simp_all
  moreover have "in_log k x = in_log l x" for x using k(2,3) by (simp add: in_log_def)
  ultimately show "hdr_fits (with_head (header (lg_lh l) d) k) dsz"
    using h' len b n k(3) by (simp add: hdr_fits_def Let_def)
  show "logged (with_head (header (lg_lh l) d) k) = logged l" using n by (simp add: logged_def N_def)
  show "hblk (with_head (header (lg_lh l) d) k) j = hblk l j" if "j \<in> set (logged l)"
    using b that by (simp add: hblk_def logged_def N_def)
qed

text \<open>A machine that has started again on disk \<open>d\<close>: nothing is cached that the disk does not have.\<close>

definition rebooted :: "nat \<Rightarrow> (nat \<Rightarrow> uchar) \<Rightarrow> int \<Rightarrow> log \<Rightarrow> 'a logk_scheme machine \<Rightarrow> bool" where
  "rebooted i d dsz l r \<longleftrightarrow> bc_ok {} i r \<and> dirty_blks (kern r) = {} \<and> memdisk (kern r) = d \<and> disksize (kern r) = dsz \<and>
     lg_start (the_log r) = lg_start l \<and> lg_size (the_log r) = lg_size l \<and> lg_dev (the_log r) = 1 \<and> length (lh_block (lg_lh (the_log r))) = LOGSIZE"

text \<open>Recovery has run and every block outside the log has the value \<open>v\<close> gives it.\<close>

definition recovers :: "nat \<Rightarrow> log \<Rightarrow> (uint \<Rightarrow> bytes) \<Rightarrow> 'a logk_scheme machine \<Rightarrow> bool" where
  "recovers i l v r \<longleftrightarrow> (\<exists>t. recover_from_log r = Done () t \<and> bc_ok {} i t \<and> dirty_blks (kern t) = {} \<and>
     lh_n (lg_lh (the_log t)) = 0 \<and> (\<forall>n. \<not> in_log l (uint n) \<longrightarrow> dblk (memdisk (kern t)) (unat n) = v n))"

lemma rebooted_fits:
  assumes "rebooted i d dsz l r" "log_fits l dsz"
  shows "log_fits (the_log r) (disksize (kern r))" "start_blk (the_log r) = start_blk l" "lblk (the_log r) j = lblk l j"
  using assms by (simp_all add: rebooted_def log_fits_def lblk_def)

lemma recovers_empty:
  assumes r: "rebooted i d dsz l r" and f: "log_fits l dsz" and z: "hdr_n (dblk d (unat (start_blk l))) = 0"
    and v: "\<forall>n. n \<notin> log_blks l \<longrightarrow> dblk d (unat n) = v n"
  shows "recovers i l v r"
proof -
  define hb where "hb = dblk d (unat (start_blk l))"
  have R: "bc_ok {} i r" "dirty_blks (kern r) = {}" "memdisk (kern r) = d" "length (lh_block (lg_lh (the_log r))) = LOGSIZE"
      "0 < lg_size (the_log r)"
    using r f by (simp_all add: rebooted_def log_fits_def)
  note rf = rebooted_fits [OF r f] and e = empty_head [OF z [folded hb_def] R(4,5)]
  have hb: "hb = dblk (memdisk (kern r)) (unat (start_blk (the_log r)))" using R(3) rf(2) by (simp add: hb_def)
  obtain t where t: "recover_from_log r = Done () t" "bc_ok {} i t" "dirty_blks (kern t) = {}" "lh_n (lg_lh (the_log t)) = 0"
      "wrote (recovery_writes (the_log r) (memdisk (kern r))) r t"
    using recover_ok [OF R(1) refl R(2) hb rf(1) e(1)] by (elim exE conjE) (rule that)
  have w: "recovery_writes (the_log r) (memdisk (kern r)) = [(unat (start_blk l), clear_head (with_head hb (the_log r)) hb)]"
    unfolding recovery_writes_def Let_def hb [symmetric] e(2) by (simp add: home_writes_def rf(2))
  have "dblk (memdisk (kern t)) (unat n) = v n" if "\<not> in_log l (uint n)" for n
  proof -
    have n: "n \<notin> log_blks l" using that by (simp add: log_blks_def)
    then have "start_blk l \<noteq> n" using log_blocks(1) [OF f] f by (auto simp: log_blks_def in_log_def log_fits_def)
    then have "unat n \<noteq> unat (start_blk l)" by (auto dest: unsigned_word_eqI)
    then show ?thesis using t(5) w R(3) v n hdr_clear(2) [of hb] by (simp add: wrote_def hb_def dblk_dput)
  qed
  then show ?thesis using t unfolding recovers_def by blast
qed

lemma crash_disk:
  assumes f: "log_fits l dsz" and h: "hdr_fits l dsz" and c: "\<forall>n. length (c n) = BSIZE"
    and ws: "set ws \<subseteq> set (install_writes l c)"
    and D: "D = replay (log_writes l c (logged l) @ (unat (start_blk l), commit_head l c) # ws) d"
  shows "blk_sized ws" "length (commit_head l c) = BSIZE" "dblk D (unat (start_blk l)) = commit_head l c"
    "j \<in> set (logged l) \<Longrightarrow> dblk D (unat (lblk l j)) = c (hblk l j)"
proof -
  note li = log_writes_in [OF f h]
  define d1 where "d1 = replay (log_writes l c (logged l)) d"
  define d2 where "d2 = dput d1 (unat (start_blk l)) (commit_head l c)"
  have D': "D = replay ws d2" using D by (simp add: d1_def d2_def)
  show lc: "length (commit_head l c) = BSIZE" using length_header h c by (simp add: commit_head_def hdr_fits_def Let_def)
  show bs: "blk_sized ws" using ws c by (auto simp: blk_sized_def)
  have fw: "fst ` set ws \<subseteq> unat ` (hblk l ` set (logged l))" using ws by auto
  have keep: "dblk D (unat n) = dblk d2 (unat n)" if "n \<in> log_blks l" for n
  proof -
    have "n \<notin> hblk l ` set (logged l)" using that li(3) by blast
    then show ?thesis unfolding D' using fw unat_notin by (intro replay_other [OF bs]) blast
  qed
  show "dblk D (unat (start_blk l)) = commit_head l c" using keep [OF li(2)] lc by (simp add: d2_def dblk_dput)
  assume j: "j \<in> set (logged l)"
  have jN: "j < nat (lh_n (lg_lh l))" using j by (simp add: logged_def)
  have "(unat (lblk l j), c (hblk l j)) \<in> set (log_writes l c (logged l))" using j by (simp add: log_writes_def)
  then have lb: "lblk l j \<in> log_blks l" using li(1) by (force dest: unsigned_word_eqI)
  have ne: "unat (lblk l j) \<noteq> unat (start_blk l)" using log_distinct(3) [OF f h jN jN] by (auto dest: unsigned_word_eqI)
  have inj: "inj_on (lblk l) (set (logged l))" using log_distinct(4) [OF f h] by (auto simp: inj_on_def logged_def)
  define g where "g = (\<lambda>n. c (hblk l (the_inv_into (set (logged l)) (lblk l) n)))"
  have g: "g (lblk l k) = c (hblk l k)" if "k \<in> set (logged l)" for k
    using the_inv_into_f_f [OF inj that] by (simp add: g_def)
  then have "log_writes l c (logged l) = map (\<lambda>j. (unat (lblk l j), g (lblk l j))) (logged l)" by (simp add: log_writes_def)
  then have "dblk d1 (unat (lblk l j)) = c (hblk l j)"
    using replay_graph [of g "lblk l j" "lblk l" "logged l" d] c j g [OF j] by (simp add: d1_def g_def)
  then show "dblk D (unat (lblk l j)) = c (hblk l j)" using keep [OF lb] ne lc by (simp add: d2_def dblk_dput)
qed

lemma recovers_committed:
  assumes r: "rebooted i (replay (log_writes l c (logged l) @ (unat (start_blk l), commit_head l c) # ws) d) dsz l r"
    and f: "log_fits l dsz" and h: "hdr_fits l dsz"
    and c: "\<forall>n. length (c n) = BSIZE" "\<forall>n. n \<notin> hblk l ` set (logged l) \<longrightarrow> c n = dblk d (unat n)"
    and ws: "set ws \<subseteq> set (install_writes l c)"
  shows "recovers i l c r"
proof -
  define xs where "xs = log_writes l c (logged l) @ (unat (start_blk l), commit_head l c) # ws"
  define D where "D = replay xs d"
  have R: "bc_ok {} i r" "dirty_blks (kern r) = {}" "memdisk (kern r) = D" "length (lh_block (lg_lh (the_log r))) = LOGSIZE"
    "lg_start (the_log r) = lg_start l" "lg_size (the_log r) = lg_size l" "disksize (kern r) = dsz"
    using r by (simp_all add: rebooted_def D_def xs_def)
  note li = log_writes_in [OF f h] and cd = crash_disk [OF f h c(1) ws D_def [unfolded xs_def]]
  define w where "w = with_head (commit_head l c) (the_log r)"
  note ch = committed_head [OF f h c(1) [rule_format, of "start_blk l"] R(4,5,6), folded commit_head_def w_def]
  note rf = rebooted_fits [OF r f]
  have hb: "commit_head l c = dblk (memdisk (kern r)) (unat (start_blk (the_log r)))" using R(3) rf(2) cd(3) by simp
  have hf: "hdr_fits (with_head (commit_head l c) (the_log r)) (disksize (kern r))" using ch(1) R(7) by (simp add: w_def)
  obtain t where t: "recover_from_log r = Done () t" "bc_ok {} i t" "dirty_blks (kern t) = {}" "lh_n (lg_lh (the_log t)) = 0"
      "wrote (recovery_writes (the_log r) (memdisk (kern r))) r t"
    using recover_ok [OF R(1) refl R(2) hb rf(1) hf] by (elim exE conjE) (rule that)
  have "lblk w j = lblk l j" for j using rf(3) by (simp add: w_def)
  then have hw: "home_writes w (\<lambda>n. dblk D (unat n)) (logged w) = install_writes l c"
    using ch(2,3) cd(4) by (simp add: home_writes_def)
  define ys where "ys = [(unat (start_blk l), clear_head w (commit_head l c))]"
  have rw: "recovery_writes (the_log r) D = install_writes l c @ ys"
    using hw cd(3) by (simp add: recovery_writes_def Let_def rf(2) w_def [symmetric] ys_def)
  have ys: "blk_sized ys" "fst ` set ys \<subseteq> unat ` log_blks l"
    using hdr_clear(2) [OF cd(2)] li(2) by (auto simp: ys_def blk_sized_def)
  have xs: "blk_sized xs" "fst ` set xs \<subseteq> unat ` (log_blks l \<union> hblk l ` set (logged l))"
  proof -
    have "blk_sized (log_writes l c (logged l))" using c(1) by (auto simp: blk_sized_def log_writes_def)
    then show "blk_sized xs" using cd(1,2) by (auto simp: xs_def blk_sized_def)
    have "fst ` set ws \<subseteq> unat ` hblk l ` set (logged l)" using ws by auto
    then show "fst ` set xs \<subseteq> unat ` (log_blks l \<union> hblk l ` set (logged l))"
      using li(1) [of c] li(2) unfolding xs_def set_append image_Un by auto
  qed
  have "memdisk (kern t) = replay (xs @ install_writes l c @ ys) d"
    using t(5) R(3) rw by (simp add: wrote_def D_def)
  then have "\<forall>n. \<not> in_log l (uint n) \<longrightarrow> dblk (memdisk (kern t)) (unat n) = c n"
    using installed_view [OF c xs ys] by (simp add: log_blks_def)
  then show ?thesis using t unfolding recovers_def by blast
qed

text \<open>The commit point: the header is written after as many writes as there are logged blocks.\<close>

definition crash_value :: "nat \<Rightarrow> log \<Rightarrow> 'a bufk_scheme machine \<Rightarrow> uint \<Rightarrow> bytes" where
  "crash_value k l s = (if int k \<le> lh_n (lg_lh l) then (\<lambda>n. dblk (memdisk (kern s)) (unat n)) else content (kern s))"

lemma prefix_cases:
  assumes w: "ws @ vs = LW @ HD # IW @ [CL]"
  obtains us where "LW = ws @ us" | ws' where "ws = LW @ HD # ws'" "set ws' \<subseteq> set IW" | "ws = LW @ HD # IW @ [CL]"
proof -
  from w consider us where "LW = ws @ us" | us where "ws = LW @ us" "us @ vs = HD # IW @ [CL]"
    by (auto simp: append_eq_append_conv2)
  then show thesis
  proof cases
    case (2 us)
    show thesis
    proof (cases us)
      case Nil then show thesis using 2(1) by (intro that(1) [of "[]"]) simp
    next
      case (Cons x ws')
      then have e: "ws' @ vs = IW @ [CL]" "x = HD" using 2(2) by auto
      show thesis
      proof (cases vs rule: rev_cases)
        case Nil then show thesis using that(3) e 2(1) Cons by simp
      next
        case (snoc vs' v)
        then have "ws' @ vs' = IW" using e(1) by simp
        then show thesis using that(2) e(2) 2(1) Cons by auto
      qed
    qed
  qed (rule that(1))
qed

lemma crash_recovers:
  assumes ok: "bc_ok {} i s" and c: "to_commit l s" and z: "hdr_n (content (kern s) (start_blk l)) = 0"
    and w: "ws @ vs = commit_writes l (content (kern s))"
    and r: "rebooted i (replay ws (memdisk (kern s))) (disksize (kern s)) l r"
  shows "recovers i l (crash_value (length ws) l s) r"
proof -
  note C = to_commitD [OF c]
  define c where "c = content (kern s)"
  have cl: "\<forall>n. length (c n) = BSIZE" using content_length [OF ok] by (simp add: c_def)
  have cc: "\<forall>n. n \<notin> hblk l ` set (logged l) \<longrightarrow> c n = dblk (memdisk (kern s)) (unat n)"
    using clean_content [OF ok] C(3) by (simp add: c_def)
  define LW where "LW = log_writes l c (logged l)"
  define HD where "HD = (unat (start_blk l), commit_head l c)"
  define CL where "CL = (unat (start_blk l), clear_head l (commit_head l c))"
  have w: "ws @ vs = LW @ HD # install_writes l c @ [CL]" using w by (simp add: commit_writes_def LW_def HD_def CL_def c_def)
  have n0: "0 \<le> lh_n (lg_lh l)" using C(2) by (simp add: hdr_fits_def Let_def)
  have lLW: "length LW = nat (lh_n (lg_lh l))" by (simp add: LW_def log_writes_def logged_def)
  note li = log_writes_in [OF C(1,2)]
  have lc: "length (commit_head l c) = BSIZE" using length_header C(7) cl by (simp add: commit_head_def)
  from w show ?thesis
  proof (cases rule: prefix_cases [consumes 1, case_names a b e])
    case (a us)
    then have len: "int (length ws) \<le> lh_n (lg_lh l)" using lLW n0 by (metis length_append le_add1 nat_le_iff of_nat_mono int_nat_eq)
    have "blk_sized LW" using cl by (auto simp: blk_sized_def LW_def log_writes_def)
    then have ws: "blk_sized ws" "fst ` set ws \<subseteq> fst ` set LW" using a by (auto simp: blk_sized_def)
    have "unat (start_blk l) \<notin> fst ` set ws"
      using ws(2) log_distinct(3) [OF C(1,2)] by (force simp: LW_def log_writes_def logged_def dest: unsigned_word_eqI)
    then have "hdr_n (dblk (replay ws (memdisk (kern s))) (unat (start_blk l))) = 0"
      using replay_other [OF ws(1)] z clean_content [OF ok C(5)] by simp
    moreover have "dblk (replay ws (memdisk (kern s))) (unat n) = dblk (memdisk (kern s)) (unat n)" if "n \<notin> log_blks l" for n
      using unat_notin [OF that] ws li(1) [of c] by (intro replay_other) (auto simp: LW_def)
    ultimately show ?thesis using recovers_empty [OF r C(1)] len by (simp add: crash_value_def)
  next
    case (b ws')
    then have "\<not> int (length ws) \<le> lh_n (lg_lh l)" using lLW n0 by simp
    then show ?thesis
      using recovers_committed [OF _ C(1,2) cl cc b(2)] r b(1) by (simp add: crash_value_def c_def [symmetric] LW_def HD_def)
  next
    case e
    then have "\<not> int (length ws) \<le> lh_n (lg_lh l)" using lLW n0 by simp
    moreover have "dblk (replay ws (memdisk (kern s))) (unat (start_blk l)) = clear_head l (commit_head l c)"
      using e hdr_clear(2) [OF lc] by (simp add: CL_def dblk_dput)
    moreover have "dblk (replay ws (memdisk (kern s))) (unat n) = c n" if "n \<notin> log_blks l" for n
    proof -
      have "blk_sized (LW @ [HD])" "blk_sized [CL]" "fst ` set [CL] \<subseteq> unat ` log_blks l"
        using cl lc hdr_clear(2) [OF lc] li(2) by (auto simp: blk_sized_def LW_def HD_def CL_def log_writes_def)
      moreover have "fst ` set (LW @ [HD]) \<subseteq> unat ` (log_blks l \<union> hblk l ` set (logged l))"
        using li(1) [of c] li(2) unfolding LW_def HD_def set_append image_Un by auto
      ultimately show ?thesis using installed_view [OF cl cc, of "LW @ [HD]" "[CL]"] that e by simp
    qed
    ultimately show ?thesis
      using recovers_empty [OF r C(1), of c] hdr_clear(1) [OF lc, of l] by (simp add: crash_value_def c_def)
  qed
qed

end
