(* ===== verification/Sleep_Wake.thy ===== *)
theory Sleep_Wake
  imports Calm
begin

text \<open>
  Giving up the processor from a critical section. \<^verbatim>\<open>sleep\<close> takes the process-table lock before it
  lets go of the caller's lock, so a process that has decided to sleep cannot miss the wakeup
  that follows.
\<close>

section \<open>Handing one lock over for another\<close>

lemma kern_acq [simp]: "kern (acq l s) = kern s"
  by (simp add: acq_def set_lock_def pushed_def cli_def)

lemma popped_set_lock: "popped (set_lock l v c s) = set_lock l v c (popped s)"
  by (simp add: popped_def set_lock_def sti_def)

lemma pushed_set_lock: "pushed (set_lock l v c s) = set_lock l v c (pushed s)"
  by (simp add: pushed_def set_lock_def cli_def)

lemma set_lock_commute: "l \<noteq> l' \<Longrightarrow> set_lock l v c (set_lock l' v' c' s) = set_lock l' v' c' (set_lock l v c s)"
  by (simp add: set_lock_def fun_upd_twist)

lemma rel_inner:
  assumes c: "calm s" and l: "l \<noteq> l'"
  shows "rel l (acq l' (acq l s)) = acq l' s"
proof -
  have q: "cpu_ok s" "lk_free l s" "lkcpu (locks s l) = None" using c by (auto simp: calm_def)
  have e: "set_lock l 0 None (acq l s) = pushed s"
    using q(2,3) by (intro machine.equality) (auto simp: acq_def set_lock_def lk_free_def fun_eq_iff)
  have "set_lock l 0 None (acq l' (acq l s)) = set_lock l' 1 (Some (this s)) (pushed (set_lock l 0 None (acq l s)))"
    using l by (simp add: acq_def [of l'] set_lock_commute pushed_set_lock)
  also have "\<dots> = set_lock l' 1 (Some (this s)) (pushed (pushed s))" by (simp only: e)
  finally show ?thesis
    using popped_pushed [OF cpu_ok_pushed [OF q(1)]] q(1) by (simp add: rel_def popped_set_lock acq_def)
qed

lemma release_inner:
  assumes c: "calm s" and l: "l \<noteq> l'"
  shows "release l (upd_kern f (acq l' (acq l s))) = Done () (upd_kern f (acq l' s))"
proof -
  have q: "cpu_ok s" "mycli s = 0" using c by (auto simp: calm_def)
  note a = acq_ok [OF q(1), of l] and a' = acq_ok [OF acq_ok(1) [OF q(1), of l], of l']
  have "lk_mine l (acq l' (acq l s))" using a(2) l by (simp add: lk_mine_def acq_def [of l']) (simp add: set_lock_def)
  moreover have "0 < mycli (acq l' (acq l s))" using a'(3) a(3) q(2) by simp
  ultimately show ?thesis
    using release_held [of "upd_kern f (acq l' (acq l s))" l] a'(1) rel_inner [OF assms] by (simp add: upd_kern_commute)
qed

section \<open>Sleeping\<close>

definition set_asleep :: "nat \<Rightarrow> chan \<Rightarrow> proc list \<Rightarrow> proc list" where
  "set_asleep i ch ps = ps[i := (ps ! i)\<lparr>p_chan := Some ch, p_state := SLEEPING\<rparr>]"

lemma sched_inside:
  assumes c: "calm s" and i: "me s = Some i" and st: "p_state (ptable (f (kern s)) ! i) \<noteq> RUNNING"
  shows "sched (upd_kern f (acq Ptable_lk s)) = Switch (upd_kern f (acq Ptable_lk s))"
proof -
  define t where "t = upd_kern f (acq Ptable_lk s)"
  have q: "cpu_ok s" "mycli s = 0" using c by (auto simp: calm_def)
  have a: "cpu_ok t" "lk_mine Ptable_lk t" "ncli (cpus t ! this t) = 1" "touch t = t"
    using acq_ok [OF q(1), of Ptable_lk] q by (simp_all add: t_def upd_kern_commute)
  have IF: "\<not> eflags_IF t (lapic_id t)" using a(1,3) by (simp add: cpu_ok_def)
  have "p_state (proc_at i t) \<noteq> RUNNING" using st by (simp add: t_def proc_at_def)
  then show ?thesis
    using myproc_inside [OF c, of f Ptable_lk] i holding_ok [OF a(1), of Ptable_lk] a mycpu_ok [OF a(1)] IF
    unfolding t_def [symmetric] by (simp add: sched_def)
qed

lemma sleep_inside:
  assumes c: "calm s" and i: "running i s" and l: "l \<noteq> Ptable_lk" and f: "length (ptable (f (kern s))) = length (ptable (kern s))"
  shows "sleep ch (Some l) (upd_kern f (acq l s)) =
    Switch (upd_kern (\<lambda>k. (f k)\<lparr>ptable := set_asleep i ch (ptable (f k))\<rparr>) (acq Ptable_lk s))"
proof -
  define g where "g = (\<lambda>k. (f k)\<lparr>ptable := set_asleep i ch (ptable (f k))\<rparr>)"
  have m: "me s = Some i" "i < length (ptable (f (kern s)))" using i f by (auto simp: running_def)
  have "p_state (ptable (g (kern s)) ! i) \<noteq> RUNNING" using m(2) by (simp add: g_def set_asleep_def)
  then have sw: "sched (upd_kern g (acq Ptable_lk s)) = Switch (upd_kern g (acq Ptable_lk s))"
    by (rule sched_inside [OF c m(1)])
  have u: "upd_proc i (\<lambda>p. p\<lparr>p_state := SLEEPING\<rparr>) (upd_proc i (\<lambda>p. p\<lparr>p_chan := Some ch\<rparr>) (upd_kern f (acq Ptable_lk s))) =
      upd_kern g (acq Ptable_lk s)"
    using m(2) unfolding g_def set_asleep_def upd_proc_def upd_kern_upd_kern
    by (intro machine.equality) simp_all
  show ?thesis
    unfolding sleep_def myproc_inside [OF c] m(1)
    using calm_inner(1) [OF c l [symmetric], of f] release_inner [OF c l, of f] l u sw
    by (simp add: g_def Let_def)
qed

text \<open>Coming back: the scheduler runs the process again with the process table locked.\<close>

lemma sleep_resumes:
  assumes c: "calm s" and l: "l \<noteq> Ptable_lk"
  shows "sleep_resume (IF s) i l (acq Ptable_lk s) =
    Done () (upd_kern (\<lambda>k. k\<lparr>ptable := (ptable k)[i := (ptable k ! i)\<lparr>p_chan := None\<rparr>]\<rparr>) (acq l s))"
proof -
  have q: "cpu_ok s" "mycli s = 0" "this s < length (cpus s)" using c cpu_okD(2) [of s] by (auto simp: calm_def)
  have a: "cpu_ok (acq Ptable_lk s)" "\<not> IF (acq Ptable_lk s)"
    using acq_ok [OF q(1), of Ptable_lk] q(2) by (simp_all add: cpu_ok_def)
  have cp: "cpus (acq Ptable_lk s) ! this s = (cpus s ! this s)\<lparr>intena := IF s, ncli := 1\<rparr>"
    using q by (simp add: acq_def set_lock_def cpus_pushed)
  have sw: "x\<lparr>ncli := n, intena := b\<rparr> = x\<lparr>intena := b, ncli := n\<rparr>" for x :: cpu and n b by simp
  have "(acq Ptable_lk s)\<lparr>cpus := (cpus (acq Ptable_lk s))[this s := (cpus (acq Ptable_lk s) ! this s)\<lparr>intena := IF s\<rparr>]\<rparr> = acq Ptable_lk s"
    using q sw by (intro machine.equality) (simp_all add: cp, simp add: acq_def set_lock_def cpus_pushed sw)
  then have "sched_resume (IF s) (acq Ptable_lk s) = Done () (acq Ptable_lk s)"
    using mycpu_ok [OF a] by (simp add: sched_resume_def acq_def)
  then show ?thesis
    using calm_section(3) [OF c, of Ptable_lk] calm_section(1) [OF calm_upd [OF c], of l] l
    by (simp add: sleep_resume_def upd_proc_def upd_kern_commute Let_def)
qed

section \<open>Critical sections as changes of the kernel data\<close>

text \<open>The machine in the critical section of lock \<open>l\<close>, with kernel data \<open>k\<close>.\<close>

abbreviation inside :: "lockid \<Rightarrow> 'k \<Rightarrow> 'k machine \<Rightarrow> 'k machine" where
  "inside l k s \<equiv> upd_kern (\<lambda>_. k) (acq l s)"

definition wake_on :: "chan \<Rightarrow> 'a procs_scheme \<Rightarrow> 'a procs_scheme" where
  "wake_on ch k = k\<lparr>ptable := wake ch (ptable k)\<rparr>"

definition asleep_on :: "nat \<Rightarrow> chan \<Rightarrow> 'a procs_scheme \<Rightarrow> 'a procs_scheme" where
  "asleep_on i ch k = k\<lparr>ptable := set_asleep i ch (ptable k)\<rparr>"

lemma release_inside: "calm s \<Longrightarrow> release l (inside l k s) = Done () (upd_kern (\<lambda>_. k) s)"
  by (rule calm_section(3))

lemma wakeup_in: "calm s \<Longrightarrow> l \<noteq> Ptable_lk \<Longrightarrow> wakeup ch (inside l k s) = Done () (inside l (wake_on ch k) s)"
  by (simp add: wakeup_inside wake_on_def)

lemma sleep_in:
  assumes "calm s" "running i s" "l \<noteq> Ptable_lk" "length (ptable k) = length (ptable (kern s))"
  shows "sleep ch (Some l) (inside l k s) = Switch (inside Ptable_lk (asleep_on i ch k) s)"
  using sleep_inside [OF assms(1-3), of "\<lambda>_. k"] assms(4) by (simp add: asleep_on_def)

lemma upd_kern_const: "upd_kern f s = upd_kern (\<lambda>_. f (kern s)) s"
  by (simp add: upd_kern_def)

lemma acq_inside: "calm s \<Longrightarrow> acquire l s = Done () (inside l (kern s) s)"
  using upd_kern_const [of "\<lambda>k. k" "acq l s"] by (simp add: calm_section(1))

section \<open>Sleep locks under contention\<close>

lemma acquiresleep_taken:
  assumes c: "calm s" and i: "running i s" and l: "slocked (sleeplocks (kern s) l)"
  shows "acquiresleep l s =
    Switch (upd_kern (\<lambda>k. k\<lparr>ptable := set_asleep i (sl_chan l) (ptable k)\<rparr>) (acq Ptable_lk s))"
proof -
  have "sleep (sl_chan l) (Some (sl_lk l)) (upd_kern (\<lambda>k. k) (acq (sl_lk l) s)) =
      Switch (upd_kern (\<lambda>k. k\<lparr>ptable := set_asleep i (sl_chan l) (ptable k)\<rparr>) (acq Ptable_lk s))"
    by (rule sleep_inside [OF c i sl_lk_not_ptable]) simp
  then show ?thesis using l by (simp add: acquiresleep_def acquiresleep_loop_def calm_section(1) [OF c])
qed

lemma loop_free:
  assumes c: "calm s" and i: "me s = Some i" and l: "\<not> slocked (sleeplocks (f (kern s)) l)"
  shows "acquiresleep_loop l (upd_kern f (acq (sl_lk l) s)) =
    Done () (upd_sl l (\<lambda>k. k\<lparr>slocked := True, slpid := p_pid (ptable (f (kern s)) ! i)\<rparr>) (upd_kern f s))"
proof -
  show ?thesis
    using l i unfolding acquiresleep_loop_def upd_sl_def
    by (simp add: mypid_def myproc_inside [OF c] calm_section(3) [OF c] proc_at_def)
qed

end
