(* ===== verification/Log_Ops.thy ===== *)
theory Log_Ops
  imports Log_Crash Sleep_Wake
begin

text \<open>
  The operations a file-system call uses: \<^verbatim>\<open>begin_op\<close> reserves log space, \<^verbatim>\<open>log_write\<close> adds a block to
  the transaction, and the last \<^verbatim>\<open>end_op\<close> commits.
\<close>

section \<open>Adding a block\<close>

definition log_added :: "int \<Rightarrow> logheader \<Rightarrow> logheader" where
  "log_added v h = (if v \<in> set (take (nat (lh_n h)) (lh_block h)) then h
     else h\<lparr>lh_block := (lh_block h)[nat (lh_n h) := v], lh_n := lh_n h + 1\<rparr>)"

lemma log_slot_cases:
  assumes "nat (lh_n h) \<le> length (lh_block h)"
  shows "v \<in> set (take (nat (lh_n h)) (lh_block h)) \<Longrightarrow> log_slot h v < nat (lh_n h) \<and> lh_block h ! log_slot h v = v"
    and "v \<notin> set (take (nat (lh_n h)) (lh_block h)) \<Longrightarrow> log_slot h v = nat (lh_n h)"
proof -
  let ?xs = "take (nat (lh_n h)) (lh_block h)"
  show "log_slot h v < nat (lh_n h) \<and> lh_block h ! log_slot h v = v" if "v \<in> set ?xs"
  proof (cases "scan (\<lambda>x. x = v) ?xs")
    case None
    then show ?thesis using that by (auto simp: scan_from_None)
  next
    case (Some j)
    then show ?thesis using scan_SomeD [OF Some] by (auto simp: log_slot_def)
  qed
  have "scan (\<lambda>x. x = v) ?xs = None" if "v \<notin> set ?xs" using that by (auto simp: scan_from_None)
  then show "log_slot h v = nat (lh_n h)" if "v \<notin> set ?xs" using that by (simp add: log_slot_def)
qed

lemma log_added_step:
  assumes "0 \<le> lh_n h" "nat (lh_n h) \<le> length (lh_block h)"
  shows "(let h1 = h\<lparr>lh_block := (lh_block h)[log_slot h v := v]\<rparr>
      in if int (log_slot h v) = lh_n h1 then h1\<lparr>lh_n := lh_n h1 + 1\<rparr> else h1) = log_added v h"
proof (cases "v \<in> set (take (nat (lh_n h)) (lh_block h))")
  case True
  note s = log_slot_cases(1) [OF assms(2) True]
  then have "(lh_block h)[log_slot h v := v] = lh_block h" by (metis list_update_id)
  moreover have "int (log_slot h v) \<noteq> lh_n h" using s by linarith
  ultimately show ?thesis using True by (simp add: log_added_def Let_def)
next
  case False
  then show ?thesis using log_slot_cases(2) [OF assms(2) False] assms(1) by (simp add: log_added_def Let_def)
qed

lemma take_added: "n < length xs \<Longrightarrow> take (Suc n) (xs[n := v]) = take n xs @ [v]"
  by (simp add: take_Suc_conv_app_nth)

lemma hblk_logged:
  assumes "nat (lh_n (lg_lh l)) \<le> length (lh_block (lg_lh l))"
  shows "hblk l ` set (logged l) = of_int ` set (take (nat (lh_n (lg_lh l))) (lh_block (lg_lh l)))"
proof -
  have "take (nat (lh_n (lg_lh l))) (lh_block (lg_lh l)) = map ((!) (lh_block (lg_lh l))) [0..<nat (lh_n (lg_lh l))]"
    using assms by (intro nth_equalityI) simp_all
  then show ?thesis by (simp add: hblk_def logged_def image_image)
qed

lemma log_added_fits:
  assumes f: "log_fits l dsz" and h: "hdr_fits l dsz" and n: "lh_n (lg_lh l) < lg_size l - 1" "lg_size l \<le> int LOGSIZE"
    and v: "0 \<le> v" "v < dsz" "\<not> in_log l v"
  defines "l' \<equiv> l\<lparr>lg_lh := log_added v (lg_lh l)\<rparr>"
  shows "hdr_fits l' dsz" "log_fits l' dsz" "hblk l' ` set (logged l') = insert (of_int v) (hblk l ` set (logged l))"
    "lh_n (lg_lh l') < lg_size l"
proof -
  define N where "N = nat (lh_n (lg_lh l))"
  define xs where "xs = lh_block (lg_lh l)"
  have h': "length xs = LOGSIZE" "0 \<le> lh_n (lg_lh l)" "lh_n (lg_lh l) \<le> int LOGSIZE" "distinct (take N xs)"
    "\<forall>j < N. 0 \<le> xs ! j \<and> xs ! j < dsz \<and> \<not> in_log l (xs ! j)"
    using h by (simp_all add: hdr_fits_def Let_def N_def xs_def)
  have NL: "N < LOGSIZE" using n h'(2) by (simp add: N_def)
  have fl: "log_fits l' dsz" "in_log l' = in_log l" using f by (simp_all add: l'_def log_fits_def in_log_def fun_eq_iff)
  show "log_fits l' dsz" by (rule fl)
  show "lh_n (lg_lh l') < lg_size l" using n by (simp add: l'_def log_added_def)
  have e: "hblk l ` set (logged l) = of_int ` set (take N xs)"
    using hblk_logged [of l] NL h'(1) by (simp add: xs_def N_def)
  show "hdr_fits l' dsz" "hblk l' ` set (logged l') = insert (of_int v) (hblk l ` set (logged l))"
  proof -
    show "hdr_fits l' dsz"
    proof (cases "v \<in> set (take N xs)")
      case True
      then have "l' = l" by (simp add: l'_def log_added_def N_def xs_def)
      then show ?thesis using h by simp
    next
      case False
      then have "distinct (take N xs @ [v])" using h'(4) by simp
      moreover have "nat (lh_n (lg_lh l) + 1) = Suc N" using h'(2) by (simp add: N_def nat_add_distrib)
      moreover have "0 \<le> xs[N := v] ! j \<and> xs[N := v] ! j < dsz \<and> \<not> in_log l (xs[N := v] ! j)" if "j < Suc N" for j
        using that h'(1,5) v NL by (cases "j = N") auto
      ultimately show ?thesis
        using False h' n NL by (simp add: hdr_fits_def Let_def fl(2)) (simp add: l'_def log_added_def N_def [symmetric] xs_def [symmetric] take_added)
    qed
    show "hblk l' ` set (logged l') = insert (of_int v) (hblk l ` set (logged l))"
    proof (cases "v \<in> set (take N xs)")
      case True
      then have "l' = l" by (simp add: l'_def log_added_def N_def xs_def)
      then show ?thesis using True e by auto
    next
      case False
      then have l': "lh_block (lg_lh l') = xs[N := v]" "nat (lh_n (lg_lh l')) = Suc N"
        using h'(2) by (simp_all add: l'_def log_added_def N_def xs_def nat_add_distrib)
      have "hblk l' ` set (logged l') = of_int ` set (take (Suc N) (xs[N := v]))"
        using hblk_logged [of l'] NL h'(1) unfolding l' by simp
      then show ?thesis using e NL h'(1) by (simp add: take_added)
    qed
  qed
qed

lemma log_write_ok:
  assumes ok: "bc_ok H i s" and b: "b \<in> H" and c: "to_commit (the_log s) s"
    and n: "lh_n (lg_lh (the_log s)) < lg_size (the_log s) - 1" "lg_size (the_log s) \<le> int LOGSIZE"
    and out: "1 \<le> lg_outstanding (the_log s)" and bn: "\<not> in_log (the_log s) (uint (b_blockno (buf_at b s)))"
  shows "\<exists>t. log_write b s = Done () t \<and> bc_ok H i t \<and> to_commit (the_log t) t \<and> content (kern t) = content (kern s) \<and>
    dirty_blks (kern t) = insert (b_blockno (buf_at b s)) (dirty_blks (kern s)) \<and> disk_log (kern t) = disk_log (kern s) \<and>
    the_log t = (the_log s)\<lparr>lg_lh := log_added (uint (b_blockno (buf_at b s))) (lg_lh (the_log s))\<rparr>"
proof -
  define l where "l = the_log s"
  define v where "v = uint (b_blockno (buf_at b s))"
  note D = bc_okD [OF ok] and C = to_commitD [OF c, folded l_def] and hs = held_state [OF ok b]
  have dsz: "disksize (kern s) \<le> 2 ^ 31" using C(1) by (simp add: log_fits_def)
  have v0: "0 \<le> v" by (simp add: v_def)
  then have "- (2 ^ 31) \<le> v" by simp
  moreover have "v < 2 ^ 31" using hs(4) dsz by (simp add: v_def)
  ultimately have "signed_take_bit 31 v = v" by (rule signed_take_bit_int_eq_self)
  then have sv: "sint (b_blockno (buf_at b s)) = v" by (simp add: v_def sint_uint)
  define l' where "l' = l\<lparr>lg_lh := log_added v (lg_lh l)\<rparr>"
  have v: "0 \<le> v" "v < disksize (kern s)" "\<not> in_log l v" using hs(4) bn by (simp_all add: v_def l_def)
  note F = log_added_fits [OF C(1,2) n [folded l_def] v, folded l'_def]
  have h: "0 \<le> lh_n (lg_lh l)" "nat (lh_n (lg_lh l)) \<le> length (lh_block (lg_lh l))"
    using C(2) by (auto simp: hdr_fits_def Let_def)
  define s1 where "s1 = upd_log (\<lambda>_. l') s"
  define t where "t = upd_buf b (\<lambda>_. (buf_at b s)\<lparr>b_dirty := True\<rparr>) s1"
  have ok1: "bc_ok H i s1" using ok by (simp add: s1_def)
  have b1: "buf_at b s1 = buf_at b s" by (simp add: s1_def)
  have t: "bc_ok H i t" "content (kern t) = content (kern s)"
      "dirty_blks (kern t) = insert (b_blockno (buf_at b s)) (dirty_blks (kern s))"
    using bc_ok_upd_held [OF ok1 b, of "(buf_at b s)\<lparr>b_dirty := True\<rparr>"] hs b1
    by (auto simp: t_def s1_def holds_blk_def fun_upd_idem)
  have kt: "the_log t = l'" "disksize (kern t) = disksize (kern s)" "disk_log (kern t) = disk_log (kern s)"
    by (simp_all add: t_def s1_def upd_buf_def the_log_def upd_log_def)
  have "to_commit l' t"
    using F C(3) t(3) kt(2) n(2) v_def by (auto simp: to_commit_def l_def param_defs)
  moreover have "log_write b s = Done () t"
  proof -
    have u: "(if int (log_slot (lg_lh l) v) = lh_n (lg_lh (the_log (upd_lh (\<lambda>h. h\<lparr>lh_block := (lh_block h)[log_slot (lg_lh l) v := v]\<rparr>) (acq Log_lk s))))
        then upd_lh (\<lambda>h. h\<lparr>lh_n := lh_n h + 1\<rparr>) (upd_lh (\<lambda>h. h\<lparr>lh_block := (lh_block h)[log_slot (lg_lh l) v := v]\<rparr>) (acq Log_lk s))
        else upd_lh (\<lambda>h. h\<lparr>lh_block := (lh_block h)[log_slot (lg_lh l) v := v]\<rparr>) (acq Log_lk s)) = upd_log (\<lambda>_. l') (acq Log_lk s)"
      unfolding l'_def using log_added_step [OF h, of v]
      by (intro machine.equality) (simp_all add: upd_lh_def upd_log_def the_log_def l_def Let_def split: if_splits)
    have r: "release Log_lk (upd_buf b (\<lambda>x. x\<lparr>b_dirty := True\<rparr>) (upd_log (\<lambda>_. l') (acq Log_lk s))) = Done () t"
      using calm_section(3) [OF D(1)] by (subst upd_buf_const) (simp add: upd_buf_def upd_log_def t_def s1_def buf_at_def)
    have ba: "buf_at b (acq Log_lk s) = buf_at b s" "the_log (acq Log_lk s) = l" by (simp_all add: buf_at_def the_log_def l_def)
    show ?thesis
      using n out unfolding log_write_def calm_section(1) [OF D(1)] bindK.simps Let_def ba sv u r by (auto simp: l_def)
  qed
  ultimately show ?thesis using t kt by (intro exI [of _ t]) (simp add: l'_def l_def v_def)
qed

section \<open>Starting an operation\<close>

lemma begin_op_calm:
  assumes c: "calm s" and r: "running i s"
  shows "begin_op s =
    (if lg_committing (the_log s) \<or> lh_n (lg_lh (the_log s)) + (lg_outstanding (the_log s) + 1) * int MAXOPBLOCKS > int LOGSIZE
     then Switch (upd_kern (asleep_on i Log_ch) (acq Ptable_lk s))
     else Done () (upd_log (\<lambda>l. l\<lparr>lg_outstanding := lg_outstanding l + 1\<rparr>) s))"
proof -
  have sl: "sleep Log_ch (Some Log_lk) (acq Log_lk s) = Switch (upd_kern (asleep_on i Log_ch) (acq Ptable_lk s))"
    using sleep_inside [OF c r, of Log_lk "\<lambda>k. k"] by (simp add: asleep_on_def)
  have re: "release Log_lk (upd_log f (acq Log_lk s)) = Done () (upd_log f s)" for f
    using calm_section(3) [OF c] by (simp add: upd_log_def)
  have "the_log (acq Log_lk s) = the_log s" by (simp add: the_log_def)
  then show ?thesis by (simp add: begin_op_def begin_op_loop_def calm_section(1) [OF c] sl re)
qed

section \<open>The last operation commits\<close>

lemma committed_content:
  assumes ok: "bc_ok {} i s" and c: "to_commit l s" and okt: "bc_ok {} i t" and d: "dirty_blks (kern t) = {}"
    and w: "wrote (commit_writes l (content (kern s))) s t" and n: "\<not> in_log l (uint n)"
  shows "content (kern t) n = content (kern s) n" "dblk (memdisk (kern t)) (unat n) = content (kern s) n"
proof -
  note C = to_commitD [OF c]
  define c where "c = content (kern s)"
  define LW where "LW = log_writes l c (logged l) @ [(unat (start_blk l), commit_head l c)]"
  define CL where "CL = [(unat (start_blk l), clear_head l (commit_head l c))]"
  have cl: "\<forall>n. length (c n) = BSIZE" using content_length [OF ok] by (simp add: c_def)
  have cc: "\<forall>n. n \<notin> hblk l ` set (logged l) \<longrightarrow> c n = dblk (memdisk (kern s)) (unat n)"
    using clean_content [OF ok] C(3) by (simp add: c_def)
  have lc: "length (commit_head l c) = BSIZE" using length_header C(7) cl by (simp add: commit_head_def)
  note li = log_writes_in [OF C(1,2)]
  have a: "blk_sized LW" "blk_sized CL" "fst ` set CL \<subseteq> unat ` log_blks l"
    using cl lc hdr_clear(2) [OF lc] li(2) by (auto simp: blk_sized_def LW_def CL_def log_writes_def)
  have e: "fst ` set LW \<subseteq> unat ` (log_blks l \<union> hblk l ` set (logged l))"
    using li(1) [of c] li(2) unfolding LW_def set_append image_Un by auto
  have "commit_writes l c = LW @ install_writes l c @ CL" by (simp add: commit_writes_def LW_def CL_def)
  then show dk: "dblk (memdisk (kern t)) (unat n) = content (kern s) n"
    using installed_view [OF cl cc a(1) e a(2,3), of n] n w by (simp add: wrote_def log_blks_def c_def)
  show "content (kern t) n = content (kern s) n" using clean_content [OF okt, of n] d dk by simp
qed

lemma commit_total:
  assumes ok: "bc_ok {} i s" and c: "to_commit (the_log s) s"
  shows "\<exists>t. commit s = Done () t \<and> bc_ok {} i t \<and> dirty_blks (kern t) = {} \<and>
    the_log t = (the_log s)\<lparr>lg_lh := (lg_lh (the_log s))\<lparr>lh_n := 0\<rparr>\<rparr> \<and>
    (\<forall>n. \<not> in_log (the_log s) (uint n) \<longrightarrow> content (kern t) n = content (kern s) n \<and> dblk (memdisk (kern t)) (unat n) = content (kern s) n)"
proof (cases "0 < lh_n (lg_lh (the_log s))")
  case True
  then obtain t where t: "commit s = Done () t" "bc_ok {} i t" "dirty_blks (kern t) = {}"
      "the_log t = (the_log s)\<lparr>lg_lh := (lg_lh (the_log s))\<lparr>lh_n := 0\<rparr>\<rparr>" "wrote (commit_writes (the_log s) (content (kern s))) s t"
    using commit_ok [OF ok refl True c] by blast
  then show ?thesis using committed_content [OF ok c t(2,3,5)] by blast
next
  case False
  have z: "lh_n (lg_lh (the_log s)) = 0" using False to_commitD(2) [OF c] by (simp add: hdr_fits_def Let_def)
  then have d: "dirty_blks (kern s) = {}" using to_commitD(3) [OF c] by (simp add: logged_def)
  have "the_log s = (the_log s)\<lparr>lg_lh := (lg_lh (the_log s))\<lparr>lh_n := 0\<rparr>\<rparr>" using z by (cases "the_log s"; cases "lg_lh (the_log s)") simp
  then show ?thesis using z d ok clean_content [OF ok] by (simp add: commit_def)
qed

lemma upd_log_twice [simp]: "upd_log f (upd_log g s) = upd_log (\<lambda>l. f (g l)) s"
  by (simp add: upd_log_def)

lemma end_op_last:
  assumes ok: "bc_ok {} i s" and c: "to_commit (the_log s) s" and l: "lg_outstanding (the_log s) = 1" "\<not> lg_committing (the_log s)"
  shows "\<exists>t. end_op s = Done () t \<and> calm t \<and> dirty_blks (kern t) = {} \<and> lh_n (lg_lh (the_log t)) = 0 \<and>
    lg_outstanding (the_log t) = 0 \<and> \<not> lg_committing (the_log t) \<and>
    (\<forall>n. \<not> in_log (the_log s) (uint n) \<longrightarrow> content (kern t) n = content (kern s) n \<and> dblk (memdisk (kern t)) (unat n) = content (kern s) n)"
proof -
  note D = bc_okD [OF ok]
  define f where "f = (\<lambda>l :: log. l\<lparr>lg_outstanding := lg_outstanding l - 1, lg_committing := True\<rparr>)"
  define s1 where "s1 = upd_log f s"
  have l1: "the_log s1 = f (the_log s)" by (simp add: s1_def)
  have ok1: "bc_ok {} i s1" using ok by (simp add: s1_def)
  have fr: "lblk (f (the_log s)) = lblk (the_log s)" "hblk (f (the_log s)) = hblk (the_log s)" "logged (f (the_log s)) = logged (the_log s)"
    by (simp_all add: f_def lblk_def hblk_def logged_def fun_eq_iff)
  have "to_commit (the_log s1) s1"
    using c unfolding l1 by (simp add: to_commit_def fr) (simp add: s1_def log_fits_def hdr_fits_def in_log_def f_def Let_def)
  then obtain t where t: "commit s1 = Done () t" "bc_ok {} i t" "dirty_blks (kern t) = {}"
      "the_log t = (f (the_log s))\<lparr>lg_lh := (lg_lh (the_log s))\<lparr>lh_n := 0\<rparr>\<rparr>"
      "\<forall>n. \<not> in_log (the_log s) (uint n) \<longrightarrow> content (kern t) n = content (kern s) n \<and> dblk (memdisk (kern t)) (unat n) = content (kern s) n"
    using commit_total [OF ok1] unfolding l1 by (auto simp: f_def in_log_def s1_def)
  define u where "u = upd_kern (\<lambda>k. wake_on Log_ch (k\<lparr>klog := (klog k)\<lparr>lg_committing := False\<rparr>\<rparr>)) t"
  have ct: "calm t" using bc_okD(1) [OF t(2)] .
  have r1: "release Log_lk (upd_log g (acq Log_lk s)) = Done () (upd_log g s)" for g
    using calm_section(3) [OF D(1)] by (simp add: upd_log_def)
  have la: "the_log (acq Log_lk s) = the_log s" by (simp add: the_log_def)
  have w: "wakeup Log_ch (upd_log (\<lambda>l. l\<lparr>lg_committing := False\<rparr>) (acq Log_lk t)) =
      Done () (upd_kern (\<lambda>k. wake_on Log_ch (k\<lparr>klog := (klog k)\<lparr>lg_committing := False\<rparr>\<rparr>)) (acq Log_lk t))"
    unfolding upd_log_def using wakeup_inside [OF ct, of Log_lk Log_ch "\<lambda>k. k\<lparr>klog := (klog k)\<lparr>lg_committing := False\<rparr>\<rparr>"]
    by (simp add: wake_on_def)
  have "end_op s = Done () u"
    unfolding end_op_def calm_section(1) [OF D(1)] bindK.simps Let_def
    using l t(1) r1 [of f] w calm_section(1) [OF ct] calm_section(3) [OF ct]
    by (simp add: la s1_def f_def u_def)
  moreover have "content (kern u) = content (kern t)" "dirty_blks (kern u) = dirty_blks (kern t)" "memdisk (kern u) = memdisk (kern t)"
    by (auto simp: u_def content_def dirty_blks_def wake_on_def fun_eq_iff split: option.split)
  moreover have "the_log u = (the_log t)\<lparr>lg_committing := False\<rparr>" by (simp add: u_def the_log_def wake_on_def)
  ultimately show ?thesis using t ct l by (intro exI [of _ u]) (simp add: f_def u_def)
qed

end
