(* ===== verification/Sample.thy ===== *)
theory Sample
  imports Proc_Life Log_Correct
begin

text \<open>
  The kernel's data as the loader leaves it, all zero, and machines built from it on which the
  properties of the later theories are evaluated.
\<close>

definition zero_proc :: proc where
  "zero_proc = \<lparr>p_sz = 0, p_pgdir = 0, p_kstack = 0, p_state = UNUSED, p_pid = 0, p_parent = None, p_tf = 0,
     p_context = 0, p_chan = None, p_killed = False, p_ofile = replicate NOFILE None, p_cwd = None,
     p_name = replicate 16 0\<rparr>"

definition zero_buf :: buf where
  "zero_buf = \<lparr>b_valid = False, b_dirty = False, b_dev = 0, b_blockno = 0, b_refcnt = 0, b_prev = 0, b_next = 0,
     b_data = replicate BSIZE 0\<rparr>"

definition zero_log :: log where
  "zero_log = \<lparr>lg_start = 0, lg_size = 0, lg_outstanding = 0, lg_committing = False, lg_dev = 0,
     lg_lh = \<lparr>lh_n = 0, lh_block = replicate LOGSIZE 0\<rparr>\<rparr>"

definition zero_sb :: superblock where
  "zero_sb = \<lparr>sb_size = 0, sb_nblocks = 0, sb_ninodes = 0, sb_nlog = 0, sb_logstart = 0, sb_inodestart = 0, sb_bmapstart = 0\<rparr>"

definition zero_inode :: inode where
  "zero_inode = \<lparr>i_dev = 0, i_inum = 0, i_ref = 0, i_valid = False, i_type = 0, i_major = 0, i_minor = 0, i_nlink = 0,
     i_size = 0, i_addrs = replicate (Suc NDIRECT) 0\<rparr>"

definition zero_seg :: segdesc where
  "zero_seg = \<lparr>lim_15_0 = 0, base_15_0 = 0, base_23_16 = 0, seg_type = 0, seg_s = 0, seg_dpl = 0, seg_p = 0,
     lim_19_16 = 0, seg_avl = 0, seg_rsv1 = 0, seg_db = 0, seg_g = 0, base_31_24 = 0\<rparr>"

definition zero_file :: xfile where
  "zero_file = \<lparr>f_type = FD_NONE, f_ref = 0, f_readable = False, f_writable = False, f_pipe = 0, f_ip = None, f_off = 0\<rparr>"

definition zero_kern :: lifek where
  "zero_kern = \<lparr>use_lock = False, freelist = 0, mem = (\<lambda>_. 0), end_sym = 0x80200000,
     data_sym = 0x80108000, ts_addr = (\<lambda>_. 0), kpgdir = 0, cr3 = (\<lambda>_. 0), gdt = (\<lambda>_ _. zero_seg), gdtr = (\<lambda>_. None),
     ts = (\<lambda>_. \<lparr>esp0 = 0, ss0 = 0, iomb = 0\<rparr>), tr = (\<lambda>_. 0),
     ptable = replicate NPROC zero_proc, nextpid = 1, initproc = None, forkret_sym = 0x80103000, trapret_sym = 0x80105000,
     sleeplocks = (\<lambda>_. \<lparr>slocked = False, slname = [], slpid = 0\<rparr>),
     bufs = replicate (Suc NBUF) zero_buf, memdisk = (\<lambda>_. 0), disksize = 0, disk_log = [],
     klog = zero_log, the_sb = zero_sb, icache = replicate NINODE zero_inode,
     panicked = False, cons_locking = False, uart_on = False, uart_out = [], crt = (\<lambda>_. 0), cursor = 0,
     in_buf = replicate 128 0, in_r = 0, in_w = 0, in_e = 0,
     devsw = replicate NDEV \<lparr>d_read = None, d_write = None\<rparr>,
     ftable = replicate NFILE zero_file, pipes = (\<lambda>_. None),
     forkret_first = True, initcode_start = 0, initcode_size = 0, ticks = 0, trace = 0\<rparr>"

section \<open>A ring of buffers\<close>

definition ring :: "(nat \<Rightarrow> buf) \<Rightarrow> buf list" where
  "ring g = map (\<lambda>b. (g b)\<lparr>b_next := if b = NBUF then 0 else Suc b, b_prev := if b = 0 then NBUF else b - 1\<rparr>) [0..<Suc NBUF]"

lemma ring_nth: "b < Suc NBUF \<Longrightarrow> ring g ! b =
    (g b)\<lparr>b_next := if b = NBUF then 0 else Suc b, b_prev := if b = 0 then NBUF else b - 1\<rparr>"
  by (simp add: ring_def del: upt_Suc)

lemma linked_ring: "linked (ring g) [0..<NBUF]"
proof -
  have N: "NBUF = 30" by (simp add: param_defs)
  define xs where "xs = NBUF # [0..<NBUF] @ [NBUF]"
  have nth: "xs ! i = (if i = 0 then NBUF else i - 1)" if "i < length xs" for i
    using that by (cases i) (auto simp: xs_def nth_append)
  have "chain (\<lambda>b. b_next (ring g ! b)) (\<lambda>b. b_prev (ring g ! b)) xs"
    unfolding chain_def successively_conv_nth
  proof (intro allI impI)
    fix i assume i: "Suc i < length xs"
    then have "i \<le> NBUF" by (simp add: xs_def)
    then show "b_next (ring g ! (xs ! i)) = xs ! Suc i \<and> b_prev (ring g ! (xs ! Suc i)) = xs ! i"
      using nth [OF Suc_lessD [OF i]] nth [OF i] N by (cases i) (auto simp: ring_nth)
  qed
  then show ?thesis by (auto simp: linked_def xs_def ring_def)
qed

lemma bc_ok_ring:
  assumes "bufs k = ring g" "i < length (ptable k)" "\<forall>b < NBUF. \<not> slocked (sleeplocks k (Buf_sl b))"
    and "\<forall>b < NBUF. length (b_data (g b)) = BSIZE \<and> b_refcnt (g b) = 0 \<and> (b_dirty (g b) \<longrightarrow> b_valid (g b)) \<and>
      (b_valid (g b) \<longrightarrow> b_dev (g b) = 1 \<and> uint (b_blockno (g b)) < disksize k) \<and>
      (b_valid (g b) \<and> \<not> b_dirty (g b) \<longrightarrow> b_data (g b) = dblk (memdisk k) (unat (b_blockno (g b))))"
    and "\<forall>b < NBUF. \<forall>c < NBUF. b_dev (g b) = 1 \<and> b_dev (g c) = 1 \<and> b_blockno (g b) = b_blockno (g c) \<longrightarrow> b = c"
  shows "bc_ok {} i (at_work i k)"
  using assms linked_ring [of g]
  by (auto simp: bc_ok_def running_def buf_ok_def buf_at_def ring_nth uniq_def)

end
