(* ===== verification/Log_Props.thy ===== *)
theory Log_Props
  imports Log_Ops Sample
begin

text \<open>Properties of the log: crash atomicity of a commit, transactions, and the reservation of log space.\<close>

text \<open>C2. A commit that starts with an empty header on the disk and with exactly the logged blocks dirty
  returns, and is atomic: stop the disk after any first part \<open>ws\<close> of the writes the commit makes and run
  \<^verbatim>\<open>recover_from_log\<close> after a restart on that disk. Recovery returns, clears the header, and gives every
  block outside the log its value before the transaction if the header had not been written yet
  and its value in the transaction otherwise.\<close>

theorem commit_crash_atomic:
  fixes s :: "'a logk_scheme machine"
  assumes "bc_ok {} i s" and "0 < lh_n (lg_lh (the_log s))" and "to_commit (the_log s) s"
    and "hdr_n (content (kern s) (start_blk (the_log s))) = 0"
  shows "\<exists>t. commit s = Done () t \<and>
    (\<forall>ws vs (r :: 'a logk_scheme machine). disk_log (kern t) = disk_log (kern s) @ ws @ vs \<and>
       rebooted i (replay ws (memdisk (kern s))) (disksize (kern s)) (the_log s) r \<longrightarrow>
       recovers i (the_log s) (crash_value (length ws) (the_log s) s) r)"
proof -
  obtain t where "commit s = Done () t" "wrote (commit_writes (the_log s) (content (kern s))) s t"
    using commit_ok [OF assms(1) refl assms(2,3)] by blast
  then show ?thesis
    by (intro exI [of _ t]) (auto simp: wrote_def intro!: crash_recovers [OF assms(1,3,4)])
qed

text \<open>A log at block 2 with block 50 logged and dirty in buffer 0, and the disk it is on after a restart.\<close>

definition one_logged :: log where
  "one_logged = \<lparr>lg_start = 2, lg_size = 30, lg_outstanding = 0, lg_committing = True, lg_dev = 1,
     lg_lh = \<lparr>lh_n = 1, lh_block = 50 # replicate (LOGSIZE - 1) 0\<rparr>\<rparr>"

definition buf_50 :: "nat \<Rightarrow> buf" where
  "buf_50 b = (if b = 0 then zero_buf\<lparr>b_valid := True, b_dirty := True, b_dev := 1, b_blockno := 50, b_data := replicate BSIZE 7\<rparr>
     else zero_buf)"

definition dirty_50 :: lifek where
  "dirty_50 = zero_kern\<lparr>disksize := 100, klog := one_logged, bufs := ring buf_50\<rparr>"

definition clean_start :: lifek where
  "clean_start = zero_kern\<lparr>disksize := 100, klog := zero_log\<lparr>lg_start := 2, lg_size := 30, lg_dev := 1\<rparr>, bufs := ring (\<lambda>_. zero_buf)\<rparr>"

lemma dblk_zero: "dblk (\<lambda>_. 0) n = replicate BSIZE 0"
  by (intro nth_equalityI) (simp_all add: dblk_def)

lemma clean_start: "rebooted 0 (\<lambda>_. 0) 100 one_logged (at_work 0 clean_start)"
proof -
  have "bc_ok {} 0 (at_work 0 clean_start)"
    by (rule bc_ok_ring [of _ "\<lambda>_. zero_buf"]) (simp_all add: clean_start_def zero_kern_def zero_buf_def param_defs)
  then show ?thesis
    by (auto simp: rebooted_def dirty_blks_def clean_start_def zero_kern_def holds_blk_def ring_nth zero_buf_def the_log_def
        zero_log_def one_logged_def)
qed

lemma dirty_50:
  "bc_ok {} 0 (at_work 0 dirty_50)" "to_commit one_logged (at_work 0 dirty_50)" "the_log (at_work 0 dirty_50) = one_logged"
  "hdr_n (content dirty_50 (start_blk one_logged)) = 0"
proof -
  show ok: "bc_ok {} 0 (at_work 0 dirty_50)"
    by (rule bc_ok_ring [of _ buf_50]) (auto simp: buf_50_def dirty_50_def zero_kern_def zero_buf_def param_defs)
  have k: "disksize dirty_50 = 100" by (simp add: dirty_50_def zero_kern_def)
  show "the_log (at_work 0 dirty_50) = one_logged" by (simp add: the_log_def dirty_50_def)
  have "holds_blk n (bufs dirty_50 ! b) \<and> b_dirty (bufs dirty_50 ! b) \<longleftrightarrow> b = 0 \<and> n = 50" if "b < NBUF" for b n
    using that by (auto simp: dirty_50_def zero_kern_def holds_blk_def ring_nth buf_50_def zero_buf_def)
  moreover have "0 < NBUF" by (simp add: param_defs)
  ultimately have d: "dirty_blks dirty_50 = {50}" unfolding dirty_blks_def by blast
  have "take (Suc 0) (lh_block (lg_lh one_logged)) = [50]" by (simp add: one_logged_def)
  then show "to_commit one_logged (at_work 0 dirty_50)"
    using k by (auto simp: to_commit_def d logged_def hblk_def one_logged_def log_fits_def hdr_fits_def in_log_def param_defs)
  have "content (kern (at_work 0 dirty_50)) (start_blk one_logged) = dblk (memdisk (kern (at_work 0 dirty_50))) (unat (start_blk one_logged))"
    by (rule clean_content [OF ok]) (simp_all add: d one_logged_def)
  then show "hdr_n (content dirty_50 (start_blk one_logged)) = 0"
    by (simp add: dirty_50_def zero_kern_def dblk_zero hdr_n_def get32_def BSIZE_def)
qed

theorem commit_crash_atomic_witness:
  "\<exists>t. commit (at_work 0 dirty_50) = Done () t \<and>
     recovers 0 one_logged (crash_value 0 one_logged (at_work 0 dirty_50)) (at_work 0 clean_start)"
proof -
  have n: "0 < lh_n (lg_lh (the_log (at_work 0 dirty_50)))" unfolding dirty_50(3) by (simp add: one_logged_def)
  have k: "disksize dirty_50 = 100" "memdisk dirty_50 = (\<lambda>_. 0)" by (simp_all add: dirty_50_def zero_kern_def)
  obtain t where t: "commit (at_work 0 dirty_50) = Done () t"
      "wrote (commit_writes one_logged (content dirty_50)) (at_work 0 dirty_50) t"
    using commit_ok [OF dirty_50(1) refl n] dirty_50(2,3) by auto
  then show ?thesis
    using commit_crash_atomic [OF dirty_50(1) n] dirty_50(2-4) k clean_start
    by (auto simp: wrote_def) (metis append_Nil list.size(3) replay_simps(1))
qed

section \<open>Transactions\<close>





text \<open>C16. \<^verbatim>\<open>log_write\<close> keeps the log and the cache in step: it returns with the same contents of every block and
  nothing written to the disk, with the block added to the logged blocks once and pinned as dirty, and again
  exactly the logged blocks are dirty, distinct, outside the log and no more than the log can hold.\<close>

theorem log_write_keeps_log:
  assumes "bc_ok H i s" "b \<in> H" "to_commit (the_log s) s"
    and "lh_n (lg_lh (the_log s)) < lg_size (the_log s) - 1" "lg_size (the_log s) \<le> int LOGSIZE"
    and "1 \<le> lg_outstanding (the_log s)" "\<not> in_log (the_log s) (uint (b_blockno (buf_at b s)))"
  shows "\<exists>t. log_write b s = Done () t \<and> bc_ok H i t \<and> to_commit (the_log t) t \<and> content (kern t) = content (kern s) \<and>
    dirty_blks (kern t) = insert (b_blockno (buf_at b s)) (dirty_blks (kern s)) \<and> disk_log (kern t) = disk_log (kern s) \<and>
    lh_n (lg_lh (the_log t)) = lh_n (lg_lh (the_log s)) + (if b_blockno (buf_at b s) \<in> dirty_blks (kern s) then 0 else 1)"
proof -
  define v where "v = uint (b_blockno (buf_at b s))"
  define xs where "xs = take (nat (lh_n (lg_lh (the_log s)))) (lh_block (lg_lh (the_log s)))"
  obtain t where t: "log_write b s = Done () t" "bc_ok H i t" "to_commit (the_log t) t" "content (kern t) = content (kern s)"
      "dirty_blks (kern t) = insert (b_blockno (buf_at b s)) (dirty_blks (kern s))" "disk_log (kern t) = disk_log (kern s)"
      "the_log t = (the_log s)\<lparr>lg_lh := log_added v (lg_lh (the_log s))\<rparr>"
    using log_write_ok [OF assms] by (auto simp: v_def)
  note C = to_commitD [OF assms(3)]
  have dsz: "disksize (kern s) \<le> 2 ^ 31" using C(1) by (simp add: log_fits_def)
  have "\<forall>x \<in> set xs. 0 \<le> x \<and> x < disksize (kern s)"
    using C(2) unfolding hdr_fits_def Let_def xs_def by (auto simp: in_set_conv_nth)
  then have h: "nat (lh_n (lg_lh (the_log s))) \<le> length (lh_block (lg_lh (the_log s)))" "\<forall>x \<in> set xs. 0 \<le> x \<and> x < 2 ^ 31"
    using C(2) dsz by (force simp: hdr_fits_def Let_def)+
  have "b_blockno (buf_at b s) \<in> dirty_blks (kern s) \<longleftrightarrow> b_blockno (buf_at b s) \<in> of_int ` set xs"
    using C(3) hblk_logged [OF h(1)] by (simp add: xs_def)
  also have "\<dots> \<longleftrightarrow> v \<in> set xs"
  proof
    assume "b_blockno (buf_at b s) \<in> of_int ` set xs"
    then obtain x where x: "x \<in> set xs" "b_blockno (buf_at b s) = of_int x" by auto
    then have "v = x" using h(2) uint_of_int_small [of x] by (simp add: v_def)
    then show "v \<in> set xs" using x(1) by simp
  qed (auto simp: v_def image_iff intro!: bexI [of _ v])
  finally show ?thesis using t by (intro exI [of _ t]) (simp add: log_added_def xs_def)
qed

text \<open>Buffer 1 holds block 60, locked by process 0, in an operation that has logged block 50.\<close>

definition held_60 :: "lifek machine" where
  "held_60 = at_work 0 (zero_kern\<lparr>disksize := 100, klog := one_logged\<lparr>lg_outstanding := 1, lg_committing := False\<rparr>,
     sleeplocks := (sleeplocks zero_kern)(Buf_sl 1 := \<lparr>slocked = True, slname = [], slpid = 0\<rparr>),
     bufs := ring (buf_50(1 := zero_buf\<lparr>b_valid := True, b_dev := 1, b_blockno := 60, b_refcnt := 1\<rparr>))\<rparr>)"

lemma held_60: "bc_ok {1} 0 held_60" "to_commit (the_log held_60) held_60"
  "the_log held_60 = one_logged\<lparr>lg_outstanding := 1, lg_committing := False\<rparr>" "b_blockno (buf_at 1 held_60) = 60"
proof -
  have N: "NBUF = 30" by (simp add: param_defs)
  have k: "bufs (kern held_60) = ring (buf_50(1 := zero_buf\<lparr>b_valid := True, b_dev := 1, b_blockno := 60, b_refcnt := 1\<rparr>))"
    "disksize (kern held_60) = 100" "ptable (kern held_60) = replicate 64 zero_proc" "memdisk (kern held_60) = (\<lambda>_. 0)"
    "sleeplocks (kern held_60) = (\<lambda>_. \<lparr>slocked = False, slname = [], slpid = 0\<rparr>)(Buf_sl 1 := \<lparr>slocked = True, slname = [], slpid = 0\<rparr>)"
    by (simp_all add: held_60_def zero_kern_def param_defs)
  show l: "the_log held_60 = one_logged\<lparr>lg_outstanding := 1, lg_committing := False\<rparr>" by (simp add: held_60_def the_log_def)
  show b: "b_blockno (buf_at 1 held_60) = 60" using N by (simp add: buf_at_def k ring_nth)
  show "bc_ok {1} 0 held_60"
    using linked_ring by (auto simp: bc_ok_def running_def k buf_ok_def buf_at_def ring_nth uniq_def buf_50_def zero_buf_def
        pid_of_def proc_at_def zero_proc_def N) (simp_all add: held_60_def)
  have "holds_blk n (bufs (kern held_60) ! b) \<and> b_dirty (bufs (kern held_60) ! b) \<longleftrightarrow> b = 0 \<and> n = 50" if "b < NBUF" for b n
    using that by (auto simp: k holds_blk_def ring_nth buf_50_def zero_buf_def)
  moreover have "0 < NBUF" by (simp add: N)
  ultimately have d: "dirty_blks (kern held_60) = {50}" unfolding dirty_blks_def by blast
  have "take (Suc 0) (lh_block (lg_lh one_logged)) = [50]" by (simp add: one_logged_def)
  then show "to_commit (the_log held_60) held_60"
    using k(2) unfolding l by (auto simp: to_commit_def d logged_def hblk_def one_logged_def log_fits_def hdr_fits_def in_log_def param_defs)
qed

theorem log_write_keeps_log_witness:
  "\<exists>t. log_write 1 held_60 = Done () t \<and> to_commit (the_log t) t \<and> lh_n (lg_lh (the_log t)) = 1 + (if (60 :: uint) \<in> dirty_blks (kern held_60) then 0 else 1)"
proof -
  have g: "lh_n (lg_lh (the_log held_60)) < lg_size (the_log held_60) - 1" "lg_size (the_log held_60) \<le> int LOGSIZE"
    "1 \<le> lg_outstanding (the_log held_60)" "\<not> in_log (the_log held_60) (uint (b_blockno (buf_at 1 held_60)))"
    unfolding held_60(3,4) by (simp_all add: one_logged_def param_defs in_log_def)
  have "lh_n (lg_lh (the_log held_60)) = 1" unfolding held_60(3) by (simp add: one_logged_def)
  then show ?thesis using log_write_keeps_log [OF held_60(1) _ held_60(2) g] unfolding held_60(4) by auto
qed

section \<open>Reserving log space\<close>





end
