(* ===== verification/Sync_Props.thy ===== *)
theory Sync_Props
  imports Sleep_Wake Sample
begin

text \<open>Properties of sleeping and waking.\<close>




end
