(* ===== verification/Pipe_Queue.thy ===== *)
theory Pipe_Queue
  imports File Sleep_Wake
begin

text \<open>
  A pipe is a bounded queue. \<open>bounded_queue\<close> is the contract of a queue with a capacity;
  the ring of \<^verbatim>\<open>struct pipe\<close>, with its counters that wrap around at 32 bits, is an instance.
\<close>

section \<open>The contract\<close>

locale bounded_queue =
  fixes inv :: "'q \<Rightarrow> bool" and abs :: "'q \<Rightarrow> 'c list" and cap :: nat
    and put :: "'c \<Rightarrow> 'q \<Rightarrow> 'q" and get :: "'q \<Rightarrow> 'c \<times> 'q" and full :: "'q \<Rightarrow> bool" and empty :: "'q \<Rightarrow> bool"
  assumes full_iff: "inv q \<Longrightarrow> full q \<longleftrightarrow> length (abs q) = cap"
    and empty_iff: "inv q \<Longrightarrow> empty q \<longleftrightarrow> abs q = []"
    and within: "inv q \<Longrightarrow> length (abs q) \<le> cap"
    and put_law: "inv q \<Longrightarrow> \<not> full q \<Longrightarrow> inv (put c q) \<and> abs (put c q) = abs q @ [c]"
    and get_law: "inv q \<Longrightarrow> \<not> empty q \<Longrightarrow> inv (snd (get q)) \<and> abs q = fst (get q) # abs (snd (get q))"
begin

fun put_all :: "'c list \<Rightarrow> 'q \<Rightarrow> 'q" where
  "put_all [] q = q"
| "put_all (c # cs) q = put_all cs (put c q)"

fun get_n :: "nat \<Rightarrow> 'q \<Rightarrow> 'c list \<times> 'q" where
  "get_n 0 q = ([], q)"
| "get_n (Suc n) q = (if empty q then ([], q)
     else let (c, q') = get q; (cs, q'') = get_n n q' in (c # cs, q''))"

lemma put_all_law:
  "inv q \<Longrightarrow> length (abs q) + length cs \<le> cap \<Longrightarrow> inv (put_all cs q) \<and> abs (put_all cs q) = abs q @ cs"
proof (induction cs arbitrary: q)
  case (Cons c cs)
  then have "\<not> full q" using full_iff [of q] by simp
  then show ?case using Cons.IH [of "put c q"] Cons.prems put_law [of q c] by simp
qed simp

lemma get_n_law:
  "inv q \<Longrightarrow> fst (get_n n q) = take n (abs q) \<and> abs (snd (get_n n q)) = drop n (abs q) \<and> inv (snd (get_n n q))"
proof (induction n arbitrary: q)
  case (Suc n)
  show ?case
  proof (cases "empty q")
    case True
    then have "abs q = []" using empty_iff [OF Suc.prems] by blast
    then show ?thesis using True Suc.prems by simp
  next
    case False
    obtain c q' where g: "get q = (c, q')" by fastforce
    then have "inv q'" "abs q = c # abs q'" using get_law [OF Suc.prems False] by simp_all
    then show ?thesis using Suc.IH [of q'] False g by (simp add: case_prod_beta)
  qed
qed simp

lemma take_what_was_put:
  assumes "inv q" "length (abs q) + length cs \<le> cap"
  shows "fst (get_n (length (abs q) + length cs) (put_all cs q)) = abs q @ cs"
  using get_n_law put_all_law [OF assms] by simp

end

section \<open>The ring of a pipe\<close>

definition pipe_inv :: "pipe \<Rightarrow> bool" where
  "pipe_inv q \<longleftrightarrow> length (pi_data q) = PIPESIZE \<and> unat (pi_nwrite q - pi_nread q) \<le> PIPESIZE"

definition pipe_abs :: "pipe \<Rightarrow> bytes" where
  "pipe_abs q = map (\<lambda>j. pi_data q ! (unat (pi_nread q + of_nat j) mod PIPESIZE)) [0..<unat (pi_nwrite q - pi_nread q)]"

definition pipe_empty :: "pipe \<Rightarrow> bool" where
  "pipe_empty q \<longleftrightarrow> pi_nread q = pi_nwrite q"

lemma ring_index: "unat ((a :: uint) + of_nat j) mod PIPESIZE = (unat a + j) mod PIPESIZE"
proof -
  have "unat (a + of_nat j) = (unat a + j) mod 2 ^ 32"
    by (simp add: unat_word_ariths unat_of_nat mod_add_right_eq take_bit_eq_mod)
  moreover have "PIPESIZE dvd 2 ^ 32" by (simp add: PIPESIZE_def)
  ultimately show ?thesis by (simp only: mod_mod_cancel)
qed

lemma pipe_abs_alt:
  "pipe_abs q = map (\<lambda>j. pi_data q ! ((unat (pi_nread q) + j) mod PIPESIZE)) [0..<unat (pi_nwrite q - pi_nread q)]"
  by (simp add: pipe_abs_def ring_index)

lemma length_pipe_abs [simp]: "length (pipe_abs q) = unat (pi_nwrite q - pi_nread q)"
  by (simp add: pipe_abs_def)

lemma unat_diff_Suc: "unat ((a :: uint) - b) < 2 ^ 32 - 1 \<Longrightarrow> unat (a + 1 - b) = Suc (unat (a - b))"
proof -
  assume "unat (a - b) < 2 ^ 32 - 1"
  then have "unat ((a - b) + 1) = unat (a - b) + unat (1 :: uint)" by (intro unat_add_small) simp
  moreover have e: "a + 1 - b = (a - b) + 1" by (simp add: algebra_simps)
  ultimately show ?thesis unfolding e by simp
qed

lemma mod_distinct:
  assumes "(a + j) mod (n :: nat) = (a + k) mod n" "j < n" "k < n"
  shows "j = k"
proof (cases "j \<le> k")
  case True
  then have "n dvd k - j" using assms(1) mod_eq_dvd_iff_nat [of "a + j" "a + k" n] by simp
  then show ?thesis using assms True by (auto dest: dvd_imp_le)
next
  case False
  then have "n dvd j - k" using assms(1) mod_eq_dvd_iff_nat [of "a + k" "a + j" n] by simp
  then show ?thesis using assms False by (auto dest: dvd_imp_le)
qed

lemma pipe_put_law:
  assumes q: "pipe_inv q" and nf: "\<not> pipe_full q"
  shows "pipe_inv (pipe_put c q) \<and> pipe_abs (pipe_put c q) = pipe_abs q @ [c]"
proof -
  define n where "n = unat (pi_nwrite q - pi_nread q)"
  have "n \<noteq> PIPESIZE"
  proof
    assume "n = PIPESIZE"
    then have "pi_nwrite q - pi_nread q = of_nat PIPESIZE" by (simp add: n_def word_unat_eq_iff PIPESIZE_def)
    then have "pi_nwrite q = pi_nread q + of_nat PIPESIZE" by (simp add: diff_eq_eq)
    then show False using nf by (simp add: pipe_full_def)
  qed
  then have n: "n < PIPESIZE" using q by (simp add: pipe_inv_def n_def)
  then have s: "unat (pi_nwrite q + 1 - pi_nread q) = Suc n" unfolding n_def
    by (intro unat_diff_Suc) (simp add: PIPESIZE_def)
  have w: "unat (pi_nwrite q) mod PIPESIZE = (unat (pi_nread q) + n) mod PIPESIZE"
    using ring_index [of "pi_nread q" n] by (simp add: n_def)
  have ne: "(unat (pi_nread q) + n) mod PIPESIZE \<noteq> (unat (pi_nread q) + j) mod PIPESIZE" if "j < n" for j
    using mod_distinct [of "unat (pi_nread q)" n PIPESIZE j] that n by auto
  have lt: "(unat (pi_nread q) + n) mod PIPESIZE < PIPESIZE" by (simp add: PIPESIZE_def)
  have "pipe_abs (pipe_put c q) = pipe_abs q @ [c]"
    using q lt ne by (simp add: pipe_abs_alt pipe_put_def s w n_def [symmetric] pipe_inv_def)
  then show ?thesis using q s n by (simp add: pipe_inv_def pipe_put_def)
qed

lemma pipe_get_law:
  assumes q: "pipe_inv q" and ne: "\<not> pipe_empty q"
  shows "pipe_inv (snd (pipe_get q)) \<and> pipe_abs q = fst (pipe_get q) # pipe_abs (snd (pipe_get q))"
proof -
  define n where "n = unat (pi_nwrite q - (pi_nread q + 1))"
  have nz: "pi_nwrite q - pi_nread q \<noteq> 0" "0 < unat (pi_nwrite q - pi_nread q)"
    using ne by (auto simp: pipe_empty_def unat_gt_0)
  have m: "unat (pi_nwrite q - pi_nread q) = Suc n"
    unfolding n_def diff_diff_add [symmetric] unat_minus_one [OF nz(1)] using nz(2) by simp
  have r: "(unat (pi_nread q + 1) + x) mod PIPESIZE = Suc (unat (pi_nread q) + x) mod PIPESIZE" for x
    using mod_add_cong [OF ring_index [of "pi_nread q" 1] refl, of x] by simp
  have "[0..<Suc n] = 0 # map Suc [0..<n]" by (simp add: map_Suc_upt upt_conv_Cons)
  then have "pipe_abs q = fst (pipe_get q) # pipe_abs (snd (pipe_get q))"
    using r by (simp add: pipe_abs_alt pipe_get_def m n_def [symmetric] del: upt_Suc)
  then show ?thesis using q m by (simp add: pipe_inv_def pipe_get_def n_def)
qed

interpretation pq: bounded_queue pipe_inv pipe_abs PIPESIZE pipe_put pipe_get pipe_full pipe_empty
proof
  fix q assume q: "pipe_inv q"
  show "length (pipe_abs q) \<le> PIPESIZE" using q by (simp add: pipe_inv_def)
  show "pipe_empty q \<longleftrightarrow> pipe_abs q = []"
    by (simp add: pipe_empty_def pipe_abs_def unat_eq_0 eq_commute [of "pi_nread q"])
  have "pi_nwrite q = pi_nread q + of_nat PIPESIZE \<longleftrightarrow> pi_nwrite q - pi_nread q = of_nat PIPESIZE" by (simp add: diff_eq_eq add.commute)
  also have "\<dots> \<longleftrightarrow> unat (pi_nwrite q - pi_nread q) = PIPESIZE"
    by (simp add: word_unat_eq_iff PIPESIZE_def)
  finally show "pipe_full q \<longleftrightarrow> length (pipe_abs q) = PIPESIZE" by (simp add: pipe_full_def)
  show "pipe_inv (pipe_put c q) \<and> pipe_abs (pipe_put c q) = pipe_abs q @ [c]" if "\<not> pipe_full q" for c
    by (rule pipe_put_law [OF q that])
  show "pipe_inv (snd (pipe_get q)) \<and> pipe_abs q = fst (pipe_get q) # pipe_abs (snd (pipe_get q))" if "\<not> pipe_empty q"
    by (rule pipe_get_law [OF q that])
qed

section \<open>Writing and reading\<close>

definition set_pipe :: "addr \<Rightarrow> pipe \<Rightarrow> 'a filek_scheme \<Rightarrow> 'a filek_scheme" where
  "set_pipe p q k = k\<lparr>pipes := (pipes k)(p \<mapsto> q)\<rparr>"

lemma set_pipe_simps [simp]:
  "set_pipe p q (set_pipe p q' k) = set_pipe p q k" "pipes (set_pipe p q k) p = Some q" "ptable (set_pipe p q k) = ptable k"
  by (simp_all add: set_pipe_def)

lemma upd_pipe_inside: "pipes k p = Some q \<Longrightarrow> upd_pipe p f (upd_kern (\<lambda>_. k) t) = upd_kern (\<lambda>_. set_pipe p (f q) k) t"
  by (simp add: upd_pipe_def set_pipe_def)

lemma set_pipe_same: "pipes k p = Some q \<Longrightarrow> set_pipe p q k = k"
  by (simp add: set_pipe_def fun_upd_idem)

lemma put_all_fields [simp]:
  "pi_readopen (pq.put_all cs q) = pi_readopen q" "pi_writeopen (pq.put_all cs q) = pi_writeopen q"
  by (induction cs q rule: pq.put_all.induct) (simp_all add: pipe_put_def)

lemma mykilled_in:
  "calm s \<Longrightarrow> me s = Some i \<Longrightarrow> mykilled (inside l k s) = Done (p_killed (ptable k ! i)) (inside l k s)"
  by (simp add: mykilled_def myproc_inside proc_at_def)

lemma write_fits:
  assumes c: "calm s"
  shows "pipes k p = Some q \<Longrightarrow> pipe_inv q \<Longrightarrow> length (pipe_abs q) + length cs \<le> PIPESIZE \<Longrightarrow>
    pipewrite_loop p n cs (inside (Pipe_lk p) k s) =
      Done n (upd_kern (\<lambda>_. wake_on (Pipe_nread p) (set_pipe p (pq.put_all cs q) k)) s)"
proof (induction cs arbitrary: k q)
  case Nil
  then show ?case using c by (simp add: wakeup_in release_inside set_pipe_same)
next
  case (Cons x cs)
  then have nf: "\<not> pipe_full q" using pq.full_iff [of q] by simp
  note law = pq.put_law [OF Cons.prems(2) nf, of x]
  have "length (pipe_abs (pipe_put x q)) + length cs \<le> PIPESIZE" using law Cons.prems(3) by (simp del: length_pipe_abs)
  then show ?case
    using Cons.IH [of "set_pipe p (pipe_put x q) k" "pipe_put x q"] law Cons.prems(1) nf by (simp add: upd_pipe_inside)
qed

lemma write_blocks:
  assumes c: "calm s" and r: "running i s"
  shows "pipes k p = Some q \<Longrightarrow> pipe_inv q \<Longrightarrow> PIPESIZE < length (pipe_abs q) + length cs \<Longrightarrow>
    length (ptable k) = length (ptable (kern s)) \<Longrightarrow>
    pipewrite_loop p n cs (inside (Pipe_lk p) k s) =
      (let k' = set_pipe p (pq.put_all (take (PIPESIZE - length (pipe_abs q)) cs) q) k in
       if \<not> pi_readopen q \<or> p_killed (ptable k ! i) then Done (- 1) (upd_kern (\<lambda>_. k') s)
       else Switch (inside Ptable_lk (asleep_on i (Pipe_nwrite p) (wake_on (Pipe_nread p) k')) s))"
proof (induction cs arbitrary: k q)
  case Nil
  then show ?case using pq.within [of q] by simp
next
  case (Cons x cs)
  have me: "me s = Some i" using r by (simp add: running_def)
  show ?case
  proof (cases "pipe_full q")
    case True
    then have "length (pipe_abs q) = PIPESIZE" using pq.full_iff [OF Cons.prems(2)] by blast
    then show ?thesis
      using True Cons.prems c me r
      by (simp add: mykilled_in release_inside wakeup_in sleep_in set_pipe_same wake_on_def del: length_pipe_abs)
  next
    case False
    note law = pq.put_law [OF Cons.prems(2) False, of x]
    have lt: "length (pipe_abs q) < PIPESIZE" using pq.full_iff [OF Cons.prems(2)] pq.within [OF Cons.prems(2)] False by linarith
    then obtain d where d: "PIPESIZE - length (pipe_abs q) = Suc d" by (metis Suc_diff_Suc)
    then have d': "PIPESIZE - length (pipe_abs (pipe_put x q)) = d" using law by (simp del: length_pipe_abs)
    have "PIPESIZE < length (pipe_abs (pipe_put x q)) + length cs" using law Cons.prems(3) by (simp del: length_pipe_abs)
    then show ?thesis
      using Cons.IH [of "set_pipe p (pipe_put x q) k" "pipe_put x q"] law Cons.prems(1,4) False d d'
      by (simp add: upd_pipe_inside pipe_put_def [of x q] Let_def del: length_pipe_abs)
  qed
qed

lemma read_copies:
  "pipes k p = Some q \<Longrightarrow> pipe_inv q \<Longrightarrow> piperead_copy p n acc (upd_kern (\<lambda>_. k) t) =
     Done (acc @ take n (pipe_abs q)) (upd_kern (\<lambda>_. set_pipe p (snd (pq.get_n n q)) k) t)"
proof (induction n arbitrary: k q acc)
  case 0
  then show ?case by (simp add: set_pipe_same)
next
  case (Suc n)
  have pe: "pi_nread q = pi_nwrite q \<longleftrightarrow> pipe_empty q" by (simp add: pipe_empty_def)
  show ?case
  proof (cases "pipe_empty q")
    case True
    then have "pipe_abs q = []" using pq.empty_iff [OF Suc.prems(2)] by blast
    then show ?thesis using True Suc.prems(1) by (simp add: pe set_pipe_same del: length_pipe_abs)
  next
    case False
    obtain c q' where g: "pipe_get q = (c, q')" by fastforce
    then have law: "pipe_inv q'" "pipe_abs q = c # pipe_abs q'" using pq.get_law [OF Suc.prems(2) False] by simp_all
    then show ?thesis
      using Suc.IH [of "set_pipe p q' k" q' "acc @ [c]"] Suc.prems(1) False g
      by (simp add: upd_pipe_inside pe case_prod_beta)
  qed
qed

lemma pipewrite_queue:
  assumes c: "calm s" and r: "running i s" and q: "pipes (kern s) p = Some q" "pipe_inv q"
  shows "length (pipe_abs q) + length bs \<le> PIPESIZE \<Longrightarrow> \<exists>q'. pipe_inv q' \<and> pipe_abs q' = pipe_abs q @ bs \<and>
      pipewrite p bs s = Done (int (length bs)) (upd_kern (\<lambda>k. wake_on (Pipe_nread p) (set_pipe p q' k)) s)"
    and "PIPESIZE < length (pipe_abs q) + length bs \<Longrightarrow> \<exists>q'. pipe_inv q' \<and> pipe_abs q' = take PIPESIZE (pipe_abs q @ bs) \<and>
      pipewrite p bs s = (if \<not> pi_readopen q \<or> p_killed (ptable (kern s) ! i) then Done (- 1) (upd_kern (set_pipe p q') s)
        else Switch (upd_kern (\<lambda>k. asleep_on i (Pipe_nwrite p) (wake_on (Pipe_nread p) (set_pipe p q' k))) (acq Ptable_lk s)))"
proof -
  assume f: "length (pipe_abs q) + length bs \<le> PIPESIZE"
  show "\<exists>q'. pipe_inv q' \<and> pipe_abs q' = pipe_abs q @ bs \<and>
      pipewrite p bs s = Done (int (length bs)) (upd_kern (\<lambda>k. wake_on (Pipe_nread p) (set_pipe p q' k)) s)"
    using write_fits [OF c q f] pq.put_all_law [OF q(2) f] c
      upd_kern_const [of "\<lambda>k. wake_on (Pipe_nread p) (set_pipe p (pq.put_all bs q) k)" s]
    by (intro exI [of _ "pq.put_all bs q"]) (simp add: pipewrite_def acq_inside del: length_pipe_abs)
next
  define cs where "cs = take (PIPESIZE - length (pipe_abs q)) bs"
  assume f: "PIPESIZE < length (pipe_abs q) + length bs"
  have "length (pipe_abs q) + length cs \<le> PIPESIZE" using pq.within [OF q(2)] by (simp add: cs_def del: length_pipe_abs)
  note law = pq.put_all_law [OF q(2) this]
  have "take PIPESIZE (pipe_abs q @ bs) = pipe_abs q @ cs" using pq.within [OF q(2)] by (simp add: cs_def)
  then show "\<exists>q'. pipe_inv q' \<and> pipe_abs q' = take PIPESIZE (pipe_abs q @ bs) \<and>
      pipewrite p bs s = (if \<not> pi_readopen q \<or> p_killed (ptable (kern s) ! i) then Done (- 1) (upd_kern (set_pipe p q') s)
        else Switch (upd_kern (\<lambda>k. asleep_on i (Pipe_nwrite p) (wake_on (Pipe_nread p) (set_pipe p q' k))) (acq Ptable_lk s)))"
    using write_blocks [OF c r q f refl] law c upd_kern_const [of "set_pipe p (pq.put_all cs q)" s]
      upd_kern_const [of "\<lambda>k. asleep_on i (Pipe_nwrite p) (wake_on (Pipe_nread p) (set_pipe p (pq.put_all cs q) k))" "acq Ptable_lk s"]
    by (intro exI [of _ "pq.put_all cs q"]) (simp add: pipewrite_def acq_inside cs_def [symmetric] Let_def del: length_pipe_abs)
qed

lemma piperead_queue:
  assumes c: "calm s" and r: "running i s" and q: "pipes (kern s) p = Some q" "pipe_inv q"
  shows "pipe_abs q = [] \<and> pi_writeopen q \<Longrightarrow> piperead p n s =
      (if p_killed (ptable (kern s) ! i) then Done (- 1, []) s
       else Switch (upd_kern (asleep_on i (Pipe_nread p)) (acq Ptable_lk s)))"
    and "\<not> (pipe_abs q = [] \<and> pi_writeopen q) \<Longrightarrow> \<exists>q'. pipe_inv q' \<and> pipe_abs q' = drop (nat n) (pipe_abs q) \<and>
      piperead p n s = Done (int (length (take (nat n) (pipe_abs q))), take (nat n) (pipe_abs q))
        (upd_kern (\<lambda>k. wake_on (Pipe_nwrite p) (set_pipe p q' k)) s)"
proof -
  have e: "pi_nread q = pi_nwrite q \<longleftrightarrow> pipe_abs q = []" using pq.empty_iff [OF q(2)] by (simp add: pipe_empty_def)
  have me: "me s = Some i" using r by (simp add: running_def)
  have k: "upd_kern (\<lambda>_. kern s) s = s" by (simp add: upd_kern_def)
  assume "pipe_abs q = [] \<and> pi_writeopen q"
  then show "piperead p n s = (if p_killed (ptable (kern s) ! i) then Done (- 1, []) s
       else Switch (upd_kern (asleep_on i (Pipe_nread p)) (acq Ptable_lk s)))"
    using q(1) c me r e upd_kern_const [of "asleep_on i (Pipe_nread p)" "acq Ptable_lk s"]
    by (simp add: piperead_def piperead_loop_def acq_inside mykilled_in release_inside sleep_in k del: length_pipe_abs)
next
  have e: "pi_nread q = pi_nwrite q \<longleftrightarrow> pipe_abs q = []" using pq.empty_iff [OF q(2)] by (simp add: pipe_empty_def)
  define q' where "q' = snd (pq.get_n (nat n) q)"
  assume ne: "\<not> (pipe_abs q = [] \<and> pi_writeopen q)"
  have "piperead p n s = Done (int (length (take (nat n) (pipe_abs q))), take (nat n) (pipe_abs q))
        (upd_kern (\<lambda>_. wake_on (Pipe_nwrite p) (set_pipe p q' (kern s))) s)"
    using ne e q c by (cases "pipe_abs q = []")
      (simp_all add: piperead_def piperead_loop_def acq_inside read_copies wakeup_in release_inside q'_def
        del: length_take length_pipe_abs)
  then show "\<exists>q'. pipe_inv q' \<and> pipe_abs q' = drop (nat n) (pipe_abs q) \<and>
      piperead p n s = Done (int (length (take (nat n) (pipe_abs q))), take (nat n) (pipe_abs q))
        (upd_kern (\<lambda>k. wake_on (Pipe_nwrite p) (set_pipe p q' k)) s)"
    using pq.get_n_law [OF q(2), of "nat n"] upd_kern_const [of "\<lambda>k. wake_on (Pipe_nwrite p) (set_pipe p q' k)" s]
    by (intro exI [of _ q']) (simp add: q'_def)
qed

end
