(* ===== verification/Pipe_Props.thy ===== *)
theory Pipe_Props
  imports Pipe_Queue Sample
begin

text \<open>Properties of pipes.\<close>

text \<open>C8. A pipe implements a queue of at most 512 bytes. A write that fits appends its bytes and wakes the
  readers; one that does not fit stores what fits and then fails (no reader left, or the writer killed) or
  wakes the readers and sleeps for room. A read of an empty pipe that can still be written sleeps (or fails
  when the reader is killed); any other read takes the first bytes, at most as many as asked for, in
  order, and wakes the writers. The counters may wrap around at 32 bits.\<close>

theorem pipe_refines_queue:
  assumes "calm s" "running i s" "pipes (kern s) p = Some q" "pipe_inv q"
  shows "(\<exists>q'. pipe_inv q' \<and> pipe_abs q' = take PIPESIZE (pipe_abs q @ bs) \<and>
      pipewrite p bs s =
        (if length (pipe_abs q @ bs) \<le> PIPESIZE
         then Done (int (length bs)) (upd_kern (\<lambda>k. wake_on (Pipe_nread p) (set_pipe p q' k)) s)
         else if \<not> pi_readopen q \<or> p_killed (ptable (kern s) ! i) then Done (- 1) (upd_kern (set_pipe p q') s)
         else Switch (upd_kern (\<lambda>k. asleep_on i (Pipe_nwrite p) (wake_on (Pipe_nread p) (set_pipe p q' k))) (acq Ptable_lk s)))) \<and>
    (if pipe_abs q = [] \<and> pi_writeopen q
     then piperead p n s = (if p_killed (ptable (kern s) ! i) then Done (- 1, []) s
        else Switch (upd_kern (asleep_on i (Pipe_nread p)) (acq Ptable_lk s)))
     else \<exists>q'. pipe_inv q' \<and> pipe_abs q' = drop (nat n) (pipe_abs q) \<and>
       piperead p n s = Done (int (length (take (nat n) (pipe_abs q))), take (nat n) (pipe_abs q))
         (upd_kern (\<lambda>k. wake_on (Pipe_nwrite p) (set_pipe p q' k)) s))"
proof (rule conjI)
  show "\<exists>q'. pipe_inv q' \<and> pipe_abs q' = take PIPESIZE (pipe_abs q @ bs) \<and>
      pipewrite p bs s =
        (if length (pipe_abs q @ bs) \<le> PIPESIZE
         then Done (int (length bs)) (upd_kern (\<lambda>k. wake_on (Pipe_nread p) (set_pipe p q' k)) s)
         else if \<not> pi_readopen q \<or> p_killed (ptable (kern s) ! i) then Done (- 1) (upd_kern (set_pipe p q') s)
         else Switch (upd_kern (\<lambda>k. asleep_on i (Pipe_nwrite p) (wake_on (Pipe_nread p) (set_pipe p q' k))) (acq Ptable_lk s)))"
  proof (cases "length (pipe_abs q) + length bs \<le> PIPESIZE")
    case True
    then show ?thesis using pipewrite_queue(1) [OF assms True] by auto
  next
    case False
    then show ?thesis using pipewrite_queue(2) [OF assms, of bs] by (simp del: length_pipe_abs)
  qed
qed (use piperead_queue [OF assms, of n] in presburger)

text \<open>A pipe whose counters are about to wrap around, with three bytes in it.\<close>

definition wrapping_pipe :: pipe where
  "wrapping_pipe = \<lparr>pi_data = replicate 510 0 @ [65, 66], pi_nread = 0xFFFFFFFE, pi_nwrite = 0, pi_readopen = True, pi_writeopen = True\<rparr>"

definition pipe_kern :: lifek where
  "pipe_kern = zero_kern\<lparr>pipes := (\<lambda>_. None)(0x80400000 \<mapsto> wrapping_pipe)\<rparr>"

lemma wrapping_pipe: "pipe_inv wrapping_pipe" "pipe_abs wrapping_pipe = [65, 66]"
proof -
  have "[0..<2] = [0, Suc 0]" by (simp add: numeral_2_eq_2)
  then show "pipe_abs wrapping_pipe = [65, 66]"
    by (simp add: wrapping_pipe_def pipe_abs_def PIPESIZE_def nth_append del: upt_rec_numeral)
  show "pipe_inv wrapping_pipe" by (simp add: wrapping_pipe_def pipe_inv_def PIPESIZE_def)
qed

lemma pipe_kern: "running 1 (at_work 1 pipe_kern)" "pipes (kern (at_work 1 pipe_kern)) 0x80400000 = Some wrapping_pipe"
  by (simp_all add: running_def pipe_kern_def zero_kern_def param_defs)

theorem pipe_refines_queue_witness:
  "(\<exists>q' t. pipe_abs q' = [65, 66, 67] \<and> pipewrite 0x80400000 [67] (at_work 1 pipe_kern) = Done 1 t \<and>
     pipes (kern t) 0x80400000 = Some q') \<and>
   (\<exists>t. piperead 0x80400000 5 (at_work 1 pipe_kern) = Done (2, [65, 66]) t)"
  using pipe_refines_queue [OF at_work(1) pipe_kern wrapping_pipe(1), of "[67]" 5] wrapping_pipe(2)
  by (auto simp: PIPESIZE_def wake_on_def)

text \<open>C23. What goes into a pipe comes out of it: after a write that fits, a read of at least as many bytes
  as the pipe then holds returns what was in the pipe followed by exactly the bytes written.\<close>

theorem pipe_write_read:
  assumes "calm s" "running i s" "pipes (kern s) p = Some q" "pipe_inv q"
    and "length (pipe_abs q) + length bs \<le> PIPESIZE" "bs \<noteq> []" "length (pipe_abs q) + length bs \<le> m"
  shows "\<exists>t u. pipewrite p bs s = Done (int (length bs)) t \<and>
    piperead p (int m) t = Done (int (length (pipe_abs q) + length bs), pipe_abs q @ bs) u"
proof -
  obtain q' where q': "pipe_inv q'" "pipe_abs q' = pipe_abs q @ bs"
      "pipewrite p bs s = Done (int (length bs)) (upd_kern (\<lambda>k. wake_on (Pipe_nread p) (set_pipe p q' k)) s)"
    using pipewrite_queue(1) [OF assms(1-5)] by blast
  define t where "t = upd_kern (\<lambda>k. wake_on (Pipe_nread p) (set_pipe p q' k)) s"
  have t: "calm t" "running i t" "pipes (kern t) p = Some q'"
    using assms(1,2) by (simp_all add: t_def running_def wake_on_def)
  have "\<not> (pipe_abs q' = [] \<and> pi_writeopen q')" using q'(2) assms(6) by simp
  then obtain u where "piperead p (int m) t = Done (int (length (take m (pipe_abs q'))), take m (pipe_abs q')) u"
    using piperead_queue(2) [OF t q'(1), of "int m"] by auto
  then show ?thesis using q'(2,3) assms(7) by (simp add: t_def del: length_pipe_abs)
qed

theorem pipe_write_read_witness:
  "\<exists>t u. pipewrite 0x80400000 [1, 2, 3] (at_work 1 pipe_kern) = Done 3 t \<and>
     piperead 0x80400000 100 t = Done (5, [65, 66, 1, 2, 3]) u"
  using pipe_write_read [OF at_work(1) pipe_kern wrapping_pipe(1), of "[1, 2, 3]" 100] wrapping_pipe(2)
  by (auto simp: PIPESIZE_def simp del: length_pipe_abs)

end
