(* ===== verification/Bio_Props.thy ===== *)
theory Bio_Props
  imports Bio_Correct Sample
begin

text \<open>Properties of the buffer cache: it is a store of blocks, and its ring is a list in order of use.\<close>

section \<open>Building the ring\<close>

definition ins_front :: "nat \<Rightarrow> buf list \<Rightarrow> buf list" where
  "ins_front b bs =
     (let bs = bs[b := (bs ! b)\<lparr>b_next := b_next (bs ! NBUF)\<rparr>];
          bs = bs[b := (bs ! b)\<lparr>b_prev := NBUF\<rparr>];
          bs = bs[b_next (bs ! NBUF) := (bs ! b_next (bs ! NBUF))\<lparr>b_prev := b\<rparr>]
      in bs[NBUF := (bs ! NBUF)\<lparr>b_next := b\<rparr>])"

lemma length_ins_front [simp]: "length (ins_front b bs) = length bs"
  by (simp add: ins_front_def Let_def)

lemma initsleeplock_bufs [simp]: "bufs (kern (initsleeplock l n s)) = bufs (kern s)"
  by (simp add: initsleeplock_def upd_sl_def initlock_def)

lemma binit_from_bufs: "bufs (kern (binit_from xs s)) = fold ins_front xs (bufs (kern s))"
proof (induction xs s rule: binit_from.induct)
  case (2 b bs s)
  define s1 where "s1 = upd_buf b (\<lambda>x. x\<lparr>b_prev := NBUF\<rparr>) (upd_buf b (\<lambda>x. x\<lparr>b_next := b_next (buf_at NBUF s)\<rparr>) s)"
  have "bufs (kern (link_first b (initsleeplock (Buf_sl b) ''buffer'' s1))) = ins_front b (bufs (kern s))"
    unfolding link_first_def Let_def bufs_upd_buf buf_at_def initsleeplock_bufs s1_def ins_front_def ..
  then show ?case using 2 by (simp add: s1_def)
qed simp

lemma ins_front_chain:
  assumes "length bs = Suc NBUF" "b < NBUF" "b \<notin> set xs" "set xs \<subseteq> {..<NBUF}" "distinct xs"
    and c: "chain (\<lambda>c. b_next (bs ! c)) (\<lambda>c. b_prev (bs ! c)) (NBUF # xs @ [NBUF])"
  shows "chain (\<lambda>c. b_next (ins_front b bs ! c)) (\<lambda>c. b_prev (ins_front b bs ! c)) (NBUF # b # xs @ [NBUF])"
proof -
  define h where "h = hd (xs @ [NBUF])"
  have h: "b_next (bs ! NBUF) = h" using c by (cases xs) (simp_all add: h_def)
  have hN: "h \<le> NBUF" using assms(4) by (cases xs) (auto simp: h_def)
  define b1 where "b1 = bs[b := (bs ! b)\<lparr>b_next := h\<rparr>]"
  define b2 where "b2 = b1[b := (b1 ! b)\<lparr>b_prev := NBUF\<rparr>]"
  define b3 where "b3 = b2[h := (b2 ! h)\<lparr>b_prev := b\<rparr>]"
  have l: "length b1 = Suc NBUF" "length b2 = Suc NBUF" "length b3 = Suc NBUF" using assms(1) by (simp_all add: b1_def b2_def b3_def)
  have "b_next (b2 ! NBUF) = h" using h assms(1,2) by (simp add: b2_def b1_def)
  then have e: "ins_front b bs = b3[NBUF := (b3 ! NBUF)\<lparr>b_next := b\<rparr>]"
    unfolding ins_front_def Let_def h b1_def [symmetric] b2_def [symmetric] by (simp add: b3_def)
  have nx: "(\<lambda>c. b_next (ins_front b bs ! c)) = (\<lambda>c. b_next (bs ! c))(b := h, NBUF := b)"
    "(\<lambda>c. b_prev (ins_front b bs ! c)) = (\<lambda>c. b_prev (bs ! c))(b := NBUF, h := b)"
    unfolding e using upd_links [of NBUF b3 b] upd_links [of h b2 b] upd_links [of b b1 NBUF] upd_links [of b bs h] l assms(1,2) hN
    by (simp_all add: b3_def b2_def b1_def)
  show ?thesis
    unfolding nx h_def by (rule chain_link [OF c]) (use assms in \<open>cases xs; auto\<close>)+
qed

lemma fold_ins_front:
  assumes "length bs = Suc NBUF" "k \<le> NBUF" "b_next (bs ! NBUF) = NBUF" "b_prev (bs ! NBUF) = NBUF"
  shows "length (fold ins_front [0..<k] bs) = Suc NBUF \<and>
    chain (\<lambda>c. b_next (fold ins_front [0..<k] bs ! c)) (\<lambda>c. b_prev (fold ins_front [0..<k] bs ! c)) (NBUF # rev [0..<k] @ [NBUF])"
  using assms(2)
proof (induction k)
  case 0
  then show ?case using assms by simp
next
  case (Suc k)
  then have "set (rev [0..<k]) \<subseteq> {..<NBUF}" by auto
  then show ?case using Suc ins_front_chain [of "fold ins_front [0..<k] bs" k "rev [0..<k]"] by simp
qed

lemma binit_linked:
  assumes "length (bufs (kern s)) = Suc NBUF"
  shows "linked (bufs (kern (binit s))) (rev [0..<NBUF])"
proof -
  define bs where "bs = (bufs (kern s))[NBUF := (bufs (kern s) ! NBUF)\<lparr>b_prev := NBUF, b_next := NBUF\<rparr>]"
  have "bufs (kern (binit s)) = fold ins_front [0..<NBUF] bs"
    unfolding binit_def Let_def binit_from_bufs upd_buf_twice bufs_upd_buf by (simp add: bs_def initlock_def buf_at_def)
  moreover have "length bs = Suc NBUF" "b_next (bs ! NBUF) = NBUF" "b_prev (bs ! NBUF) = NBUF"
    using assms by (simp_all add: bs_def)
  ultimately show ?thesis using fold_ins_front [of bs NBUF] by (auto simp: linked_def)
qed

section \<open>The ring is a list in order of use\<close>

lemma bget_takes:
  assumes ok: "bc_ok H i s" and l: "linked (bufs (kern s)) xs" and b: "b < NBUF" "b \<notin> H"
    and f: "\<And>x. b_next (f x) = b_next x" "\<And>x. b_prev (f x) = b_prev x"
  shows "\<exists>t. bindK (acquiresleep (Buf_sl b) (upd_buf b f s)) (\<lambda>_ s. Done b s) = Done b t \<and> linked (bufs (kern t)) xs"
proof -
  note D = bc_okD [OF ok]
  have "\<not> slocked (sleeplocks (kern (upd_buf b f s)) (Buf_sl b))" using D(8) [OF b(1)] b(2) by (simp add: buf_ok_def)
  then show ?thesis
    using acquiresleep_free [of "upd_buf b f s" i] D(1,2) linked_update [OF l, of "f (buf_at b s)" b] f
    by (simp add: bufs_upd_buf buf_at_def)
qed

text \<open>C12. The ring of the buffer cache is a list of the buffers in order of use. Looking a block up finds a
  buffer that has it wherever it is in the list. Otherwise \<^verbatim>\<open>bget\<close> takes the least recently used buffer
  that nobody refers to and that is not dirty, and panics if there is none. \<^verbatim>\<open>bget\<close> leaves the order
  as it is; \<^verbatim>\<open>brelse\<close> of a buffer moves it to the front and keeps the order of the others.\<close>

theorem bcache_ring_is_lru:
  assumes "bc_ok H i s" "linked (bufs (kern s)) xs"
  shows "(case find (\<lambda>b. b_dev (buf_at b s) = 1 \<and> b_blockno (buf_at b s) = n) xs of
      Some b \<Rightarrow> b \<in> H \<or> (\<exists>t. bget 1 n s = Done b t \<and> linked (bufs (kern t)) xs)
    | None \<Rightarrow> (case find (\<lambda>b. b_refcnt (buf_at b s) = 0 \<and> \<not> b_dirty (buf_at b s)) (rev xs) of
        Some b \<Rightarrow> \<exists>t. bget 1 n s = Done b t \<and> linked (bufs (kern t)) xs
      | None \<Rightarrow> bget 1 n s = Panic ''bget: no buffers'')) \<and>
    (\<forall>b \<in> H. \<exists>t. brelse b s = Done () t \<and> linked (bufs (kern t)) (b # remove1 b xs))"
proof (intro conjI ballI)
  note D = bc_okD [OF assms(1)] and g = bget_calm [OF bc_okD(1) [OF assms(1)] assms(2), of 1 n]
  show "case find (\<lambda>b. b_dev (buf_at b s) = 1 \<and> b_blockno (buf_at b s) = n) xs of
      Some b \<Rightarrow> b \<in> H \<or> (\<exists>t. bget 1 n s = Done b t \<and> linked (bufs (kern t)) xs)
    | None \<Rightarrow> (case find (\<lambda>b. b_refcnt (buf_at b s) = 0 \<and> \<not> b_dirty (buf_at b s)) (rev xs) of
        Some b \<Rightarrow> \<exists>t. bget 1 n s = Done b t \<and> linked (bufs (kern t)) xs
      | None \<Rightarrow> bget 1 n s = Panic ''bget: no buffers'')"
  proof (cases "find (\<lambda>b. b_dev (buf_at b s) = 1 \<and> b_blockno (buf_at b s) = n) xs")
    case (Some b)
    have b: "b < NBUF" using find_SomeD [OF Some] linked_mem [OF assms(2)] by simp
    have "\<exists>t. bget 1 n s = Done b t \<and> linked (bufs (kern t)) xs" if "b \<notin> H"
      unfolding g Some option.case by (rule bget_takes [OF assms b that]) simp_all
    then show ?thesis unfolding Some option.case by blast
  next
    case none: None
    show ?thesis
    proof (cases "find (\<lambda>b. b_refcnt (buf_at b s) = 0 \<and> \<not> b_dirty (buf_at b s)) (rev xs)")
      case (Some b)
      then have b: "b < NBUF" "b_refcnt (buf_at b s) = 0"
        using find_SomeD [OF Some] linked_mem [OF assms(2)] by auto
      then have "b \<notin> H" using D(8) [OF b(1)] by (auto simp: buf_ok_def)
      then show ?thesis
        unfolding g none Some option.case by (intro bget_takes [OF assms b(1)]) simp_all
    qed (simp add: none g)
  qed
next
  fix b assume b: "b \<in> H"
  have "b < NBUF" using b bc_okD(4) [OF assms(1)] by auto
  moreover have "linked ((bufs (kern s))[b := (bufs (kern s) ! b)\<lparr>b_refcnt := 0\<rparr>]) xs" by (rule linked_update [OF assms(2)]) simp_all
  ultimately show "\<exists>t. brelse b s = Done () t \<and> linked (bufs (kern t)) (b # remove1 b xs)"
    using brelse_form [OF assms(1) b] linked_to_front by (simp add: released_def)
qed

definition fresh_cache :: lifek where
  "fresh_cache = zero_kern\<lparr>disksize := 100, bufs := ring (\<lambda>_. zero_buf)\<rparr>"

lemma fresh_cache: "bc_ok {} 0 (at_work 0 fresh_cache)" "linked (bufs (kern (at_work 0 fresh_cache))) [0..<NBUF]"
  "dirty_blks fresh_cache = {}"
proof -
  show "bc_ok {} 0 (at_work 0 fresh_cache)"
    by (rule bc_ok_ring [of _ "\<lambda>_. zero_buf"]) (simp_all add: fresh_cache_def zero_kern_def zero_buf_def param_defs)
  show "linked (bufs (kern (at_work 0 fresh_cache))) [0..<NBUF]" by (simp add: fresh_cache_def linked_ring)
  show "dirty_blks fresh_cache = {}"
    by (auto simp: dirty_blks_def fresh_cache_def holds_blk_def ring_nth zero_buf_def)
qed

theorem bcache_ring_is_lru_witness:
  "\<exists>t. bget 1 7 (at_work 0 fresh_cache) = Done 29 t \<and> linked (bufs (kern t)) [0..<NBUF]"
proof -
  have b: "buf_at b (at_work 0 fresh_cache) = zero_buf\<lparr>b_next := if b = NBUF then 0 else Suc b, b_prev := if b = 0 then NBUF else b - 1\<rparr>"
    if "b < NBUF" for b using that by (simp add: buf_at_def fresh_cache_def ring_nth)
  have h: "find (\<lambda>b. b_dev (buf_at b (at_work 0 fresh_cache)) = 1 \<and> b_blockno (buf_at b (at_work 0 fresh_cache)) = 7) [0..<NBUF] = None"
    by (auto simp: find_None_iff b zero_buf_def)
  have "NBUF = Suc 29" by (simp add: param_defs)
  moreover have "rev [0..<Suc n] = n # rev [0..<n]" for n by simp
  ultimately have "rev [0..<NBUF] = 29 # rev [0..<29]" by metis
  then have f: "find (\<lambda>b. b_refcnt (buf_at b (at_work 0 fresh_cache)) = 0 \<and> \<not> b_dirty (buf_at b (at_work 0 fresh_cache))) (rev [0..<NBUF]) = Some 29"
    using b [of 29] by (simp add: zero_buf_def) (simp add: param_defs)
  show ?thesis using bcache_ring_is_lru [OF fresh_cache(1,2), of 7] h f by simp
qed

section \<open>The cache is a store of blocks\<close>

text \<open>C6. The buffer cache is a store of blocks. Reading a block of the disk that nobody holds, when a buffer
  is left for it, returns a locked buffer with the block's current contents: those of the cached copy when there is
  one, those on the disk otherwise. It changes the contents of no block and writes nothing to the disk. Releasing the
  buffer gives back the invariant with no block changed. Writing other bytes through the buffer changes that block only, in
  the cache and on the disk.\<close>

theorem bcache_is_block_store:
  assumes "bc_ok H i s" "uint n < disksize (kern s)" "\<forall>b \<in> H. b_blockno (buf_at b s) \<noteq> n" "free_for H n s"
    and "length bs = BSIZE"
  shows "\<exists>b t u w. bread 1 n s = Done b t \<and> bc_ok (insert b H) i t \<and> b_data (buf_at b t) = content (kern s) n \<and>
    content (kern t) = content (kern s) \<and> disk_log (kern t) = disk_log (kern s) \<and>
    brelse b t = Done () u \<and> bc_ok H i u \<and> content (kern u) = content (kern s) \<and>
    bwrite b (upd_buf b (\<lambda>x. x\<lparr>b_data := bs\<rparr>) t) = Done () w \<and> bc_ok (insert b H) i w \<and>
    content (kern w) = (content (kern s))(n := bs) \<and> dblk (memdisk (kern w)) (unat n) = bs \<and>
    disk_log (kern w) = disk_log (kern s) @ [(unat n, bs)]"
proof -
  obtain b t where r: "bread 1 n s = Done b t" "bc_ok (insert b H) i t" "b < NBUF" "b \<notin> H" "holds_blk n (buf_at b t)"
      "b_data (buf_at b t) = content (kern s) n" "content (kern t) = content (kern s)"
      "dirty_blks (kern t) = dirty_blks (kern s)" "memdisk (kern t) = memdisk (kern s)" "disk_log (kern t) = disk_log (kern s)"
    using bread_ok [OF assms(1-4)] by (elim exE conjE) (rule that)
  have b: "b \<in> insert b H" "b_blockno (buf_at b t) = n" using r(5) by (simp_all add: holds_blk_def)
  have "b_dirty (buf_at b t) \<or> b_data (buf_at b t) = dblk (memdisk (kern t)) (unat (b_blockno (buf_at b t)))"
    using dirty_held [OF r(2) b(1)] clean_content [OF assms(1) _ assms(3)] b(2) r(6,8,9) by auto
  note re = brelse_ok [OF r(2) b(1) this]
  have bcu: "bc_ok H i (released b t)" using re(2) r(4) by simp
  define s1 where "s1 = upd_buf b (\<lambda>_. (buf_at b t)\<lparr>b_data := bs\<rparr>) t"
  note hb = held_state [OF r(2) b(1)]
  have s1: "bc_ok (insert b H) i s1" "content (kern s1) = (content (kern t))(n := bs)"
    using bc_ok_upd_held [OF r(2) b(1), of "(buf_at b t)\<lparr>b_data := bs\<rparr>"] assms(5) hb(3) b(2) dirty_held [OF r(2) b(1)]
    by (simp_all add: s1_def holds_blk_def)
  have b1: "buf_at b s1 = (buf_at b t)\<lparr>b_data := bs\<rparr>" using r(3) bc_okD(6) [OF r(2)] by (simp add: s1_def buf_at_upd)
  have k1: "memdisk (kern s1) = memdisk (kern t)" "disk_log (kern s1) = disk_log (kern t)" by (simp_all add: s1_def upd_buf_def)
  obtain w where w: "bwrite b s1 = Done () w" "bc_ok (insert b H) i w" "content (kern w) = content (kern s1)"
      "memdisk (kern w) = dput (memdisk (kern s1)) (unat n) bs" "disk_log (kern w) = disk_log (kern s1) @ [(unat n, bs)]"
    using bwrite_ok [OF s1(1) b(1)] b1 b(2) by auto
  have "upd_buf b (\<lambda>x. x\<lparr>b_data := bs\<rparr>) t = s1" by (subst upd_buf_const) (simp add: s1_def)
  then show ?thesis
    using r re(1,3) bcu w s1(2) k1 assms(5) by (intro exI [of _ b] exI [of _ t] exI [of _ "released b t"] exI [of _ w]) (simp add: dblk_dput)
qed

theorem bcache_is_block_store_witness:
  "\<exists>b t u. bread 1 7 (at_work 0 fresh_cache) = Done b t \<and> b_data (buf_at b t) = content fresh_cache 7 \<and> brelse b t = Done () u"
proof -
  have "free_for {} 7 (at_work 0 fresh_cache)"
    by (rule free_for_card [OF fresh_cache(1)]) (simp add: fresh_cache(3) param_defs)
  then show ?thesis
    using bcache_is_block_store [OF fresh_cache(1), of 7 "replicate BSIZE 1"] by (auto simp: fresh_cache_def)
qed

end
