(* ===== verification/Sched_View.thy ===== *)
theory Sched_View
  imports Proc
begin

text \<open>
  What the scheduler works on, and what each routine of the kernel does to it: the processor that
  executes, the process each processor runs, the process table and the next process id.
  Locking, interrupt nesting, memory and page tables leave all of this alone.
\<close>

section \<open>The view\<close>

record sview =
  v_id :: uchar
  v_ids :: "uchar list"
  v_run :: "nat option list"
  v_procs :: "proc list"
  v_next :: int

definition sview :: "'a procs_scheme machine \<Rightarrow> sview" where
  "sview s = \<lparr>v_id = lapic_id s, v_ids = map apicid (cpus s), v_run = map cproc (cpus s), v_procs = ptable (kern s),
     v_next = nextpid (kern s)\<rparr>"

text \<open>The index of the executing processor and the process it runs.\<close>

definition v_cpu :: "sview \<Rightarrow> nat option" where
  "v_cpu v = scan (\<lambda>x. x = v_id v) (v_ids v)"

definition v_cur :: "sview \<Rightarrow> nat option" where
  "v_cur v = (case v_cpu v of Some c \<Rightarrow> v_run v ! c | None \<Rightarrow> None)"

lemma sview_fields [simp]:
  "v_procs (sview s) = ptable (kern s)" "v_next (sview s) = nextpid (kern s)" "v_id (sview s) = lapic_id s"
  "v_run (sview s) = map cproc (cpus s)" "v_ids (sview s) = map apicid (cpus s)"
  by (simp_all add: sview_def)

lemma scan_map_id: "scan_from k P (map f xs) = scan_from k (\<lambda>x. P (f x)) xs"
  by (induction xs arbitrary: k) auto

lemma v_cpu_mycpu: "mycpu s = Done c t \<Longrightarrow> t = s \<and> v_cpu (sview s) = Some c \<and> c < length (cpus s)"
  using scan_SomeD [of "\<lambda>x. apicid x = lapic_id s" "cpus s"]
  by (auto simp: mycpu_def v_cpu_def scan_map_id split: if_splits option.splits)

section \<open>Routines that keep the view\<close>

fun post :: "('s \<Rightarrow> bool) \<Rightarrow> ('s, 'a) outcome \<Rightarrow> bool" where
  "post Q (Done a t) = Q t"
| "post Q (Switch t) = False"
| "post Q (Panic e) = True"
| "post Q (Spin t) = True"

abbreviation keeps :: "sview \<Rightarrow> ('a procs_scheme machine, 'b) outcome \<Rightarrow> bool" where
  "keeps v \<equiv> post (\<lambda>t. sview t = v)"

named_theorems keeping

lemma post_bind: "post R m \<Longrightarrow> (\<And>a t. R t \<Longrightarrow> post Q (f a t)) \<Longrightarrow> post Q (bindK m f)"
  by (cases m) auto

lemma keeps_bind [keeping]: "keeps v m \<Longrightarrow> (\<And>a t. sview t = v \<Longrightarrow> keeps v (f a t)) \<Longrightarrow> keeps v (bindK m f)"
  by (rule post_bind)

lemma post_if [keeping]: "(b \<Longrightarrow> post Q m) \<Longrightarrow> (\<not> b \<Longrightarrow> post Q n) \<Longrightarrow> post Q (if b then m else n)"
  by simp

lemma post_D: "post Q m \<Longrightarrow> m = Done a t \<Longrightarrow> Q t" and post_S: "post Q m \<Longrightarrow> m \<noteq> Switch t"
  by auto

lemma map_same: "f y = f (xs ! c) \<Longrightarrow> map f (xs[c := y]) = map f xs"
  by (cases "c < length xs") (simp_all add: map_update list_update_same_conv list_update_beyond)

lemma sview_updates [simp]:
  "sview (cli s) = sview s" "sview (sti s) = sview s" "sview (s\<lparr>locks := L\<rparr>) = sview s" "sview (initlock l nm s) = sview s"
  "sview (s\<lparr>cpus := (cpus s)[c := (cpus s ! c)\<lparr>ncli := n\<rparr>]\<rparr>) = sview s"
  "sview (s\<lparr>cpus := (cpus s)[c := (cpus s ! c)\<lparr>intena := b\<rparr>]\<rparr>) = sview s"
  "sview (s\<lparr>cpus := (cpus s)[c := (cpus s ! c)\<lparr>intena := b, ncli := n\<rparr>]\<rparr>) = sview s"
  by (simp_all add: sview_def cli_def sti_def initlock_def map_same)

lemma keeps_mycpu [keeping]: "sview s = v \<Longrightarrow> keeps v (mycpu s)"
  by (auto simp: mycpu_def split: option.split)

lemma keeps_pushcli [keeping]: "sview s = v \<Longrightarrow> keeps v (pushcli s)"
  unfolding pushcli_def Let_def by (rule post_bind [OF keeps_mycpu [of _ v]]) simp_all

lemma keeps_popcli [keeping]: "sview s = v \<Longrightarrow> keeps v (popcli s)"
  unfolding popcli_def Let_def by (rule post_if, simp, rule post_bind [OF keeps_mycpu [of _ v]]) simp_all

lemma keeps_holding [keeping]: "sview s = v \<Longrightarrow> keeps v (holding l s)"
  unfolding holding_def Let_def by (intro keeping) simp_all

lemma keeps_acquire [keeping]: "sview s = v \<Longrightarrow> keeps v (acquire l s)"
  unfolding acquire_def xchg_locked_def prod.case by (intro keeping) simp_all

lemma keeps_release [keeping]: "sview s = v \<Longrightarrow> keeps v (release l s)"
  unfolding release_def Let_def by (intro keeping) simp_all

lemma keeps_myproc [keeping]: "sview s = v \<Longrightarrow> keeps v (myproc s)"
  unfolding myproc_def Let_def by (intro keeping) simp_all

lemma myproc_cur: "myproc s = Done p t \<Longrightarrow> sview t = sview s \<and> p = v_cur (sview s)"
proof -
  assume a: "myproc s = Done p t"
  then obtain s1 c where "pushcli s = Done () s1" and c: "mycpu s1 = Done c s1" "p = cproc (cpus s1 ! c)"
    by (auto simp: myproc_def Let_def bindK_Done_iff mycpu_def split: if_splits option.splits)
  then have "sview s1 = sview s" using post_D [OF keeps_pushcli [OF refl]] by blast
  moreover have "p = v_cur (sview s1)" using v_cpu_mycpu [OF c(1)] c(2) by (simp add: v_cur_def)
  ultimately show ?thesis using post_D [OF keeps_myproc [OF refl] a] by simp
qed

section \<open>Memory and page tables\<close>

lemma sview_upd_kern: "ptable (f (kern s)) = ptable (kern s) \<Longrightarrow> nextpid (f (kern s)) = nextpid (kern s) \<Longrightarrow> sview (upd_kern f s) = sview s"
  by (simp add: sview_def)

lemma sview_upd_mem [simp]: "sview (upd_mem f s) = sview s"
  by (simp add: upd_mem_def sview_upd_kern)

lemma keeps_kfree [keeping]: "sview s = v \<Longrightarrow> keeps v (kfree a s)"
  unfolding kfree_def Let_def by (intro keeping) (simp_all add: sview_upd_kern)

lemma keeps_kalloc [keeping]: "sview s = v \<Longrightarrow> keeps v (kalloc s)"
  unfolding kalloc_def Let_def by (intro keeping) (simp_all add: sview_upd_kern)

lemma keeps_walkpgdir [keeping]: "sview s = v \<Longrightarrow> keeps v (walkpgdir d a al s)"
  unfolding walkpgdir_def Let_def by (intro keeping) simp_all

lemma keeps_deallocuvm_from [keeping]: "sview s = v \<Longrightarrow> keeps v (deallocuvm_from n d a oldsz s)"
proof (induction n arbitrary: a s)
  case 0
  then show ?case by (subst deallocuvm_from.simps) simp
next
  case (Suc n)
  show ?case
    unfolding deallocuvm_from.simps [of "Suc n"] Let_def nat.case by (intro keeping Suc) (simp_all add: Suc.prems)
qed

lemma keeps_deallocuvm [keeping]: "sview s = v \<Longrightarrow> keeps v (deallocuvm d osz nsz s)"
  unfolding deallocuvm_def by (intro keeping) simp_all

lemma keeps_free_tables [keeping]: "sview s = v \<Longrightarrow> keeps v (free_tables d is s)"
proof (induction "is" arbitrary: s)
  case (Cons i "is")
  show ?case unfolding free_tables.simps Let_def by (intro keeping Cons) (simp_all add: Cons.prems)
qed simp

lemma keeps_freevm [keeping]: "sview s = v \<Longrightarrow> keeps v (freevm d s)"
  unfolding freevm_def by (intro keeping) simp_all

lemma keeps_switchuvm [keeping]: "sview s = v \<Longrightarrow> keeps v (switchuvm p s)"
proof (cases p)
  case (Some q)
  obtain ks d where q: "q = (ks, d)" by (cases q)
  assume "sview s = v"
  then show ?thesis
    unfolding switchuvm_def Some q option.case prod.case Let_def
    by (intro keeping) (simp_all add: sview_upd_kern set_gdt_def ltr_def lcr3_def)
qed (simp add: switchuvm_def)

lemma sview_switchkvm [simp]: "sview (switchkvm s) = sview s"
  by (simp add: switchkvm_def lcr3_def sview_upd_kern)

section \<open>Routines that change it\<close>

lemma sview_upd_proc [simp]: "sview (upd_proc i f s) = (sview s)\<lparr>v_procs := (v_procs (sview s))[i := f (v_procs (sview s) ! i)]\<rparr>"
  by (simp add: sview_def upd_proc_def)

lemma sview_wakeup1 [simp]: "sview (wakeup1 ch s) = (sview s)\<lparr>v_procs := map (\<lambda>p. if p_state p = SLEEPING \<and> p_chan p = Some ch
     then p\<lparr>p_state := RUNNABLE\<rparr> else p) (v_procs (sview s))\<rparr>"
  by (simp add: sview_def wakeup1_def)

lemma sview_set_cproc [simp]: "sview (set_cproc c p s) = (sview s)\<lparr>v_run := (v_run (sview s))[c := p]\<rparr>"
proof -
  have "map apicid ((cpus s)[c := (cpus s ! c)\<lparr>cproc := p\<rparr>]) = map apicid (cpus s)" by (simp add: map_same)
  then show ?thesis by (simp add: sview_def set_cproc_def map_update)
qed

lemma v_cur_procs [simp]: "v_cur (v\<lparr>v_procs := ps\<rparr>) = v_cur v" "v_cpu (v\<lparr>v_procs := ps\<rparr>) = v_cpu v" "v_cpu (v\<lparr>v_run := r\<rparr>) = v_cpu v"
  by (simp_all add: v_cur_def v_cpu_def split: option.split)

lemma no_switch [simp]:
  fixes s :: "'a procs_scheme machine"
  shows "myproc s \<noteq> Switch t" "holding l s \<noteq> Switch t" "mycpu s \<noteq> Switch t" "acquire l s \<noteq> Switch t" "release l s \<noteq> Switch t"
    "kfree a s \<noteq> Switch t" "kalloc s \<noteq> Switch t" "freevm d s \<noteq> Switch t" "switchuvm q s \<noteq> Switch t"
  by (rule post_S [OF keeps_myproc [OF refl]] post_S [OF keeps_holding [OF refl]] post_S [OF keeps_mycpu [OF refl]]
    post_S [OF keeps_acquire [OF refl]] post_S [OF keeps_release [OF refl]] post_S [OF keeps_kfree [OF refl]]
    post_S [OF keeps_kalloc [OF refl]] post_S [OF keeps_freevm [OF refl]] post_S [OF keeps_switchuvm [OF refl]])+

lemma kept:
  fixes s :: "'a procs_scheme machine"
  shows "holding l s = Done h t \<Longrightarrow> sview t = sview s" "mycpu s = Done c t \<Longrightarrow> sview t = sview s"
    "acquire l s = Done u t \<Longrightarrow> sview t = sview s" "release l s = Done u t \<Longrightarrow> sview t = sview s"
    "kfree a s = Done u t \<Longrightarrow> sview t = sview s" "kalloc s = Done p t \<Longrightarrow> sview t = sview s"
    "freevm d s = Done u t \<Longrightarrow> sview t = sview s" "switchuvm q s = Done u t \<Longrightarrow> sview t = sview s"
  by (erule post_D [OF keeps_holding [OF refl]] post_D [OF keeps_mycpu [OF refl]] post_D [OF keeps_acquire [OF refl]]
    post_D [OF keeps_release [OF refl]] post_D [OF keeps_kfree [OF refl]] post_D [OF keeps_kalloc [OF refl]]
    post_D [OF keeps_freevm [OF refl]] post_D [OF keeps_switchuvm [OF refl]])+

lemma sched_Switch:
  assumes "sched s = Switch t"
  shows "sview t = sview s" "\<exists>i. v_cur (sview s) = Some i \<and> p_state (ptable (kern t) ! i) \<noteq> RUNNING"
proof -
  obtain p s1 h s2 c s3 where *: "myproc s = Done p s1" "holding Ptable_lk s1 = Done h s2" "mycpu s2 = Done c s3"
    and t: "t = s3" "\<exists>i. p = Some i \<and> p_state (proc_at i s3) \<noteq> RUNNING"
    using assms by (auto simp: sched_def bindK_Switch_iff split: if_splits option.splits)
  have "sview s3 = sview s" using myproc_cur [OF *(1)] kept(1) [OF *(2)] kept(2) [OF *(3)] by simp
  then show "sview t = sview s" "\<exists>i. v_cur (sview s) = Some i \<and> p_state (ptable (kern t) ! i) \<noteq> RUNNING"
    using t myproc_cur [OF *(1)] by (auto simp: proc_at_def)
qed

lemma sched_not_Done: "sched s \<noteq> Done a t"
  by (auto simp: sched_def bindK_Done_iff split: if_splits option.splits)

end
