(* ===== verification/Sched_Inv.thy ===== *)
theory Sched_Inv
  imports Sched_View Spinlock
begin

text \<open>
  Processes and processors as a state machine: the steps are the routines of \<^verbatim>\<open>proc.c\<close> that change the
  state of a process, on any processor and in any order. A routine that gives the processor up is
  followed on the same processor by the scheduler, which holds the process-table lock all the
  while. The invariant: a process is running exactly when one processor runs it, no two processors run the
  same process, and processes in use have distinct ids below the next one.
\<close>

section \<open>The invariant\<close>

definition run_inv :: "nat option list \<Rightarrow> proc list \<Rightarrow> bool" where
  "run_inv r ps \<longleftrightarrow>
     (\<forall>c < length r. \<forall>i. r ! c = Some i \<longrightarrow> i < length ps \<and> p_state (ps ! i) = RUNNING) \<and>
     (\<forall>c < length r. \<forall>d < length r. r ! c = r ! d \<and> r ! c \<noteq> None \<longrightarrow> c = d) \<and>
     (\<forall>i < length ps. p_state (ps ! i) = RUNNING \<longrightarrow> Some i \<in> set r)"

definition pid_inv :: "proc list \<Rightarrow> int \<Rightarrow> bool" where
  "pid_inv ps n \<longleftrightarrow> 0 < n \<and> (\<forall>i < length ps. p_state (ps ! i) \<noteq> UNUSED \<longrightarrow> 0 < p_pid (ps ! i) \<and> p_pid (ps ! i) < n) \<and>
     (\<forall>i < length ps. \<forall>j < length ps. p_state (ps ! i) \<noteq> UNUSED \<and> p_state (ps ! j) \<noteq> UNUSED \<and>
        p_pid (ps ! i) = p_pid (ps ! j) \<longrightarrow> i = j)"

definition sched_inv :: "sview \<Rightarrow> bool" where
  "sched_inv v \<longleftrightarrow> length (v_run v) = length (v_ids v) \<and> run_inv (v_run v) (v_procs v) \<and> pid_inv (v_procs v) (v_next v)"

text \<open>Changes that start no process, stop none and give no new id.\<close>

definition calm_change :: "proc list \<Rightarrow> proc list \<Rightarrow> bool" where
  "calm_change ps qs \<longleftrightarrow> length qs = length ps \<and>
     (\<forall>i < length ps. (p_state (qs ! i) = RUNNING \<longleftrightarrow> p_state (ps ! i) = RUNNING) \<and>
       (p_state (qs ! i) \<noteq> UNUSED \<longrightarrow> p_state (ps ! i) \<noteq> UNUSED \<and> p_pid (qs ! i) = p_pid (ps ! i)))"

lemma calm_change_refl [simp]: "calm_change ps ps"
  by (simp add: calm_change_def)

lemma calm_change_trans: "calm_change ps qs \<Longrightarrow> calm_change qs rs \<Longrightarrow> calm_change ps rs"
  by (auto simp: calm_change_def)

lemma calm_change_upd:
  assumes "i < length ps \<Longrightarrow> (p_state (f (ps ! i)) = RUNNING \<longleftrightarrow> p_state (ps ! i) = RUNNING) \<and>
    (p_state (f (ps ! i)) \<noteq> UNUSED \<longrightarrow> p_state (ps ! i) \<noteq> UNUSED \<and> p_pid (f (ps ! i)) = p_pid (ps ! i))"
  shows "calm_change ps (ps[i := f (ps ! i)])"
  using assms by (cases "i < length ps") (auto simp: calm_change_def nth_list_update list_update_beyond)

lemma run_inv_uniq: "run_inv r ps \<Longrightarrow> c < length r \<Longrightarrow> d < length r \<Longrightarrow> r ! c = r ! d \<Longrightarrow> r ! c \<noteq> None \<Longrightarrow> c = d"
  by (simp add: run_inv_def)

lemma run_inv_cong:
  assumes "run_inv r ps" and l: "length qs = length ps"
    and r: "\<forall>i < length ps. p_state (qs ! i) = RUNNING \<longleftrightarrow> p_state (ps ! i) = RUNNING"
  shows "run_inv r qs"
proof -
  have a: "\<forall>c < length r. \<forall>i. r ! c = Some i \<longrightarrow> i < length ps \<and> p_state (ps ! i) = RUNNING"
    and b: "\<forall>c < length r. \<forall>d < length r. r ! c = r ! d \<and> r ! c \<noteq> None \<longrightarrow> c = d"
    and d: "\<forall>i < length ps. p_state (ps ! i) = RUNNING \<longrightarrow> Some i \<in> set r"
    using assms(1) unfolding run_inv_def by blast+
  show ?thesis unfolding run_inv_def l
  proof (intro conjI)
    show "\<forall>c < length r. \<forall>i. r ! c = Some i \<longrightarrow> i < length ps \<and> p_state (qs ! i) = RUNNING" using a r by blast
    show "\<forall>c < length r. \<forall>d < length r. r ! c = r ! d \<and> r ! c \<noteq> None \<longrightarrow> c = d" by (rule b)
    show "\<forall>i < length ps. p_state (qs ! i) = RUNNING \<longrightarrow> Some i \<in> set r" using d r by blast
  qed
qed

lemma run_inv_change: "run_inv r ps \<Longrightarrow> calm_change ps qs \<Longrightarrow> run_inv r qs"
  by (erule run_inv_cong) (auto simp: calm_change_def)

lemma pid_inv_change:
  assumes "pid_inv ps n" "calm_change ps qs"
  shows "pid_inv qs n"
proof -
  have l: "length qs = length ps" and u: "\<forall>i < length ps. p_state (qs ! i) \<noteq> UNUSED \<longrightarrow> p_state (ps ! i) \<noteq> UNUSED \<and> p_pid (qs ! i) = p_pid (ps ! i)"
    using assms(2) by (auto simp: calm_change_def)
  show ?thesis using assms(1) unfolding pid_inv_def l
    by (intro conjI allI impI) (use u in \<open>auto simp: Ball_def\<close>)
qed

lemma sched_inv_change: "sched_inv v \<Longrightarrow> calm_change (v_procs v) qs \<Longrightarrow> sched_inv (v\<lparr>v_procs := qs\<rparr>)"
  by (auto simp: sched_inv_def intro: run_inv_change pid_inv_change)

lemma sched_inv_alloc:
  assumes v: "sched_inv v" and i: "i < length (v_procs v)" "p_state (v_procs v ! i) = UNUSED"
  shows "sched_inv (v\<lparr>v_procs := (v_procs v)[i := (v_procs v ! i)\<lparr>p_state := EMBRYO, p_pid := v_next v\<rparr>], v_next := v_next v + 1\<rparr>)"
proof -
  define ps where "ps = v_procs v"
  define qs where "qs = ps[i := (ps ! i)\<lparr>p_state := EMBRYO, p_pid := v_next v\<rparr>]"
  have l: "length qs = length ps" by (simp add: qs_def)
  have q: "qs ! j = (if j = i then (ps ! i)\<lparr>p_state := EMBRYO, p_pid := v_next v\<rparr> else ps ! j)" if "j < length ps" for j
    using that by (simp add: qs_def)
  have r: "run_inv (v_run v) ps" and pn: "pid_inv ps (v_next v)" using v by (auto simp: sched_inv_def ps_def)
  have "run_inv (v_run v) qs" by (rule run_inv_cong [OF r l]) (use q i in \<open>auto simp: ps_def\<close>)
  moreover have "pid_inv qs (v_next v + 1)"
    unfolding pid_inv_def l
  proof (intro conjI allI impI)
    show "0 < v_next v + 1" using pn by (simp add: pid_inv_def)
    fix j assume j: "j < length ps" "p_state (qs ! j) \<noteq> UNUSED"
    then show "0 < p_pid (qs ! j)" "p_pid (qs ! j) < v_next v + 1"
      using q [OF j(1)] pn by (cases "j = i"; force simp: pid_inv_def)+
  next
    fix j k assume j: "j < length ps" and k: "k < length ps"
      and e: "p_state (qs ! j) \<noteq> UNUSED \<and> p_state (qs ! k) \<noteq> UNUSED \<and> p_pid (qs ! j) = p_pid (qs ! k)"
    have old: "p_pid (ps ! x) < v_next v" if "x < length ps" "p_state (ps ! x) \<noteq> UNUSED" for x
      using pn that by (simp add: pid_inv_def)
    show "j = k"
    proof (cases "j = i \<or> k = i")
      case True
      then show ?thesis using e q [OF j] q [OF k] old [OF j] old [OF k] by (auto split: if_splits)
    next
      case False
      then show ?thesis using e q [OF j] q [OF k] pn j k unfolding pid_inv_def by simp
    qed
  qed
  ultimately show ?thesis using v by (simp add: sched_inv_def ps_def [symmetric] qs_def [symmetric])
qed

text \<open>Processor \<open>c\<close> stops running process \<open>i\<close>, which gets state \<open>st\<close>.\<close>

lemma sched_inv_leave:
  assumes v: "sched_inv v" and c: "c < length (v_run v)" "v_run v ! c = Some i"
    and p: "p_pid p = p_pid (v_procs v ! i)" "p_state p \<noteq> RUNNING" "p_state p \<noteq> UNUSED"
  shows "sched_inv (v\<lparr>v_procs := (v_procs v)[i := p], v_run := (v_run v)[c := None]\<rparr>)"
proof -
  define ps r where "ps = v_procs v" and "r = v_run v"
  have R: "run_inv r ps" and pn: "pid_inv ps (v_next v)" using v by (auto simp: sched_inv_def ps_def r_def)
  have i: "i < length ps" "p_state (ps ! i) = RUNNING"
    using R c unfolding run_inv_def r_def [symmetric] by blast+
  have uq: "d = c" if "d < length r" "r ! d = Some i" for d using R c that unfolding run_inv_def r_def [symmetric] by auto
  have "run_inv (r[c := None]) (ps[i := p])"
    unfolding run_inv_def length_list_update
  proof (intro conjI allI impI)
    fix d j assume d: "d < length r" "r[c := None] ! d = Some j"
    then have dc: "d \<noteq> c" "r ! d = Some j" using c by (auto simp: nth_list_update r_def split: if_splits)
    then have "j \<noteq> i" using uq d(1) by auto
    then show "j < length ps" "p_state (ps[i := p] ! j) = RUNNING" using R d(1) dc unfolding run_inv_def by auto
  next
    fix d e assume a: "d < length r" "e < length r" "r[c := None] ! d = r[c := None] ! e \<and> r[c := None] ! d \<noteq> None"
    then have de: "c \<noteq> d" "c \<noteq> e" using c by (auto simp: r_def)
    have "r ! d = r ! e \<and> r ! d \<noteq> None" using a(3) unfolding nth_list_update_neq [OF de(1)] nth_list_update_neq [OF de(2)] .
    then show "d = e" using run_inv_uniq [OF R a(1,2)] by blast
  next
    fix j assume j: "j < length ps" "p_state (ps[i := p] ! j) = RUNNING"
    then have ji: "j \<noteq> i" using p i by auto
    then have "Some j \<in> set r" using j R unfolding run_inv_def by auto
    then obtain d where "d < length r" "r ! d = Some j" by (auto simp: in_set_conv_nth)
    moreover from this have "d \<noteq> c" using c ji by (auto simp: r_def)
    ultimately show "Some j \<in> set (r[c := None])" by (metis in_set_conv_nth length_list_update nth_list_update_neq)
  qed
  moreover have "pid_inv (ps[i := p]) (v_next v)"
  proof -
    have "p_pid (ps[i := p] ! j) = p_pid (ps ! j)" "p_state (ps[i := p] ! j) \<noteq> UNUSED \<longleftrightarrow> p_state (ps ! j) \<noteq> UNUSED" if "j < length ps" for j
      using that p i by (auto simp: nth_list_update ps_def)
    then show ?thesis using pn unfolding pid_inv_def length_list_update by simp
  qed
  ultimately show ?thesis using v by (simp add: sched_inv_def ps_def r_def)
qed

text \<open>Processor \<open>c\<close>, which runs nothing, starts to run the runnable process \<open>i\<close>.\<close>

lemma sched_inv_run:
  assumes v: "sched_inv v" and c: "c < length (v_run v)" "v_run v ! c = None"
    and i: "i < length (v_procs v)" "p_state (v_procs v ! i) = RUNNABLE"
  shows "sched_inv (v\<lparr>v_run := (v_run v)[c := Some i], v_procs := (v_procs v)[i := (v_procs v ! i)\<lparr>p_state := RUNNING\<rparr>]\<rparr>)"
proof -
  define ps r where "ps = v_procs v" and "r = v_run v"
  define qs where "qs = ps[i := (ps ! i)\<lparr>p_state := RUNNING\<rparr>]"
  have R: "run_inv r ps" and pn: "pid_inv ps (v_next v)" using v by (auto simp: sched_inv_def ps_def r_def)
  have q: "p_state (qs ! j) = (if j = i then RUNNING else p_state (ps ! j))" "p_pid (qs ! j) = p_pid (ps ! j)" if "j < length ps" for j
    using that by (cases "j = i"; simp add: qs_def)+
  have ni: "r ! d \<noteq> Some i" if "d < length r" for d using R that i unfolding run_inv_def ps_def [symmetric] by auto
  have "run_inv (r[c := Some i]) qs"
    unfolding run_inv_def length_list_update
  proof (intro conjI allI impI)
    fix d j assume d: "d < length r" "r[c := Some i] ! d = Some j"
    show "j < length qs" "p_state (qs ! j) = RUNNING"
      using d R i q unfolding run_inv_def by (cases "d = c"; force simp: qs_def ps_def)+
  next
    fix d e assume a: "d < length r" "e < length r" "r[c := Some i] ! d = r[c := Some i] ! e \<and> r[c := Some i] ! d \<noteq> None"
    show "d = e"
    proof (cases "d = c \<or> e = c")
      case True
      then show ?thesis using a ni [OF a(1)] ni [OF a(2)] c by (auto simp: nth_list_update r_def split: if_splits)
    next
      case False
      then have de: "c \<noteq> d" "c \<noteq> e" by simp_all
      have "r ! d = r ! e \<and> r ! d \<noteq> None" using a(3) unfolding nth_list_update_neq [OF de(1)] nth_list_update_neq [OF de(2)] .
      then show ?thesis using run_inv_uniq [OF R a(1,2)] by blast
    qed
  next
    fix j assume j: "j < length qs" "p_state (qs ! j) = RUNNING"
    show "Some j \<in> set (r[c := Some i])"
    proof (cases "j = i")
      case True
      then show ?thesis using c by (simp add: r_def set_update_memI)
    next
      case False
      then have "Some j \<in> set r" using j q(1) [of j] R unfolding run_inv_def by (auto simp: qs_def)
      then obtain d where "d < length r" "r ! d = Some j" by (auto simp: in_set_conv_nth)
      moreover from this have "d \<noteq> c" using c by (auto simp: r_def)
      ultimately show ?thesis by (metis in_set_conv_nth length_list_update nth_list_update_neq)
    qed
  qed
  moreover have "pid_inv qs (v_next v)"
  proof -
    have "p_state (qs ! j) \<noteq> UNUSED \<longleftrightarrow> p_state (ps ! j) \<noteq> UNUSED" if "j < length ps" for j using q(1) [OF that] i by (auto simp: ps_def)
    moreover have "length qs = length ps" by (simp add: qs_def)
    ultimately show ?thesis using pn q(2) unfolding pid_inv_def by simp
  qed
  ultimately show ?thesis using v by (simp add: sched_inv_def ps_def r_def qs_def)
qed

section \<open>What the routines do\<close>

lemma calm_wake: "calm_change ps (map (\<lambda>p. if p_state p = SLEEPING \<and> p_chan p = Some ch then p\<lparr>p_state := RUNNABLE\<rparr> else p) ps)"
  by (auto simp: calm_change_def)

lemma sview_procs_id [simp]: "(sview s)\<lparr>v_procs := ptable (kern s)\<rparr> = sview s"
  by (simp add: sview_def)

definition changes :: "sview \<Rightarrow> sview \<Rightarrow> bool" where
  "changes v w \<longleftrightarrow> (\<exists>qs. w = v\<lparr>v_procs := qs\<rparr> \<and> calm_change (v_procs v) qs)"

lemma changes_refl [simp]: "changes v v"
  unfolding changes_def by (rule exI [of _ "v_procs v"]) simp

lemma changes_trans:
  assumes "changes u v" "changes v w"
  shows "changes u w"
proof -
  obtain qs rs where "v = u\<lparr>v_procs := qs\<rparr>" "calm_change (v_procs u) qs" "w = v\<lparr>v_procs := rs\<rparr>" "calm_change (v_procs v) rs"
    using assms by (auto simp: changes_def)
  then show ?thesis unfolding changes_def using calm_change_trans [of "v_procs u" qs rs] by (intro exI [of _ rs]) simp
qed

lemma changesD: "changes (sview s) (sview t) \<Longrightarrow> calm_change (ptable (kern s)) (ptable (kern t))"
proof -
  assume "changes (sview s) (sview t)"
  then obtain qs where e: "sview t = (sview s)\<lparr>v_procs := qs\<rparr>" and c: "calm_change (ptable (kern s)) qs" by (auto simp: changes_def)
  have "ptable (kern t) = qs" using arg_cong [OF e, of v_procs] by simp
  then show ?thesis using c by simp
qed

lemma changes_inv: "sched_inv v \<Longrightarrow> changes v w \<Longrightarrow> sched_inv w"
  by (auto simp: changes_def intro: sched_inv_change)

lemma changes_cur: "changes v w \<Longrightarrow> v_cur w = v_cur v \<and> v_cpu w = v_cpu v \<and> v_run w = v_run v"
  by (auto simp: changes_def)

lemma changes_upd:
  assumes "i < length (ptable (kern s)) \<Longrightarrow> (p_state (f (proc_at i s)) = RUNNING \<longleftrightarrow> p_state (proc_at i s) = RUNNING) \<and>
    (p_state (f (proc_at i s)) \<noteq> UNUSED \<longrightarrow> p_state (proc_at i s) \<noteq> UNUSED \<and> p_pid (f (proc_at i s)) = p_pid (proc_at i s))"
  shows "changes (sview s) (sview (upd_proc i f s))"
  unfolding changes_def using calm_change_upd [of i "ptable (kern s)" f] assms by (auto simp: proc_at_def)

lemma changes_wakeup1: "changes (sview s) (sview (wakeup1 ch s))"
  unfolding changes_def using calm_wake [of "ptable (kern s)" ch] by auto

lemma changes_reparent: "changes (sview s) (sview (reparent cur is s))"
proof (induction "is" arbitrary: s)
  case (Cons i "is")
  define s1 where "s1 = upd_proc i (\<lambda>p. p\<lparr>p_parent := initproc (kern s)\<rparr>) s"
  define s2 where "s2 = (if p_state (proc_at i s1) = ZOMBIE then wakeup1 (Proc_ch (initproc (kern s1))) s1 else s1)"
  have "changes (sview s) (sview s1)" unfolding s1_def by (rule changes_upd) simp
  moreover have "changes (sview s1) (sview s2)" using changes_wakeup1 [of s1] by (simp add: s2_def del: sview_wakeup1)
  ultimately have "changes (sview s) (sview s2)" by (rule changes_trans)
  then have "changes (sview s) (sview (reparent cur is s2))" using Cons.IH by (rule changes_trans)
  then show ?case using Cons.IH [of s] unfolding reparent.simps Let_def s1_def [symmetric] s2_def [symmetric] by simp
qed simp

lemma yield_view:
  assumes "yield s = Switch u"
  shows "\<exists>i. v_cur (sview s) = Some i \<and> sview u = (sview s)\<lparr>v_procs := (ptable (kern s))[i := (ptable (kern s) ! i)\<lparr>p_state := RUNNABLE\<rparr>]\<rparr>"
proof -
  obtain s1 p s2 where *: "acquire Ptable_lk s = Done () s1" "myproc s1 = Done p s2"
      "(case p of None \<Rightarrow> Panic ''trap'' | Some i \<Rightarrow> sched (upd_proc i (\<lambda>p. p\<lparr>p_state := RUNNABLE\<rparr>) s2)) = Switch u"
    using assms by (auto simp: yield_def bindK_Switch_iff)
  have v: "sview s2 = sview s" "p = v_cur (sview s)" using kept(3) [OF *(1)] myproc_cur [OF *(2)] by simp_all
  obtain i where i: "p = Some i" "sched (upd_proc i (\<lambda>p. p\<lparr>p_state := RUNNABLE\<rparr>) s2) = Switch u" using *(3) by (cases p) auto
  have "ptable (kern s2) = ptable (kern s)" using arg_cong [OF v(1), of v_procs] by simp
  then show ?thesis using sched_Switch(1) [OF i(2)] v i(1) by (intro exI [of _ i]) simp
qed

lemma sleep_view:
  assumes "sleep ch (Some l) s = Switch u"
  shows "\<exists>i. v_cur (sview s) = Some i \<and>
    sview u = (sview s)\<lparr>v_procs := (ptable (kern s))[i := (ptable (kern s) ! i)\<lparr>p_chan := Some ch, p_state := SLEEPING\<rparr>]\<rparr>"
proof -
  obtain p s1 where m: "myproc s = Done p s1" using assms by (auto simp: sleep_def bindK_Switch_iff)
  obtain i s2 where i: "p = Some i" "sview s2 = sview s1"
      "sched (upd_proc i (\<lambda>p. p\<lparr>p_state := SLEEPING\<rparr>) (upd_proc i (\<lambda>p. p\<lparr>p_chan := Some ch\<rparr>) s2)) = Switch u"
    using assms m by (auto simp: sleep_def bindK_iffs bindK_assoc Let_def split: option.splits if_splits dest!: kept(3,4))
  have v: "sview s2 = sview s" "p = v_cur (sview s)" using i(2) myproc_cur [OF m] by simp_all
  have pt: "ptable (kern s2) = ptable (kern s)" using arg_cong [OF v(1), of v_procs] by simp
  have e: "ps[i := (ps[i := (ps ! i)\<lparr>p_chan := Some ch\<rparr>] ! i)\<lparr>p_state := SLEEPING\<rparr>] =
      ps[i := (ps ! i)\<lparr>p_chan := Some ch, p_state := SLEEPING\<rparr>]" for ps
    by (cases "i < length ps") (simp_all add: list_update_beyond)
  show ?thesis using sched_Switch(1) [OF i(3)] v i(1) pt by (intro exI [of _ i]) (simp add: e)
qed

lemma exit_view:
  assumes "exit_tail cur s = Switch u"
  shows "\<exists>w. changes (sview s) w \<and> sview u = w\<lparr>v_procs := (v_procs w)[cur := (v_procs w ! cur)\<lparr>p_state := ZOMBIE\<rparr>]\<rparr>"
proof -
  obtain s1 where a: "acquire Ptable_lk s = Done () s1" using assms by (auto simp: exit_tail_def bindK_Switch_iff)
  define s2 where "s2 = wakeup1 (Proc_ch (p_parent (proc_at cur s1))) s1"
  define s3 where "s3 = reparent cur [0..<length (ptable (kern s2))] s2"
  have "sched (upd_proc cur (\<lambda>p. p\<lparr>p_state := ZOMBIE\<rparr>) s3) = Switch u"
    using assms a unfolding exit_tail_def Let_def by (auto simp: bindK_Switch_iff s2_def s3_def)
  from sched_Switch(1) [OF this] have "sview u = sview (upd_proc cur (\<lambda>p. p\<lparr>p_state := ZOMBIE\<rparr>) s3)" .
  moreover have "changes (sview s1) (sview s3)"
    unfolding s3_def s2_def by (rule changes_trans [OF changes_wakeup1 changes_reparent])
  then have "changes (sview s) (sview s3)" using kept(3) [OF a] by simp
  ultimately show ?thesis by (intro exI [of _ "sview s3"]) simp
qed

lemma wakeup_view: "wakeup ch s = Done u t \<Longrightarrow> changes (sview s) (sview t)"
proof -
  assume "wakeup ch s = Done u t"
  then obtain s1 where "acquire Ptable_lk s = Done () s1" "release Ptable_lk (wakeup1 ch s1) = Done u t"
    by (auto simp: wakeup_def bindK_Done_iff)
  then show ?thesis using kept(3) kept(4) changes_wakeup1 [of s1 ch] by metis
qed

lemma kill_view: "kill pid s = Done r t \<Longrightarrow> changes (sview s) (sview t)"
proof -
  assume a: "kill pid s = Done r t"
  then obtain s1 where s1: "acquire Ptable_lk s = Done () s1" by (auto simp: kill_def bindK_Done_iff)
  show ?thesis
  proof (cases "scan (\<lambda>p. p_pid p = pid) (ptable (kern s1))")
    case None
    then have "release Ptable_lk s1 = Done () t" using a s1 by (auto simp: kill_def bindK_Done_iff)
    then show ?thesis using kept(3) [OF s1] kept(4) by fastforce
  next
    case (Some i)
    define s2 where "s2 = upd_proc i (\<lambda>p. p\<lparr>p_killed := True\<rparr>) s1"
    define s3 where "s3 = (if p_state (proc_at i s2) = SLEEPING then upd_proc i (\<lambda>p. p\<lparr>p_state := RUNNABLE\<rparr>) s2 else s2)"
    have "release Ptable_lk s3 = Done () t" using a s1 Some unfolding kill_def Let_def by (auto simp: bindK_Done_iff s3_def s2_def)
    moreover have "changes (sview s1) (sview s2)" unfolding s2_def by (rule changes_upd) simp
    moreover have "changes (sview s2) (sview s3)"
    proof (cases "p_state (proc_at i s2) = SLEEPING")
      case True
      then show ?thesis unfolding s3_def if_P [OF True] by (intro changes_upd) simp
    qed (simp add: s3_def)
    ultimately show ?thesis using kept(3) [OF s1] kept(4) changes_trans by metis
  qed
qed

lemma make_runnable_view:
  assumes "make_runnable n s = Done u t" "p_state (proc_at n s) = EMBRYO"
  shows "changes (sview s) (sview t)"
proof -
  obtain s1 where s1: "acquire Ptable_lk s = Done () s1" "release Ptable_lk (upd_proc n (\<lambda>p. p\<lparr>p_state := RUNNABLE\<rparr>) s1) = Done () t"
    using assms(1) by (auto simp: make_runnable_def bindK_Done_iff)
  have "proc_at n s1 = proc_at n s" using arg_cong [OF kept(3) [OF s1(1)], of v_procs] by (simp add: proc_at_def)
  then have "changes (sview s1) (sview (upd_proc n (\<lambda>p. p\<lparr>p_state := RUNNABLE\<rparr>) s1))"
    using assms(2) by (intro changes_upd) simp
  then show ?thesis using kept(3) [OF s1(1)] kept(4) [OF s1(2)] by simp
qed

lemma reap_view:
  assumes "reap i s = Done r t" "p_state (proc_at i s) = ZOMBIE"
  shows "changes (sview s) (sview t)"
proof -
  obtain s1 s2 where *: "kfree (p_kstack (proc_at i s)) s = Done () s1"
      "freevm (p_pgdir (proc_at i (upd_proc i (\<lambda>p. p\<lparr>p_kstack := 0\<rparr>) s1))) (upd_proc i (\<lambda>p. p\<lparr>p_kstack := 0\<rparr>) s1) = Done () s2"
    using assms(1) unfolding reap_def Let_def by (auto simp: bindK_Done_iff)
  define f where "f = (\<lambda>p. p\<lparr>p_pid := 0, p_parent := None, p_name := [], p_killed := False, p_state := UNUSED\<rparr> :: proc)"
  have twice: "upd_proc i g (upd_proc i h x) = upd_proc i (\<lambda>p. g (h p)) x" for g h and x :: "'a procs_scheme machine"
  proof -
    have "(ps[i := h (ps ! i)])[i := g (ps[i := h (ps ! i)] ! i)] = ps[i := g (h (ps ! i))]" for ps :: "proc list"
      by (cases "i < length ps") (simp_all add: list_update_beyond)
    then show ?thesis by (simp add: upd_proc_def)
  qed
  have "release Ptable_lk (upd_proc i f s2) = Done () t"
    using assms(1) * unfolding reap_def Let_def by (auto simp: bindK_Done_iff twice f_def)
  then have t: "sview t = sview (upd_proc i f s2)" by (rule kept(4))
  have "changes (sview s1) (sview s2)" unfolding kept(7) [OF *(2)] by (rule changes_upd) simp
  then have c2: "changes (sview s) (sview s2)" using kept(5) [OF *(1)] by simp
  have "p_state (proc_at i s2) \<noteq> RUNNING" if "i < length (ptable (kern s2))"
    using changesD [OF c2] that assms(2) by (auto simp: proc_at_def calm_change_def)
  then have "changes (sview s2) (sview (upd_proc i f s2))" by (intro changes_upd) (simp add: f_def)
  then show ?thesis using c2 changes_trans t by simp
qed

lemma wait_loop_view:
  assumes "wait_loop cur s = Done r t"
  shows "changes (sview s) (sview t)"
proof (cases "scan (\<lambda>p. p_parent p = Some cur \<and> p_state p = ZOMBIE) (ptable (kern s))")
  case (Some i)
  then have "reap i s = Done r t" "p_state (proc_at i s) = ZOMBIE"
    using assms scan_SomeD [OF Some] by (simp_all add: wait_loop_def proc_at_def)
  then show ?thesis by (rule reap_view)
next
  case None
  then have "release Ptable_lk s = Done () t"
    using assms sched_not_Done by (auto simp: wait_loop_def sleep_def bindK_Done_iff Let_def split: if_splits option.splits)
  then show ?thesis using kept(4) by fastforce
qed

lemma wait_loop_sleeps:
  assumes "wait_loop cur s = Switch u"
  shows "sleep (Proc_ch (Some cur)) (Some Ptable_lk) s = Switch u"
proof (cases "scan (\<lambda>p. p_parent p = Some cur \<and> p_state p = ZOMBIE) (ptable (kern s))")
  case (Some i)
  then show ?thesis using assms by (auto simp: wait_loop_def reap_def Let_def bindK_Switch_iff)
next
  case None
  then show ?thesis using assms by (auto simp: wait_loop_def bindK_Switch_iff Let_def split: if_splits)
qed

lemma wait_Done: "wait s = Done r t \<Longrightarrow> changes (sview s) (sview t)"
proof -
  assume "wait s = Done r t"
  then obtain p s1 s2 cur where "myproc s = Done p s1" "acquire Ptable_lk s1 = Done () s2" "wait_loop cur s2 = Done r t"
    by (auto simp: wait_def bindK_Done_iff split: option.splits)
  then show ?thesis using myproc_cur kept(3) wait_loop_view by metis
qed

lemma wait_Switch:
  assumes "wait s = Switch u"
  shows "\<exists>s' ch. sview s' = sview s \<and> sleep ch (Some Ptable_lk) s' = Switch u"
proof -
  obtain p s1 s2 cur where *: "myproc s = Done p s1" "acquire Ptable_lk s1 = Done () s2" "wait_loop cur s2 = Switch u"
    using assms by (auto simp: wait_def bindK_Switch_iff split: option.splits)
  then have "sview s2 = sview s" using myproc_cur [OF *(1)] kept(3) [OF *(2)] by simp
  then show ?thesis using wait_loop_sleeps [OF *(3)] by blast
qed

lemma resume_view:
  "sched_resume en s = Done u t \<Longrightarrow> sview t = sview s"
  by (auto simp: sched_resume_def bindK_Done_iff dest!: v_cpu_mycpu)

lemma sleep_resume_view: "sleep_resume en i l s = Done u t \<Longrightarrow> changes (sview s) (sview t)"
proof -
  assume a: "sleep_resume en i l s = Done u t"
  then obtain s1 where s1: "sched_resume en s = Done () s1" by (auto simp: sleep_resume_def bindK_Done_iff)
  define s2 where "s2 = upd_proc i (\<lambda>p. p\<lparr>p_chan := None\<rparr>) s1"
  have "changes (sview s1) (sview s2)" unfolding s2_def by (rule changes_upd) simp
  moreover have "sview t = sview s2"
    using a s1 unfolding sleep_resume_def Let_def s2_def [symmetric] bindK_Done_iff
    by (auto simp: s2_def [symmetric] bindK_Done_iff split: if_splits dest!: kept(3,4))
  ultimately show ?thesis using resume_view [OF s1] by simp
qed

lemma allocproc_view:
  assumes "allocproc s = Done r t" "sched_inv (sview s)"
  shows "sched_inv (sview t)"
proof -
  obtain s1 where s1: "acquire Ptable_lk s = Done () s1" using assms(1) by (auto simp: allocproc_def bindK_Done_iff)
  have v1: "sview s1 = sview s" by (rule kept(3) [OF s1])
  show ?thesis
  proof (cases "scan (\<lambda>p. p_state p = UNUSED) (ptable (kern s1))")
    case None
    then have "release Ptable_lk s1 = Done () t" using assms(1) s1 by (auto simp: allocproc_def bindK_Done_iff)
    then show ?thesis using kept(4) v1 assms(2) by fastforce
  next
    case (Some i)
    note sc = scan_SomeD [OF Some]
    define s2 where "s2 = upd_kern (\<lambda>k. k\<lparr>nextpid := nextpid k + 1\<rparr>)
      (upd_proc i (\<lambda>p. p\<lparr>p_pid := nextpid (kern (upd_proc i (\<lambda>p. p\<lparr>p_state := EMBRYO\<rparr>) s1))\<rparr>) (upd_proc i (\<lambda>p. p\<lparr>p_state := EMBRYO\<rparr>) s1))"
    have v2: "sview s2 = (sview s1)\<lparr>v_procs := (v_procs (sview s1))[i := (v_procs (sview s1) ! i)\<lparr>p_state := EMBRYO, p_pid := v_next (sview s1)\<rparr>],
        v_next := v_next (sview s1) + 1\<rparr>"
      using sc by (simp add: s2_def sview_def upd_proc_def)
    have i1: "sched_inv (sview s1)" using assms(2) v1 by simp
    have i2: "sched_inv (sview s2)" unfolding v2 by (rule sched_inv_alloc [OF i1]) (use sc in simp_all)
    obtain s3 ks s4 where s3: "release Ptable_lk s2 = Done () s3" "kalloc s3 = Done ks s4"
      using assms(1) s1 Some unfolding allocproc_def Let_def s2_def [symmetric] by (auto simp: bindK_Done_iff s2_def)
    have v4: "sview s4 = sview s2" using kept(4) [OF s3(1)] kept(6) [OF s3(2)] by simp
    have ch: "changes (sview x) (sview (upd_proc i f x))" if "\<And>p. p_state (f p) = p_state p \<and> p_pid (f p) = p_pid p" for f and x :: "'a procs_scheme machine"
      using that by (intro changes_upd) simp
    define s5 where "s5 = upd_proc i (\<lambda>p. p\<lparr>p_kstack := ks\<rparr>) s4"
    have c5: "changes (sview s2) (sview s5)" unfolding s5_def v4 [symmetric] by (rule ch) simp
    have v5: "p_state (proc_at i s5) \<noteq> RUNNING"
      using arg_cong [OF v2, of v_procs] arg_cong [OF v4, of v_procs] sc by (simp add: proc_at_def s5_def upd_proc_def)
    have "changes (sview s5) (sview t)"
    proof (cases "ks = 0")
      case True
      then have "t = upd_proc i (\<lambda>p. p\<lparr>p_state := UNUSED\<rparr>) s5"
        using assms(1) s1 Some s3 unfolding allocproc_def Let_def s2_def [symmetric] by (simp add: s2_def s5_def)
      then show ?thesis using v5 changes_upd [of i s5 "\<lambda>p. p\<lparr>p_state := UNUSED\<rparr>"] by simp
    next
      case False
      define s6 where "s6 = upd_proc i (\<lambda>p. p\<lparr>p_tf := ks + of_nat KSTACKSIZE - sizeof_trapframe\<rparr>) s5"
      define s7 where "s7 = upd_mem (\<lambda>m. write32 m (ks + of_nat KSTACKSIZE - sizeof_trapframe - 4) (trapret_sym (kern s6))) s6"
      define s8 where "s8 = upd_proc i (\<lambda>p. p\<lparr>p_context := ks + of_nat KSTACKSIZE - sizeof_trapframe - 4 - sizeof_context\<rparr>) s7"
      have "sview t = sview s8"
        using False assms(1) s1 Some s3 unfolding allocproc_def Let_def s2_def [symmetric]
        by (auto simp: s2_def s5_def [symmetric] s6_def [symmetric] s7_def [symmetric] s8_def [symmetric])
      moreover have "changes (sview s5) (sview s6)" "changes (sview s7) (sview s8)" "sview s7 = sview s6"
        unfolding s6_def s8_def s7_def by (rule ch, simp)+ (rule sview_upd_mem)
      ultimately show ?thesis using changes_trans by simp
    qed
    then show ?thesis using changes_inv [OF i2 c5] changes_inv by blast
  qed
qed

end
