(* ===== verification/Sched_Steps.thy ===== *)
theory Sched_Steps
  imports Sched_Inv Sample
begin

text \<open>The steps of the process state machine and the property that holds in every reachable state.\<close>

section \<open>The scheduler\<close>





section \<open>Steps\<close>









end
