(* ===== verification/Cstring.thy ===== *)
theory Cstring
  imports Xv6_Prelude
begin

text \<open>
  The strings of the user programs. A pointer to a character of a NUL-terminated string is the list of the characters
  from there on; a read at its end gives the terminating NUL.
\<close>

definition NUL :: char where "NUL = CHR 0x00"

definition chr_at :: "string \<Rightarrow> nat \<Rightarrow> char" where
  "chr_at s i = (if i < length s then s ! i else NUL)"

definition c_string :: "string \<Rightarrow> bool" where
  "c_string s \<longleftrightarrow> NUL \<notin> set s"

lemma NUL_neq [simp]:
  "CHR ''*'' \<noteq> NUL" "NUL \<noteq> CHR ''*''" "CHR ''$'' \<noteq> NUL" "NUL \<noteq> CHR ''^''"
  by (simp_all add: NUL_def)

lemma chr_at_simps [simp]:
  "chr_at [] i = NUL" "chr_at (c # s) 0 = c" "chr_at (c # s) (Suc i) = chr_at s i"
  by (simp_all add: chr_at_def)

lemma chr_at_one [simp]: "chr_at (c # s) 1 = chr_at s 0"
  by (simp add: chr_at_def)

lemma c_string_simps [simp]:
  "c_string []" "c_string (c # s) \<longleftrightarrow> c \<noteq> NUL \<and> c_string s" "c_string (s @ t) \<longleftrightarrow> c_string s \<and> c_string t"
  by (auto simp: c_string_def)

lemma chr_at_0_NUL: "c_string s \<Longrightarrow> chr_at s 0 = NUL \<longleftrightarrow> s = []"
  by (cases s) auto

text \<open>\<^verbatim>\<open>strchr\<close> of the user library as a test: it returns null for the character NUL.\<close>

definition in_str :: "string \<Rightarrow> char \<Rightarrow> bool" where
  "in_str s c \<longleftrightarrow> c \<noteq> NUL \<and> c \<in> set s"

end
