(* ===== verification/Grep.thy ===== *)
theory Grep
  imports Cstring
begin

text \<open>
  The pattern matcher and the line loop of the user program \<^verbatim>\<open>grep.c\<close>. The matcher is compared with a denotational reading of patterns, the
  line loop with the list of lines of the file.
\<close>

section \<open>The matcher\<close>

function matchhere :: "string \<Rightarrow> string \<Rightarrow> bool" and matchstar :: "char \<Rightarrow> string \<Rightarrow> string \<Rightarrow> bool" where
  "matchhere re tx =
     (if chr_at re 0 = NUL then True
      else if chr_at re 1 = CHR ''*'' then matchstar (chr_at re 0) (drop 2 re) tx
      else if chr_at re 0 = CHR ''$'' \<and> chr_at re 1 = NUL then chr_at tx 0 = NUL
      else if chr_at tx 0 \<noteq> NUL \<and> (chr_at re 0 = CHR ''.'' \<or> chr_at re 0 = chr_at tx 0)
        then matchhere (drop 1 re) (drop 1 tx)
      else False)"
| "matchstar c re tx =
     (if matchhere re tx then True
      else if chr_at tx 0 \<noteq> NUL \<and> (chr_at tx 0 = c \<or> c = CHR ''.'') then matchstar c re (drop 1 tx)
      else False)"
  by pat_completeness auto
termination
proof (relation "measures [\<lambda>x. (case x of Inl (re, t) \<Rightarrow> 2 * length re | Inr (c, re, t) \<Rightarrow> 2 * length re + 1),
    \<lambda>x. (case x of Inl (re, t) \<Rightarrow> length t | Inr (c, re, t) \<Rightarrow> length t)]", goal_cases)
  case (2 re tx)
  then have "1 < length re" by (cases re) (auto simp: chr_at_def NUL_def split: if_splits)
  then show ?case by auto
next
  case (3 re tx)
  then have "0 < length re" by (cases re) auto
  then show ?case by simp
next
  case (5 c re tx)
  then have "0 < length tx" by (cases tx) auto
  then show ?case by simp
qed simp_all

declare matchhere.simps [simp del] matchstar.simps [simp del]

function match_loop :: "string \<Rightarrow> string \<Rightarrow> bool" where
  "match_loop re tx =
     (if matchhere re tx then True else if chr_at tx 0 \<noteq> NUL then match_loop re (drop 1 tx) else False)"
  by pat_completeness auto
termination
proof (relation "measure (\<lambda>(re, t). length t)", goal_cases)
  case (2 re tx)
  then have "0 < length tx" by (cases tx) auto
  then show ?case by simp
qed simp

declare match_loop.simps [simp del]

definition match :: "string \<Rightarrow> string \<Rightarrow> bool" where
  "match re tx = (if chr_at re 0 = CHR ''^'' then matchhere (drop 1 re) tx else match_loop re tx)"

section \<open>What a pattern means\<close>

datatype piece = One char | Many char

text \<open>The pieces of a pattern without its anchors, and whether the pattern ends with the anchor \<open>$\<close>.\<close>

fun pieces :: "string \<Rightarrow> piece list" where
  "pieces [] = []"
| "pieces [c] = (if c = CHR ''$'' then [] else [One c])"
| "pieces (c # d # re) = (if d = CHR ''*'' then Many c # pieces re else One c # pieces (d # re))"

fun anchored :: "string \<Rightarrow> bool" where
  "anchored [] = False"
| "anchored [c] = (c = CHR ''$'')"
| "anchored (c # d # re) = (if d = CHR ''*'' then anchored re else anchored (d # re))"

definition accepts :: "char \<Rightarrow> char \<Rightarrow> bool" where
  "accepts c x \<longleftrightarrow> c = CHR ''.'' \<or> c = x"

fun lang :: "piece list \<Rightarrow> string set" where
  "lang [] = {[]}"
| "lang (One c # ps) = {x # w | x w. accepts c x \<and> w \<in> lang ps}"
| "lang (Many c # ps) = {u @ w | u w. list_all (accepts c) u \<and> w \<in> lang ps}"

definition found_here :: "string \<Rightarrow> string \<Rightarrow> bool" where
  "found_here re tx \<longleftrightarrow> (\<exists>u v. tx = u @ v \<and> u \<in> lang (pieces re) \<and> (anchored re \<longrightarrow> v = []))"

lemma found_here_Nil: "found_here [] tx"
  by (simp add: found_here_def)

lemma found_here_dollar: "found_here ''$'' tx \<longleftrightarrow> tx = []"
  by (simp add: found_here_def)

lemma found_here_One:
  assumes "re = [] \<longrightarrow> c \<noteq> CHR ''$''" "\<forall>re'. re \<noteq> CHR ''*'' # re'"
  shows "found_here (c # re) tx \<longleftrightarrow> (\<exists>x t. tx = x # t \<and> accepts c x \<and> found_here re t)"
proof -
  have "pieces (c # re) = One c # pieces re" "anchored (c # re) = anchored re"
    using assms by (cases re; simp)+
  then have e: "found_here (c # re) tx \<longleftrightarrow>
      (\<exists>u v. tx = u @ v \<and> (\<exists>x w. u = x # w \<and> accepts c x \<and> w \<in> lang (pieces re)) \<and> (anchored re \<longrightarrow> v = []))"
    by (simp add: found_here_def)
  show ?thesis
  proof
    assume "found_here (c # re) tx"
    then obtain x w v where "tx = x # w @ v" "accepts c x" "w \<in> lang (pieces re)" "anchored re \<longrightarrow> v = []"
      unfolding e by (elim exE conjE) (simp add: that)
    then show "\<exists>x t. tx = x # t \<and> accepts c x \<and> found_here re t" unfolding found_here_def by blast
  next
    assume "\<exists>x t. tx = x # t \<and> accepts c x \<and> found_here re t"
    then obtain x w v where "tx = (x # w) @ v" "accepts c x" "w \<in> lang (pieces re)" "anchored re \<longrightarrow> v = []"
      unfolding found_here_def by (elim exE conjE) (simp add: that)
    then show "found_here (c # re) tx" unfolding e by blast
  qed
qed

lemma found_here_Many:
  "found_here (c # CHR ''*'' # re) tx \<longleftrightarrow>
     (\<exists>u t. tx = u @ t \<and> list_all (accepts c) u \<and> found_here re t)"
  (is "?L \<longleftrightarrow> ?R")
proof
  assume ?L
  then obtain u w v where "tx = (u @ w) @ v" "list_all (accepts c) u" "w \<in> lang (pieces re)" "anchored re \<longrightarrow> v = []"
    unfolding found_here_def pieces.simps anchored.simps if_True simp_thms lang.simps by blast
  then have "tx = u @ (w @ v)" "found_here re (w @ v)" unfolding found_here_def by (simp, blast)
  then show ?R using \<open>list_all (accepts c) u\<close> by blast
next
  assume ?R
  then obtain u w v where "tx = u @ (w @ v)" "list_all (accepts c) u" "w \<in> lang (pieces re)" "anchored re \<longrightarrow> v = []"
    unfolding found_here_def by blast
  then have "tx = (u @ w) @ v" "u @ w \<in> lang (pieces (c # CHR ''*'' # re))" "anchored (c # CHR ''*'' # re) \<longrightarrow> v = []"
    by auto
  then show ?L unfolding found_here_def by blast
qed

lemma found_here_Many_step:
  "found_here (c # CHR ''*'' # re) tx \<longleftrightarrow>
     found_here re tx \<or> (\<exists>x t. tx = x # t \<and> accepts c x \<and> found_here (c # CHR ''*'' # re) t)"
  (is "?L \<longleftrightarrow> ?R")
proof
  assume ?L
  then obtain u t where u: "tx = u @ t" "list_all (accepts c) u" "found_here re t" unfolding found_here_Many by blast
  show ?R
  proof (cases u)
    case Nil
    then show ?thesis using u by simp
  next
    case (Cons x u')
    then have "found_here (c # CHR ''*'' # re) (u' @ t)" using u unfolding found_here_Many by auto
    then show ?thesis using u Cons by auto
  qed
next
  assume ?R
  then consider "found_here re tx" | x u t where "tx = x # u @ t" "accepts c x" "list_all (accepts c) u" "found_here re t"
    unfolding found_here_Many by blast
  then show ?L
  proof cases
    case 1
    then show ?thesis unfolding found_here_Many by (intro exI [of _ "[]"] exI [of _ tx]) simp
  next
    case (2 x u t)
    then show ?thesis unfolding found_here_Many by (intro exI [of _ "x # u"] exI [of _ t]) simp
  qed
qed

lemma matchhere_spec: "c_string re \<longrightarrow> c_string tx \<longrightarrow> matchhere re tx = found_here re tx"
  and matchstar_spec:
    "c_string re' \<longrightarrow> c_string tx' \<longrightarrow> matchstar c re' tx' = found_here (c # CHR ''*'' # re') tx'"
proof (induction re tx and c re' tx' rule: matchhere_matchstar.induct)
  case (1 re tx)
  show ?case
  proof (intro impI)
    assume s: "c_string re" "c_string tx"
    show "matchhere re tx = found_here re tx"
    proof (cases re)
      case Nil
      then show ?thesis by (simp add: matchhere.simps found_here_Nil)
    next
      case (Cons d re1)
      then have d: "d \<noteq> NUL" "c_string re1" using s by simp_all
      show ?thesis
      proof (cases "chr_at re1 0 = CHR ''*''")
        case True
        then obtain re2 where re2: "re1 = CHR ''*'' # re2" by (cases re1) (auto simp: NUL_def)
        then have "matchstar d re2 tx = found_here (d # CHR ''*'' # re2) tx" using 1(1) s Cons d by auto
        then show ?thesis using Cons re2 d by (subst matchhere.simps) simp
      next
        case ns: False
        then have n: "\<forall>re'. re1 \<noteq> CHR ''*'' # re'" by auto
        show ?thesis
        proof (cases "d = CHR ''$'' \<and> re1 = []")
          case True
          then show ?thesis using Cons s d by (subst matchhere.simps) (simp add: found_here_dollar chr_at_0_NUL)
        next
          case False
          have f: "found_here re tx \<longleftrightarrow> (\<exists>x t. tx = x # t \<and> accepts d x \<and> found_here re1 t)"
            unfolding Cons by (rule found_here_One [OF _ n]) (use False in blast)
          have g: "\<not> (d = CHR ''$'' \<and> chr_at re1 0 = NUL)" using False d chr_at_0_NUL by blast
          have e: "matchhere re tx \<longleftrightarrow> chr_at tx 0 \<noteq> NUL \<and> (d = CHR ''.'' \<or> d = chr_at tx 0) \<and> matchhere re1 (drop 1 tx)"
            using Cons d ns g by (subst matchhere.simps) auto
          show ?thesis
          proof (cases tx)
            case Nil
            then show ?thesis using e f by simp
          next
            case (Cons x t)
            have "matchhere re1 t = found_here re1 t" if "accepts d x"
              using 1(2) that \<open>re = d # re1\<close> Cons s d ns g by (auto simp: accepts_def)
            then show ?thesis using e f Cons s by (auto simp: accepts_def)
          qed
        qed
      qed
    qed
  qed
next
  case (2 c re tx)
  show ?case
  proof (intro impI)
    assume s: "c_string re" "c_string tx"
    have h: "matchhere re tx = found_here re tx" using 2(1) s by simp
    show "matchstar c re tx = found_here (c # CHR ''*'' # re) tx"
    proof (cases tx)
      case Nil
      then show ?thesis using h by (subst matchstar.simps, subst found_here_Many_step) simp
    next
      case (Cons x t)
      have "matchstar c re t = found_here (c # CHR ''*'' # re) t" if "\<not> matchhere re tx" "accepts c x"
        using 2(2) that Cons s by (auto simp: accepts_def)
      then show ?thesis using h Cons s
        by (subst matchstar.simps, subst found_here_Many_step) (auto simp: accepts_def)
    qed
  qed
qed

lemma match_loop_spec:
  assumes "c_string re" "c_string tx"
  shows "match_loop re tx \<longleftrightarrow> (\<exists>u v. tx = u @ v \<and> found_here re v)"
  using assms(2)
proof (induction tx)
  case Nil
  then show ?case using matchhere_spec assms(1) by (subst match_loop.simps) simp
next
  case (Cons x t)
  have "match_loop re (x # t) \<longleftrightarrow> matchhere re (x # t) \<or> match_loop re t"
    using Cons.prems by (subst match_loop.simps) simp
  also have "\<dots> \<longleftrightarrow> found_here re (x # t) \<or> (\<exists>u v. t = u @ v \<and> found_here re v)"
    using Cons matchhere_spec assms(1) by simp
  also have "\<dots> \<longleftrightarrow> (\<exists>u v. x # t = u @ v \<and> found_here re v)"
    by (auto simp: Cons_eq_append_conv)
  finally show ?case .
qed

text \<open>C20. The matcher of \<^verbatim>\<open>grep.c\<close> finds a pattern in a text exactly when some part of the text belongs to the language
  of the pattern: the part may start anywhere, or only at the beginning after \<open>^\<close>, and must reach the end when the
  pattern ends with \<open>$\<close>.\<close>

theorem match_is_language:
  assumes "c_string re" "c_string tx"
  shows "match re tx \<longleftrightarrow>
    (if re \<noteq> [] \<and> hd re = CHR ''^'' then \<exists>v w. tx = v @ w \<and> v \<in> lang (pieces (tl re)) \<and> (anchored (tl re) \<longrightarrow> w = [])
     else \<exists>u v w. tx = u @ v @ w \<and> v \<in> lang (pieces re) \<and> (anchored re \<longrightarrow> w = []))"
proof (cases "re \<noteq> [] \<and> hd re = CHR ''^''")
  case True
  then have "match re tx = matchhere (tl re) tx" by (cases re) (simp_all add: match_def)
  moreover have "c_string (tl re)" using assms(1) by (cases re) simp_all
  ultimately show ?thesis using True matchhere_spec assms by (simp add: found_here_def)
next
  case False
  then have "match re tx = match_loop re tx" by (cases re) (simp_all add: match_def NUL_def)
  then show ?thesis using False match_loop_spec [OF assms] by (auto simp: found_here_def)
qed

theorem match_is_language_witness:
  "match ''a.*z$'' ''xabcz'' \<and> \<not> match ''^b'' ''ab'' \<and>
   (\<exists>u v w. ''xabcz'' = u @ v @ w \<and> v \<in> lang (pieces ''a.*z$'') \<and> (anchored ''a.*z$'' \<longrightarrow> w = []))"
proof -
  have "match ''a.*z$'' ''xabcz''" "\<not> match ''^b'' ''ab''" by code_simp+
  then show ?thesis using match_is_language [of "''a.*z$''" "''xabcz''"] by (simp add: c_string_def NUL_def)
qed

section \<open>The line loop\<close>

text \<open>\<^verbatim>\<open>buf\<close> is a list of 1024 characters, a pointer into it an index. \<^verbatim>\<open>strchr\<close> of the user library stops at NUL.\<close>

definition GREP_BUF :: nat where "GREP_BUF = 1024"

fun find_chr :: "nat \<Rightarrow> string \<Rightarrow> char \<Rightarrow> nat option" where
  "find_chr i [] c = None"
| "find_chr i (x # s) c = (if x = NUL then None else if x = c then Some i else find_chr (Suc i) s c)"

lemma find_chr_less: "find_chr i s c = Some q \<Longrightarrow> i \<le> q \<and> q < i + length s"
  by (induction s arbitrary: i) (fastforce split: if_splits)+

definition newline :: char where "newline = CHR 0x0A"

function grep_lines :: "string \<Rightarrow> string \<Rightarrow> nat \<Rightarrow> string \<Rightarrow> string \<times> nat \<times> string" where
  "grep_lines pattern buf p out =
     (case find_chr p (drop p buf) newline of
        None \<Rightarrow> (buf, p, out)
      | Some q \<Rightarrow>
          let buf = buf[q := NUL] in
          let (buf, out) =
            (if match pattern (drop p buf)
             then (buf[q := newline], out @ take (q + 1 - p) (drop p (buf[q := newline]))) else (buf, out))
          in grep_lines pattern buf (q + 1) out)"
  by pat_completeness auto
termination
  by (relation "measure (\<lambda>(pattern, buf, p, out). length buf - p)") (auto dest!: find_chr_less split: if_splits)

declare grep_lines.simps [simp del]

text \<open>The input is the sequence of pieces that the calls of \<^verbatim>\<open>read\<close> find: a file is one piece, a pipe or the console
  may give one after another. A call takes at most \<open>n\<close> characters of the next piece.\<close>

fun read_piece :: "nat \<Rightarrow> string list \<Rightarrow> string \<times> string list" where
  "read_piece n [] = ([], [])"
| "read_piece n (c # cs) = (take n c, if drop n c = [] then cs else drop n c # cs)"

lemma read_piece_sum:
  "read_piece n cs = (d, cs') \<Longrightarrow> d \<noteq> [] \<Longrightarrow> sum_list (map length cs') < sum_list (map length cs)"
  by (cases cs) (auto split: if_splits)

function grep_loop :: "string \<Rightarrow> string \<Rightarrow> nat \<Rightarrow> string list \<Rightarrow> string \<Rightarrow> string" where
  "grep_loop pattern buf m input out =
     (let (d, input') = read_piece (GREP_BUF - m - 1) input in
      if d = [] then out
      else
        let m = m + length d;
            buf = take (m - length d) buf @ d @ [NUL] @ drop (m + 1) buf;
            (buf, p, out) = grep_lines pattern buf 0 out;
            m = (if p = 0 then 0 else m);
            (buf, m) = (if m > 0 then (take (m - p) (drop p buf) @ drop (m - p) buf, m - p) else (buf, m))
        in grep_loop pattern buf m input' out)"
  by pat_completeness auto
termination
  by (relation "measure (\<lambda>(pattern, buf, m, input, out). sum_list (map length input))") (auto dest: read_piece_sum [OF sym] split: if_splits)

declare grep_loop.simps [simp del]

definition grep :: "string \<Rightarrow> string \<Rightarrow> string list \<Rightarrow> string" where
  "grep pattern buf input = grep_loop pattern buf 0 input []"

section \<open>The matcher stops at the end of the string\<close>

lemma chr_at_cut [simp]: "c_string s \<Longrightarrow> chr_at (s @ NUL # r) 0 = chr_at s 0"
  by (cases s) simp_all

lemma matchhere_cut: "c_string s \<longrightarrow> matchhere re (s @ NUL # r) = matchhere re s"
  and matchstar_cut: "c_string s' \<longrightarrow> matchstar c re' (s' @ NUL # r) = matchstar c re' s'"
proof (induction re s and c re' s' rule: matchhere_matchstar.induct)
  case (1 re s)
  show ?case
  proof (intro impI)
    assume c: "c_string s"
    show "matchhere re (s @ NUL # r) = matchhere re s"
    proof (cases s)
      case Nil
      then show ?thesis using 1(1) c by (subst (1 2) matchhere.simps) simp
    next
      case (Cons x t)
      then show ?thesis using 1 c by (subst (1 2) matchhere.simps) auto
    qed
  qed
next
  case (2 c re s)
  show ?case
  proof (intro impI)
    assume c: "c_string s"
    show "matchstar c re (s @ NUL # r) = matchstar c re s"
      using 2 c by (cases s; subst (1 2) matchstar.simps) auto
  qed
qed

lemma match_cut: "c_string s \<Longrightarrow> match re (s @ NUL # r) = match re s"
proof -
  assume c: "c_string s"
  have "match_loop re (s @ NUL # r) = match_loop re s" using c
  proof (induction s)
    case Nil
    show ?case using matchhere_cut [of "[]" re r] by (subst (1 2) match_loop.simps) simp
  next
    case (Cons x t)
    then show ?case using matchhere_cut [of "x # t" re r] by (subst (1 2) match_loop.simps) simp
  qed
  then show ?thesis using c matchhere_cut by (simp add: match_def)
qed

section \<open>Lines\<close>

definition line_text :: "string \<Rightarrow> bool" where
  "line_text l \<longleftrightarrow> c_string l \<and> newline \<notin> set l"

definition unlines :: "string list \<Rightarrow> string" where
  "unlines ls = concat (map (\<lambda>l. l @ [newline]) ls)"

lemma unlines_simps [simp]:
  "unlines [] = []" "unlines (l # ls) = l @ newline # unlines ls" "unlines (ls @ ls') = unlines ls @ unlines ls'"
  by (simp_all add: unlines_def)

lemma newline_NUL [simp]: "newline \<noteq> NUL" "NUL \<noteq> newline"
  by (simp_all add: newline_def NUL_def)

lemma find_chr_line: "line_text l \<Longrightarrow> find_chr i (l @ newline # r) newline = Some (i + length l)"
  by (induction l arbitrary: i) (auto simp: line_text_def)

lemma find_chr_none: "line_text l \<Longrightarrow> find_chr i (l @ NUL # r) newline = None"
  by (induction l arbitrary: i) (auto simp: line_text_def)

lemma grep_lines_spec:
  assumes "p \<le> length buf" "drop p buf = unlines ls @ tail @ NUL # r" "list_all line_text ls" "line_text tail"
  shows "\<exists>buf'. grep_lines pattern buf p out =
      (buf', p + length (unlines ls), out @ unlines (filter (match pattern) ls)) \<and>
    length buf' = length buf \<and> drop (p + length (unlines ls)) buf' = tail @ NUL # r"
  using assms
proof (induction ls arbitrary: p buf out)
  case Nil
  then show ?case by (subst grep_lines.simps) (simp add: find_chr_none)
next
  case (Cons l ls)
  let ?q = "p + length l"
  have d: "drop p buf = l @ newline # unlines ls @ tail @ NUL # r" using Cons.prems by simp
  have len: "length buf = p + length (l @ newline # unlines ls @ tail @ NUL # r)"
    using arg_cong [OF d, of length] Cons.prems(1) by simp
  have f: "find_chr p (drop p buf) newline = Some ?q" using Cons.prems d by (simp add: find_chr_line)
  have dn: "drop p (buf[?q := x]) = l @ x # unlines ls @ tail @ NUL # r" for x
    using d by (simp add: drop_update_swap list_update_append)
  have cl: "c_string l" using Cons.prems(3) by (simp add: line_text_def)
  define b where "b = (if match pattern l then buf[?q := newline] else buf[?q := NUL])"
  define o1 where "o1 = (if match pattern l then out @ l @ [newline] else out)"
  have e: "grep_lines pattern buf p out = grep_lines pattern b (?q + 1) o1"
    by (subst grep_lines.simps) (simp add: f b_def o1_def dn match_cut cl Let_def)
  have "drop (?q + 1) buf = unlines ls @ tail @ NUL # r"
    using arg_cong [OF d, of "drop (length l + 1)"] by (simp add: add.commute add.left_commute)
  then have db: "drop (?q + 1) b = unlines ls @ tail @ NUL # r" by (simp add: b_def)
  have lb: "?q + 1 \<le> length b" using len by (simp add: b_def)
  have ll: "list_all line_text ls" using Cons.prems(3) by simp
  obtain buf' where "grep_lines pattern b (?q + 1) o1 =
      (buf', ?q + 1 + length (unlines ls), o1 @ unlines (filter (match pattern) ls))"
    "length buf' = length b" "drop (?q + 1 + length (unlines ls)) buf' = tail @ NUL # r"
    using Cons.IH [OF lb db ll Cons.prems(4), of o1] by blast
  then show ?case using e by (simp add: b_def o1_def add.assoc)
qed

text \<open>The first \<open>k\<close> characters of a sequence of lines: whole lines and a beginning of the next.\<close>

lemma take_unlines:
  "list_all line_text ls \<Longrightarrow> \<exists>ls1 ls2 tail. ls = ls1 @ ls2 \<and> take k (unlines ls) = unlines ls1 @ tail \<and> line_text tail \<and>
     tail @ drop k (unlines ls) = unlines ls2 \<and> (ls2 \<noteq> [] \<longrightarrow> length tail \<le> length (hd ls2)) \<and>
     (ls1 = [] \<and> ls \<noteq> [] \<longrightarrow> k \<le> length (hd ls))"
proof (induction ls arbitrary: k)
  case Nil
  then show ?case by (simp add: line_text_def)
next
  case (Cons l ls)
  show ?case
  proof (cases "k \<le> length l")
    case True
    then have "take k (unlines (l # ls)) = take k l" "drop k (unlines (l # ls)) = drop k l @ newline # unlines ls"
      by simp_all
    moreover have "line_text (take k l)" using Cons.prems set_take_subset [of k l] by (auto simp: line_text_def c_string_def)
    ultimately show ?thesis using True by (intro exI [of _ "[]"] exI [of _ "l # ls"] exI [of _ "take k l"]) simp
  next
    case False
    define j where "j = k - length l - 1"
    have "list_all line_text ls" using Cons.prems by simp
    from Cons.IH [OF this, of j] obtain ls1 ls2 tail where h: "ls = ls1 @ ls2" "take j (unlines ls) = unlines ls1 @ tail" "line_text tail"
      "tail @ drop j (unlines ls) = unlines ls2" "ls2 \<noteq> [] \<longrightarrow> length tail \<le> length (hd ls2)"
      by blast
    have "take k (unlines (l # ls)) = l @ newline # take j (unlines ls)" "drop k (unlines (l # ls)) = drop j (unlines ls)"
      using False by (simp_all add: j_def take_Cons' drop_Cons' diff_diff_add)
    then show ?thesis using h by (intro exI [of _ "l # ls1"] exI [of _ ls2] exI [of _ tail]) simp
  qed
qed

lemma line_text_unlines: "line_text (unlines ls) \<longleftrightarrow> ls = []"
  by (cases ls) (auto simp: line_text_def)

definition as_file :: "string \<Rightarrow> string list" where
  "as_file r = (if r = [] then [] else [r])"

lemma read_as_file: "read_piece n (as_file r) = (take n r, as_file (drop n r))"
  by (simp add: as_file_def)

lemma grep_loop_file:
  assumes "list_all line_text ls" "\<forall>l \<in> set ls. length l + 1 < GREP_BUF" "length buf = GREP_BUF"
    "take m buf @ rest = unlines ls" "line_text (take m buf)" "m + 1 < GREP_BUF"
  shows "grep_loop pattern buf m (as_file rest) out = out @ unlines (filter (match pattern) ls)"
  using assms
proof (induction "length ls" arbitrary: ls buf m rest out rule: less_induct)
  case less
  let ?k = "GREP_BUF - 1"
  have lm: "length (take m buf) = m" using less.prems by simp
  show ?case
  proof (cases "ls = []")
    case True
    then show ?thesis using less.prems by (subst grep_loop.simps) (simp add: as_file_def)
  next
    case False
    have "rest \<noteq> []" using False less.prems line_text_unlines [of ls] by auto
    obtain ls1 ls2 tail where h: "ls = ls1 @ ls2" "take ?k (unlines ls) = unlines ls1 @ tail" "line_text tail"
      "tail @ drop ?k (unlines ls) = unlines ls2" "ls2 \<noteq> [] \<longrightarrow> length tail \<le> length (hd ls2)" "ls1 = [] \<longrightarrow> ?k \<le> length (hd ls)"
      using take_unlines [of ls ?k] less.prems(1) False by blast
    have "length (hd ls) + 1 < GREP_BUF" using less.prems(2) False by simp
    then have "length (hd ls) < ?k" by simp
    then have l1: "ls1 \<noteq> []" using h(6) by auto
    define d where "d = take (?k - m) rest"
    have d: "take m buf @ d = unlines ls1 @ tail" "drop (?k - m) rest = drop ?k (unlines ls)"
      using h(2) lm less.prems(6) unfolding less.prems(4) [symmetric] d_def by (simp_all add: min_absorb2)
    have dn: "d \<noteq> []" using \<open>rest \<noteq> []\<close> less.prems(6) by (simp add: d_def)
    define m1 where "m1 = m + length d"
    have m1: "m1 = length (unlines ls1) + length tail" using arg_cong [OF d(1), of length] lm by (simp add: m1_def)
    have "m1 \<le> ?k" using less.prems(6) by (simp add: m1_def d_def)
    define b1 where "b1 = take m buf @ d @ [NUL] @ drop (m1 + 1) buf"
    have b1: "length b1 = GREP_BUF" using \<open>m1 \<le> ?k\<close> lm less.prems(3,6) by (simp add: b1_def m1_def)
    have "b1 = (take m buf @ d) @ NUL # drop (m1 + 1) buf" by (simp add: b1_def)
    then have db1: "drop 0 b1 = unlines ls1 @ tail @ NUL # drop (m1 + 1) buf" unfolding d(1) by simp
    obtain b2 where b2: "grep_lines pattern b1 0 out = (b2, length (unlines ls1), out @ unlines (filter (match pattern) ls1))"
      "length b2 = GREP_BUF" "drop (length (unlines ls1)) b2 = tail @ NUL # drop (m1 + 1) buf"
      using grep_lines_spec [of 0 b1 ls1 tail "drop (m1 + 1) buf" pattern out] b1 db1 h(1,3) less.prems(1) by auto
    have p: "length (unlines ls1) \<noteq> 0" using l1 by (cases ls1) simp_all
    have lt: "m1 - length (unlines ls1) = length tail" using m1 by simp
    define b3 where "b3 = tail @ drop (length tail) b2"
    have e: "grep_loop pattern buf m (as_file rest) out =
        grep_loop pattern b3 (length tail) (as_file (drop (?k - m) rest)) (out @ unlines (filter (match pattern) ls1))"
    proof -
      have rd: "read_piece (GREP_BUF - Suc m) (as_file rest) = (d, as_file (drop (?k - m) rest))"
        by (simp add: read_as_file d_def)
      have bs: "take m buf @ d @ NUL # drop (Suc (m + length d)) buf = b1" by (simp add: b1_def m1_def)
      have ml: "m + length d - length (unlines ls1) = length tail" "0 < m + length d" using lt p m1 by (simp_all add: m1_def)
      have "take (length tail) (drop (length (unlines ls1)) b2) = tail" using b2(3) by simp
      then show ?thesis using dn p by (subst grep_loop.simps) (simp add: rd bs b2(1) ml b3_def)
    qed
    have tl: "length tail + 1 < GREP_BUF"
    proof (cases "ls2 = []")
      case True
      then show ?thesis using h(4) by (simp add: GREP_BUF_def)
    next
      case False
      then have "length (hd ls2) + 1 < GREP_BUF" using less.prems(2) h(1) by auto
      then show ?thesis using h(5) False by auto
    qed
    have "grep_loop pattern b3 (length tail) (as_file (drop (?k - m) rest)) (out @ unlines (filter (match pattern) ls1)) =
        (out @ unlines (filter (match pattern) ls1)) @ unlines (filter (match pattern) ls2)"
    proof (rule less.hyps)
      show "length ls2 < length ls" using h(1) l1 by simp
      show "length b3 = GREP_BUF" using b2(2) tl by (simp add: b3_def)
    qed (use less.prems h d tl in \<open>simp_all add: b3_def\<close>)
    then show ?thesis using e h(1) by simp
  qed
qed

text \<open>C21. On a file whose lines all end with a newline and fit in the buffer with it, \<^verbatim>\<open>grep\<close> prints exactly the lines
  that match the pattern, in order, whatever the buffer held before.\<close>

theorem grep_prints_matching_lines:
  assumes "length buf = GREP_BUF" "list_all line_text ls" "\<forall>l \<in> set ls. length l + 1 < GREP_BUF"
  shows "grep pattern buf [unlines ls] = unlines (filter (match pattern) ls)"
proof (cases "ls = []")
  case True
  then show ?thesis by (subst grep_def, subst grep_loop.simps) simp
next
  case False
  then have "[unlines ls] = as_file (unlines ls)" by (cases ls) (simp_all add: as_file_def)
  then show ?thesis using grep_loop_file [of ls buf 0 "unlines ls" pattern "[]"] assms
    by (simp add: grep_def line_text_def GREP_BUF_def)
qed

theorem grep_prints_matching_lines_witness:
  "grep ''^a.*c$'' (replicate GREP_BUF NUL) [unlines [''abc'', ''xac'', ''ac'']] = unlines [''abc'', ''ac'']"
proof -
  have "filter (match ''^a.*c$'') [''abc'', ''xac'', ''ac''] = [''abc'', ''ac'']" by code_simp
  then show ?thesis
    using grep_prints_matching_lines [of "replicate GREP_BUF NUL" "[''abc'', ''xac'', ''ac'']" "''^a.*c$''"]
    by (simp add: line_text_def c_string_def NUL_def newline_def GREP_BUF_def)
qed

text \<open>A line that arrives in two reads is lost: the first part has no newline, so \<^verbatim>\<open>p == buf\<close> and the loop drops it.\<close>

lemma grep_loses_split_line:
  "match ''b'' ''abc'' \<and> grep ''b'' (replicate GREP_BUF NUL) [''ab'', ''c'' @ [newline]] = [] \<and>
   grep ''b'' (replicate GREP_BUF NUL) [''abc'' @ [newline]] = ''abc'' @ [newline]"
  by code_simp

end
