(* ===== verification/Shell.thy ===== *)
theory Shell
  imports Cstring Syscall
begin

text \<open>
  The shell of xv6 (\<^verbatim>\<open>sh.c\<close>): tokens, the recursive-descent parser, the NUL-termination of the words it found, and the
  execution of a parsed command. The pointers \<^verbatim>\<open>ps\<close>, \<^verbatim>\<open>q\<close> and \<^verbatim>\<open>eq\<close> into the command line are the rest of the line
  they point to, \<^verbatim>\<open>es\<close> is its end. The command nodes that the source allocates are constructors.
\<close>

section \<open>Tokens\<close>

definition whitespace :: string where
  "whitespace = [CHR '' '', CHR 0x09, CHR 0x0D, CHR 0x0A, CHR 0x0B]"

definition symbols :: string where
  "symbols = ''<|>&;()''"

definition skip_white :: "string \<Rightarrow> string" where
  "skip_white s = dropWhile (in_str whitespace) s"

definition gettoken :: "string \<Rightarrow> char \<times> string \<times> string \<times> string" where
  "gettoken ps =
     (let s = skip_white ps; q = s; c = chr_at s 0;
          (ret, s) =
            (if c = NUL then (c, s)
             else if c \<in> {CHR ''|'', CHR ''('', CHR '')'', CHR '';'', CHR ''&'', CHR ''<''} then (c, drop 1 s)
             else if c = CHR ''>'' then (if chr_at s 1 = CHR ''>'' then (CHR ''+'', drop 2 s) else (c, drop 1 s))
             else (CHR ''a'', dropWhile (\<lambda>c. \<not> in_str whitespace c \<and> \<not> in_str symbols c) s))
      in (ret, q, s, skip_white s))"

definition peek :: "string \<Rightarrow> string \<Rightarrow> bool \<times> string" where
  "peek ps toks = (let s = skip_white ps in (chr_at s 0 \<noteq> NUL \<and> in_str toks (chr_at s 0), s))"

section \<open>Commands\<close>

datatype cmd =
    EXEC "(string \<times> string) list"
  | REDIR cmd "string \<times> string" uint nat
  | PIPE cmd cmd
  | LIST cmd cmd
  | BACK cmd

text \<open>The result of a parsing function: a command and the new \<^verbatim>\<open>*ps\<close>, a call of \<^verbatim>\<open>panic\<close>, or no more fuel.\<close>

datatype 'a parsed = Parsed 'a string | Failed string | Out_of_fuel

fun bindP :: "'a parsed \<Rightarrow> ('a \<Rightarrow> string \<Rightarrow> 'b parsed) \<Rightarrow> 'b parsed" where
  "bindP (Parsed a ps) f = f a ps"
| "bindP (Failed e) f = Failed e"
| "bindP Out_of_fuel f = Out_of_fuel"

lemma bindP_cong [fundef_cong]:
  assumes "m = m'" and "\<And>a s. m' = Parsed a s \<Longrightarrow> f a s = g a s"
  shows "bindP m f = bindP m' g"
  using assms by (cases m') auto

lemma bindP_Parsed_iff: "bindP m f = Parsed b t \<longleftrightarrow> (\<exists>a s. m = Parsed a s \<and> f a s = Parsed b t)"
  by (cases m) auto

lemma skip_white_length: "length (skip_white s) \<le> length s"
  by (simp add: skip_white_def length_dropWhile_le)

lemma skip_white_idem [simp]: "skip_white (skip_white s) = skip_white s"
  by (simp add: skip_white_def)

lemma gettoken_length: "gettoken ps = (ret, q, eq, ps') \<Longrightarrow> length ps' \<le> length ps"
  using skip_white_length [of ps] skip_white_length [of eq] length_dropWhile_le [of "\<lambda>c. \<not> in_str whitespace c \<and> \<not> in_str symbols c" "skip_white ps"]
  by (auto simp: gettoken_def Let_def split: if_splits)

lemma skip_white_hd: "skip_white s = c # r \<Longrightarrow> \<not> in_str whitespace c"
  by (metis hd_dropWhile list.distinct(1) list.sel(1) skip_white_def)

text \<open>A token other than the end takes at least one character.\<close>

lemma gettoken_progress:
  assumes g: "gettoken ps = (ret, q, eq, ps')" and n: "chr_at (skip_white ps) 0 \<noteq> NUL"
  shows "length ps' < length ps"
proof -
  obtain c r where c: "skip_white ps = c # r" using n by (cases "skip_white ps") simp_all
  have w: "\<not> in_str whitespace c" using skip_white_hd [OF c] .
  have s: "in_str symbols c \<Longrightarrow> c \<in> set symbols" by (simp add: in_str_def)
  have "length eq \<le> length r" using g n w s
    by (auto simp: gettoken_def c symbols_def Let_def length_dropWhile_le split: if_splits)
  moreover have "ps' = skip_white eq" using g by (auto simp: gettoken_def Let_def split: if_splits)
  ultimately show ?thesis using skip_white_length [of eq] skip_white_length [of ps] c by simp
qed

lemma peek_progress:
  "peek ps toks = (True, ps1) \<Longrightarrow> gettoken ps1 = (ret, q, eq, ps2) \<Longrightarrow> length ps2 < length ps"
  using gettoken_progress [of ps1 ret q eq ps2] skip_white_length [of ps] by (auto simp: peek_def Let_def)

section \<open>The parser\<close>

definition MAXARGS :: nat where "MAXARGS = 10"

function parseredirs :: "cmd \<Rightarrow> string \<Rightarrow> cmd parsed" where
  "parseredirs cmd ps =
     (let (more, ps) = peek ps ''<>'' in
      if more then
        let (tok, _, _, ps) = gettoken ps; (tok1, q, eq, ps) = gettoken ps in
        if tok1 \<noteq> CHR ''a'' then Failed ''missing file for redirection''
        else parseredirs
          (if tok = CHR ''<'' then REDIR cmd (q, eq) O_RDONLY 0
           else if tok = CHR ''>'' then REDIR cmd (q, eq) (O_WRONLY OR O_CREATE) 1
           else if tok = CHR ''+'' then REDIR cmd (q, eq) (O_WRONLY OR O_CREATE) 1
           else cmd) ps
      else Parsed cmd ps)"
  by pat_completeness auto
termination
proof (relation "measure (\<lambda>(cmd, ps). length ps)", goal_cases)
  case (2 cmd ps x more ps1 y tok y1 q1 y2 eq1 ps2 z tok1 z1 q z2 eq ps3)
  then have "length ps3 \<le> length ps2" "length ps2 < length ps" using gettoken_length peek_progress by (metis, metis)
  then show ?case by simp
qed simp

declare parseredirs.simps [simp del]

lemma parseredirs_length: "parseredirs cmd ps = Parsed c ps' \<Longrightarrow> length ps' \<le> length ps"
proof (induction cmd ps arbitrary: c ps' rule: parseredirs.induct)
  case (1 cmd ps)
  obtain more ps1 where p: "peek ps ''<>'' = (more, ps1)" by fastforce
  have l1: "length ps1 \<le> length ps" using p skip_white_length [of ps] by (auto simp: peek_def Let_def)
  show ?case
  proof (cases more)
    case False
    then show ?thesis using "1.prems" p l1 by (auto simp: parseredirs.simps [of cmd ps])
  next
    case True
    obtain tok q1 eq1 ps2 where g1: "gettoken ps1 = (tok, q1, eq1, ps2)" by (cases "gettoken ps1") auto
    obtain tok1 q eq ps3 where g2: "gettoken ps2 = (tok1, q, eq, ps3)" by (cases "gettoken ps2") auto
    have "length ps' \<le> length ps3"
      using "1.prems" "1.IH" p g1 g2 True by (auto simp: parseredirs.simps [of cmd ps] split: if_splits)
    then show ?thesis using gettoken_length [OF g1] gettoken_length [OF g2] l1 by simp
  qed
qed

text \<open>\<^verbatim>\<open>parseexec\<close> keeps a pointer to the \<^verbatim>\<open>EXEC\<close> node while redirections are put around it.\<close>

fun add_arg :: "string \<times> string \<Rightarrow> cmd \<Rightarrow> cmd" where
  "add_arg a (EXEC as) = EXEC (as @ [a])"
| "add_arg a (REDIR c f m fd) = REDIR (add_arg a c) f m fd"
| "add_arg a c = c"

function parseargs :: "nat \<Rightarrow> cmd \<Rightarrow> string \<Rightarrow> cmd parsed" where
  "parseargs argc ret ps =
     (let (stop, ps) = peek ps ''|)&;'' in
      if stop then Parsed ret ps
      else
        let (tok, q, eq, ps) = gettoken ps in
        if tok = NUL then Parsed ret ps
        else if tok \<noteq> CHR ''a'' then Failed ''syntax''
        else if argc + 1 \<ge> MAXARGS then Failed ''too many args''
        else bindP (parseredirs (add_arg (q, eq) ret) ps) (\<lambda>ret ps. parseargs (argc + 1) ret ps))"
  by pat_completeness auto
termination
  by (relation "measure (\<lambda>(argc, ret, ps). MAXARGS - argc)") auto

declare parseargs.simps [simp del]

function parsebacks :: "cmd \<Rightarrow> string \<Rightarrow> cmd parsed" where
  "parsebacks cmd ps =
     (let (more, ps) = peek ps ''&'' in
      if more then let (_, _, _, ps) = gettoken ps in parsebacks (BACK cmd) ps
      else Parsed cmd ps)"
  by pat_completeness auto
termination
proof (relation "measure (\<lambda>(cmd, ps). length ps)", goal_cases)
  case (2 cmd ps x more ps1 y tok y1 q1 y2 eq1 ps2)
  then have "length ps2 < length ps" using peek_progress by metis
  then show ?case by simp
qed simp

declare parsebacks.simps [simp del]

text \<open>The mutually recursive functions take fuel; four calls consume at least one character.\<close>

fun parseline :: "nat \<Rightarrow> string \<Rightarrow> cmd parsed"
  and parsepipe :: "nat \<Rightarrow> string \<Rightarrow> cmd parsed"
  and parseexec :: "nat \<Rightarrow> string \<Rightarrow> cmd parsed"
  and parseblock :: "nat \<Rightarrow> string \<Rightarrow> cmd parsed" where
  "parseline 0 ps = Out_of_fuel"
| "parseline (Suc n) ps =
     bindP (parsepipe n ps) (\<lambda>cmd ps. bindP (parsebacks cmd ps) (\<lambda>cmd ps.
       let (more, ps) = peek ps '';'' in
       if more then let (_, _, _, ps) = gettoken ps in bindP (parseline n ps) (\<lambda>right ps. Parsed (LIST cmd right) ps)
       else Parsed cmd ps))"
| "parsepipe 0 ps = Out_of_fuel"
| "parsepipe (Suc n) ps =
     bindP (parseexec n ps) (\<lambda>cmd ps.
       let (more, ps) = peek ps ''|'' in
       if more then let (_, _, _, ps) = gettoken ps in bindP (parsepipe n ps) (\<lambda>right ps. Parsed (PIPE cmd right) ps)
       else Parsed cmd ps)"
| "parseexec 0 ps = Out_of_fuel"
| "parseexec (Suc n) ps =
     (let (block, ps) = peek ps ''('' in
      if block then parseblock n ps
      else bindP (parseredirs (EXEC []) ps) (\<lambda>ret ps. parseargs 0 ret ps))"
| "parseblock 0 ps = Out_of_fuel"
| "parseblock (Suc n) ps =
     (let (open_par, ps) = peek ps ''('' in
      if \<not> open_par then Failed ''parseblock''
      else
        let (_, _, _, ps) = gettoken ps in
        bindP (parseline n ps) (\<lambda>cmd ps.
          let (close_par, ps) = peek ps '')'' in
          if \<not> close_par then Failed ''syntax - missing )''
          else let (_, _, _, ps) = gettoken ps in parseredirs cmd ps))"

text \<open>A word ends at its pointer \<^verbatim>\<open>eq\<close>, where \<^verbatim>\<open>nulterminate\<close> stores a NUL.\<close>

definition put_nul :: "string \<Rightarrow> string \<Rightarrow> string" where
  "put_nul eq buf = buf[length buf - length eq := NUL]"

fun nulterminate :: "cmd \<Rightarrow> string \<Rightarrow> string" where
  "nulterminate (EXEC as) buf = fold (\<lambda>(q, eq). put_nul eq) as buf"
| "nulterminate (REDIR c (q, eq) m fd) buf = put_nul eq (nulterminate c buf)"
| "nulterminate (PIPE l r) buf = nulterminate r (nulterminate l buf)"
| "nulterminate (LIST l r) buf = nulterminate r (nulterminate l buf)"
| "nulterminate (BACK c) buf = nulterminate c buf"

definition parse_fuel :: "string \<Rightarrow> nat" where
  "parse_fuel s = 4 * length s + 4"

definition parsecmd :: "string \<Rightarrow> (cmd \<times> string) parsed" where
  "parsecmd s =
     bindP (parseline (parse_fuel s) s) (\<lambda>cmd ps.
       let (_, ps) = peek ps [] in
       if ps \<noteq> [] then Failed ''syntax'' else Parsed (cmd, nulterminate cmd s) ps)"

section \<open>Running a command\<close>

definition word_at :: "string \<Rightarrow> string \<Rightarrow> string" where
  "word_at buf q = takeWhile (\<lambda>c. c \<noteq> NUL) (drop (length buf - length q) buf)"

datatype event = Exec "string list" | Close nat | Open string uint | Print string | Exit

text \<open>\<^verbatim>\<open>exec\<close> comes back only when it fails; \<open>opened\<close> and \<open>started\<close> say which calls succeed.\<close>

fun runcmd :: "(string \<Rightarrow> uint \<Rightarrow> bool) \<Rightarrow> (string list \<Rightarrow> bool) \<Rightarrow> string \<Rightarrow> cmd \<Rightarrow> event list" where
  "runcmd opened started buf (EXEC as) =
     (if as = [] then [Exit]
      else let argv = map (\<lambda>(q, eq). word_at buf q) as in
        Exec argv # (if started argv then [] else [Print (''Command not found'' @ [CHR 0x0A]), Exit]))"
| "runcmd opened started buf (REDIR c (q, eq) m fd) =
     Close fd # Open (word_at buf q) m # (if opened (word_at buf q) m then [] else [Print (''Cannot open file'' @ [CHR 0x0A])]) @
     runcmd opened started buf c"
| "runcmd opened started buf (LIST l r) = Print (''list not implemented'' @ [CHR 0x0A]) # runcmd opened started buf l"
| "runcmd opened started buf (PIPE l r) = Print (''pipe not implemented'' @ [CHR 0x0A]) # runcmd opened started buf l"
| "runcmd opened started buf (BACK c) = Print (''background not implemented'' @ [CHR 0x0A]) # runcmd opened started buf c"

section \<open>The parser ends\<close>

lemma parseargs_length: "parseargs argc ret ps = Parsed c ps' \<Longrightarrow> length ps' \<le> length ps"
proof (induction argc ret ps arbitrary: c ps' rule: parseargs.induct)
  case (1 argc ret ps)
  obtain stop ps1 where p: "peek ps ''|)&;'' = (stop, ps1)" by fastforce
  have l1: "length ps1 \<le> length ps" using p skip_white_length [of ps] by (auto simp: peek_def Let_def)
  obtain tok q eq ps2 where g: "gettoken ps1 = (tok, q, eq, ps2)" by (cases "gettoken ps1") auto
  show ?case
  proof (cases "stop \<or> tok = NUL")
    case True
    then show ?thesis using "1.prems" p l1 g gettoken_length [OF g]
      by (auto simp: parseargs.simps [of argc ret ps] split: if_splits)
  next
    case False
    then obtain r ps3 where r: "parseredirs (add_arg (q, eq) ret) ps2 = Parsed r ps3" "parseargs (argc + 1) r ps3 = Parsed c ps'"
        "tok = CHR ''a''" "argc + 1 < MAXARGS"
      using "1.prems" p g by (auto simp: parseargs.simps [of argc ret ps] bindP_Parsed_iff split: if_splits)
    then have "length ps' \<le> length ps3" using "1.IH" p g False by auto
    then show ?thesis using parseredirs_length [OF r(1)] gettoken_length [OF g] l1 by simp
  qed
qed

lemma parsebacks_length: "parsebacks cmd ps = Parsed c ps' \<Longrightarrow> length ps' \<le> length ps"
proof (induction cmd ps arbitrary: c ps' rule: parsebacks.induct)
  case (1 cmd ps)
  obtain more ps1 where p: "peek ps ''&'' = (more, ps1)" by fastforce
  have l1: "length ps1 \<le> length ps" using p skip_white_length [of ps] by (auto simp: peek_def Let_def)
  obtain tok q eq ps2 where g: "gettoken ps1 = (tok, q, eq, ps2)" by (cases "gettoken ps1") auto
  show ?case
  proof (cases more)
    case False
    then show ?thesis using "1.prems" p l1 by (auto simp: parsebacks.simps [of cmd ps])
  next
    case True
    then have "length ps' \<le> length ps2" using 1 p g by (auto simp: parsebacks.simps [of cmd ps])
    then show ?thesis using gettoken_length [OF g] l1 by simp
  qed
qed

lemma bindP_Out_iff: "bindP m f = Out_of_fuel \<longleftrightarrow> m = Out_of_fuel \<or> (\<exists>a s. m = Parsed a s \<and> f a s = Out_of_fuel)"
  by (cases m) auto

lemma parseredirs_ends: "parseredirs cmd ps \<noteq> Out_of_fuel"
proof (induction cmd ps rule: parseredirs.induct)
  case (1 cmd ps)
  obtain more ps1 where p: "peek ps ''<>'' = (more, ps1)" by fastforce
  obtain tok q1 eq1 ps2 where g1: "gettoken ps1 = (tok, q1, eq1, ps2)" by (cases "gettoken ps1") auto
  obtain tok1 q eq ps3 where g2: "gettoken ps2 = (tok1, q, eq, ps3)" by (cases "gettoken ps2") auto
  show ?case using 1 p g1 g2 by (auto simp: parseredirs.simps [of cmd ps])
qed

lemma parseargs_ends: "parseargs argc ret ps \<noteq> Out_of_fuel"
proof (induction argc ret ps rule: parseargs.induct)
  case (1 argc ret ps)
  obtain stop ps1 where p: "peek ps ''|)&;'' = (stop, ps1)" by fastforce
  obtain tok q eq ps2 where g: "gettoken ps1 = (tok, q, eq, ps2)" by (cases "gettoken ps1") auto
  show ?case using 1 p g by (auto simp: parseargs.simps [of argc ret ps] bindP_Out_iff parseredirs_ends)
qed

lemma parsebacks_ends: "parsebacks cmd ps \<noteq> Out_of_fuel"
proof (induction cmd ps rule: parsebacks.induct)
  case (1 cmd ps)
  obtain more ps1 where p: "peek ps ''&'' = (more, ps1)" by fastforce
  obtain tok q eq ps2 where g: "gettoken ps1 = (tok, q, eq, ps2)" by (cases "gettoken ps1") auto
  show ?case using 1 p g by (auto simp: parsebacks.simps [of cmd ps])
qed

lemmas loops_end = parseredirs_ends parseargs_ends parsebacks_ends

abbreviation after_token :: "string \<Rightarrow> string" where
  "after_token ps \<equiv> snd (snd (snd (gettoken ps)))"

lemma peek_after: "length (snd (peek ps toks)) \<le> length ps"
  using skip_white_length [of ps] by (simp add: peek_def Let_def)

lemma token_after: "length (after_token ps) \<le> length ps"
  by (cases "gettoken ps") (auto dest: gettoken_length)

lemma peeked_token_after: "fst (peek ps toks) \<Longrightarrow> length (after_token (snd (peek ps toks))) < length ps"
  using peek_progress [of ps toks "snd (peek ps toks)"] by (metis prod.collapse)

lemma token_peek_after: "length (after_token (snd (peek ps toks))) \<le> length ps"
  using token_after [of "snd (peek ps toks)"] peek_after [of ps toks] by linarith

lemmas unfold_parse = parseline.simps parsepipe.simps parseexec.simps parseblock.simps split_beta Let_def

lemma parse_length:
  "(\<forall>ps c ps'. parseline n ps = Parsed c ps' \<longrightarrow> length ps' \<le> length ps) \<and>
   (\<forall>ps c ps'. parsepipe n ps = Parsed c ps' \<longrightarrow> length ps' \<le> length ps) \<and>
   (\<forall>ps c ps'. parseexec n ps = Parsed c ps' \<longrightarrow> length ps' \<le> length ps) \<and>
   (\<forall>ps c ps'. parseblock n ps = Parsed c ps' \<longrightarrow> length ps' \<le> length ps)"
proof (induction n)
  case 0
  then show ?case by simp
next
  case (Suc n)
  then have l: "\<And>ps c ps'. parseline n ps = Parsed c ps' \<Longrightarrow> length ps' \<le> length ps"
    and p: "\<And>ps c ps'. parsepipe n ps = Parsed c ps' \<Longrightarrow> length ps' \<le> length ps"
    and e: "\<And>ps c ps'. parseexec n ps = Parsed c ps' \<Longrightarrow> length ps' \<le> length ps"
    and b: "\<And>ps c ps'. parseblock n ps = Parsed c ps' \<Longrightarrow> length ps' \<le> length ps" by blast+
  show ?case
    using order_trans [OF l token_peek_after] order_trans [OF p token_peek_after] order_trans [OF b peek_after]
      order_trans [OF parseredirs_length token_peek_after] order_trans [OF parseredirs_length peek_after]
      peek_after l p e b parsebacks_length parseargs_length
    by (auto simp: bindP_Parsed_iff unfold_parse split: if_splits) (meson order_trans)+
qed

lemma parse_ends:
  "(\<forall>ps. 4 * length ps + 4 \<le> n \<longrightarrow> parseline n ps \<noteq> Out_of_fuel) \<and>
   (\<forall>ps. 4 * length ps + 3 \<le> n \<longrightarrow> parsepipe n ps \<noteq> Out_of_fuel) \<and>
   (\<forall>ps. 4 * length ps + 2 \<le> n \<longrightarrow> parseexec n ps \<noteq> Out_of_fuel) \<and>
   (\<forall>ps. 4 * length ps + 1 \<le> n \<longrightarrow> parseblock n ps \<noteq> Out_of_fuel)"
proof (induction n)
  case 0
  then show ?case by simp
next
  case (Suc n)
  have line: "parseline (Suc n) ps \<noteq> Out_of_fuel" if f: "4 * length ps + 4 \<le> Suc n" for ps
  proof
    assume "parseline (Suc n) ps = Out_of_fuel"
    moreover have "parsepipe n ps \<noteq> Out_of_fuel" using Suc f by simp
    ultimately obtain c ps1 c1 ps2 where h: "parsepipe n ps = Parsed c ps1" "parsebacks c ps1 = Parsed c1 ps2"
        "fst (peek ps2 '';'')" "parseline n (after_token (snd (peek ps2 '';''))) = Out_of_fuel"
      by (auto simp: bindP_Out_iff unfold_parse loops_end split: if_splits)
    have "length ps1 \<le> length ps" using parse_length [of n] h(1) by blast
    then have "length (after_token (snd (peek ps2 '';''))) < length ps"
      using peeked_token_after [OF h(3)] parsebacks_length [OF h(2)] by simp
    then show False using Suc f h(4) by auto
  qed
  have pipe: "parsepipe (Suc n) ps \<noteq> Out_of_fuel" if f: "4 * length ps + 3 \<le> Suc n" for ps
  proof
    assume "parsepipe (Suc n) ps = Out_of_fuel"
    moreover have "parseexec n ps \<noteq> Out_of_fuel" using Suc f by simp
    ultimately obtain c ps1 where h: "parseexec n ps = Parsed c ps1"
        "fst (peek ps1 ''|'')" "parsepipe n (after_token (snd (peek ps1 ''|''))) = Out_of_fuel"
      by (auto simp: bindP_Out_iff unfold_parse split: if_splits)
    have "length ps1 \<le> length ps" using parse_length [of n] h(1) by blast
    then have "length (after_token (snd (peek ps1 ''|''))) < length ps" using peeked_token_after [OF h(2)] by simp
    then show False using Suc f h(3) by auto
  qed
  have exec: "parseexec (Suc n) ps \<noteq> Out_of_fuel" if f: "4 * length ps + 2 \<le> Suc n" for ps
  proof -
    have "4 * length (snd (peek ps ''('')) + 1 \<le> n" using f peek_after [of ps "''(''"] by linarith
    then have "parseblock n (snd (peek ps ''('')) \<noteq> Out_of_fuel" using Suc by blast
    then show ?thesis by (auto simp: bindP_Out_iff unfold_parse loops_end)
  qed
  have block: "parseblock (Suc n) ps \<noteq> Out_of_fuel" if f: "4 * length ps + 1 \<le> Suc n" for ps
  proof
    assume "parseblock (Suc n) ps = Out_of_fuel"
    then have h: "fst (peek ps ''('')" "parseline n (after_token (snd (peek ps ''(''))) = Out_of_fuel"
      by (auto simp: bindP_Out_iff unfold_parse loops_end split: if_splits)
    have "length (after_token (snd (peek ps ''(''))) < length ps" by (rule peeked_token_after [OF h(1)])
    then show False using Suc f h(2) by auto
  qed
  show ?case using line pipe exec block by blast
qed

text \<open>More fuel gives the same result.\<close>

definition fuel_le :: "'a parsed \<Rightarrow> 'a parsed \<Rightarrow> bool" where
  "fuel_le r r' \<longleftrightarrow> r = Out_of_fuel \<or> r' = r"

lemma fuel_le_refl [simp, intro]: "fuel_le r r"
  by (simp add: fuel_le_def)

lemma fuel_le_Out [simp, intro]: "fuel_le Out_of_fuel r"
  by (simp add: fuel_le_def)

lemma fuel_le_trans: "fuel_le r r1 \<Longrightarrow> fuel_le r1 r2 \<Longrightarrow> fuel_le r r2"
  by (auto simp: fuel_le_def)

lemma fuel_le_bindP: "fuel_le m m' \<Longrightarrow> (\<And>a s. fuel_le (f a s) (f' a s)) \<Longrightarrow> fuel_le (bindP m f) (bindP m' f')"
  by (cases m) (auto simp: fuel_le_def)

lemma fuel_le_if: "(b \<Longrightarrow> fuel_le x x') \<Longrightarrow> (\<not> b \<Longrightarrow> fuel_le y y') \<Longrightarrow> fuel_le (if b then x else y) (if b then x' else y')"
  by simp

definition parse_le :: "nat \<Rightarrow> nat \<Rightarrow> bool" where
  "parse_le n k \<longleftrightarrow> (\<forall>ps. fuel_le (parseline n ps) (parseline k ps) \<and> fuel_le (parsepipe n ps) (parsepipe k ps) \<and>
     fuel_le (parseexec n ps) (parseexec k ps) \<and> fuel_le (parseblock n ps) (parseblock k ps))"

lemma parse_le_Suc: "parse_le n k \<Longrightarrow> parse_le (Suc n) (Suc k)"
  unfolding parse_le_def unfold_parse by (intro allI conjI fuel_le_bindP fuel_le_if fuel_le_refl) blast+

lemma parse_more_fuel: "parse_le n (Suc n)"
proof (induction n)
  case 0
  then show ?case by (simp add: parse_le_def)
qed (rule parse_le_Suc)

lemma parseline_fuel: "parse_fuel ps \<le> n \<Longrightarrow> parseline n ps = parseline (parse_fuel ps) ps"
proof (induction n rule: dec_induct)
  case (step n)
  have "parseline n ps \<noteq> Out_of_fuel" using parse_ends [of n] step(1) by (simp add: parse_fuel_def)
  moreover have "fuel_le (parseline n ps) (parseline (Suc n) ps)" using parse_more_fuel [of n] by (simp add: parse_le_def)
  ultimately show ?case using step by (simp add: fuel_le_def)
qed simp

text \<open>C22. The parser of the shell ends on every command line: with the fuel \<^verbatim>\<open>parsecmd\<close> gives it, four for each character
  and four more, it returns a command or panics, and more fuel changes nothing.\<close>

theorem parsecmd_ends:
  "parsecmd s \<noteq> Out_of_fuel \<and> (\<forall>n \<ge> parse_fuel s. parseline n s = parseline (parse_fuel s) s)"
proof -
  have "parseline (parse_fuel s) s \<noteq> Out_of_fuel" using parse_ends [of "parse_fuel s"] by (simp add: parse_fuel_def)
  then have "parsecmd s \<noteq> Out_of_fuel" by (auto simp: parsecmd_def bindP_Out_iff split_beta Let_def)
  then show ?thesis using parseline_fuel by blast
qed

theorem parsecmd_ends_witness:
  "parsecmd ''(ls|wc)>f;echo a&'' \<noteq> Out_of_fuel \<and>
   parseline 1000 ''(ls|wc)>f;echo a&'' = parseline (parse_fuel ''(ls|wc)>f;echo a&'') ''(ls|wc)>f;echo a&''"
proof -
  have "parse_fuel ''(ls|wc)>f;echo a&'' \<le> 1000" by (simp add: parse_fuel_def)
  then show ?thesis using parsecmd_ends [of "''(ls|wc)>f;echo a&''"] by blast
qed

end
