(* ===== verification/Shell_Roundtrip.thy ===== *)
theory Shell_Roundtrip
  imports Shell "HOL-Library.Sublist"
begin

text \<open>
  The parser of the shell reads back every command tree from its printed form: sequences, background commands, pipes,
  redirections and parentheses.
\<close>

section \<open>Command trees and how they are written\<close>

datatype tree = TExec "string list" | TRedir tree string bool | TPipe tree tree | TList tree tree | TBack tree

definition word_char :: "char \<Rightarrow> bool" where
  "word_char c \<longleftrightarrow> c \<noteq> NUL \<and> \<not> in_str whitespace c \<and> \<not> in_str symbols c"

definition word :: "string \<Rightarrow> bool" where
  "word w \<longleftrightarrow> w \<noteq> [] \<and> list_all word_char w"

fun tree_ok :: "tree \<Rightarrow> bool" where
  "tree_ok (TExec ws) \<longleftrightarrow> list_all word ws \<and> length ws < MAXARGS"
| "tree_ok (TRedir t f out) \<longleftrightarrow> tree_ok t \<and> word f"
| "tree_ok (TPipe l r) \<longleftrightarrow> tree_ok l \<and> tree_ok r"
| "tree_ok (TList l r) \<longleftrightarrow> tree_ok l \<and> tree_ok r"
| "tree_ok (TBack t) \<longleftrightarrow> tree_ok t"

fun lev :: "tree \<Rightarrow> nat" where
  "lev (TExec ws) = 0"
| "lev (TRedir t f out) = 0"
| "lev (TPipe l r) = 1"
| "lev (TBack t) = 2"
| "lev (TList l r) = 3"

definition paren :: "bool \<Rightarrow> string \<Rightarrow> string" where
  "paren b s = (if b then CHR ''('' # s @ '')'' else s)"

fun body :: "tree \<Rightarrow> string" where
  "body (TExec ws) = concat (map (\<lambda>w. w @ '' '') ws)"
| "body (TRedir t f out) = paren (0 < lev t) (body t) @ (if out then CHR ''>'' else CHR ''<'') # f"
| "body (TPipe l r) = paren (0 < lev l) (body l) @ CHR ''|'' # paren (1 < lev r) (body r)"
| "body (TBack t) = paren (2 < lev t) (body t) @ ''&''"
| "body (TList l r) = paren (2 < lev l) (body l) @ CHR '';'' # body r"

abbreviation pr :: "nat \<Rightarrow> tree \<Rightarrow> string" where
  "pr k t \<equiv> paren (k < lev t) (body t)"

section \<open>Which command nodes stand for a tree\<close>

definition ends_word :: "string \<Rightarrow> bool" where
  "ends_word s \<longleftrightarrow> s = [] \<or> in_str whitespace (hd s) \<or> in_str symbols (hd s)"

definition tok :: "string \<Rightarrow> string \<times> string \<Rightarrow> string \<Rightarrow> bool" where
  "tok buf p w \<longleftrightarrow> fst p = w @ snd p \<and> word w \<and> ends_word (snd p) \<and> suffix (fst p) buf"

fun repr :: "string \<Rightarrow> cmd \<Rightarrow> tree \<Rightarrow> bool" where
  "repr buf (EXEC as) (TExec ws) \<longleftrightarrow> list_all2 (tok buf) as ws"
| "repr buf (REDIR c p m fd) (TRedir t f out) \<longleftrightarrow> repr buf c t \<and> tok buf p f \<and>
     m = (if out then O_WRONLY OR O_CREATE else O_RDONLY) \<and> fd = (if out then 1 else 0)"
| "repr buf (PIPE l r) (TPipe l' r') \<longleftrightarrow> repr buf l l' \<and> repr buf r r'"
| "repr buf (LIST l r) (TList l' r') \<longleftrightarrow> repr buf l l' \<and> repr buf r r'"
| "repr buf (BACK c) (TBack t) \<longleftrightarrow> repr buf c t"
| "repr buf c t \<longleftrightarrow> False"

section \<open>Tokens of printed text\<close>

lemma skip_white_simps [simp]:
  "skip_white [] = []" "in_str whitespace c \<Longrightarrow> skip_white (c # s) = skip_white s"
  "\<not> in_str whitespace c \<Longrightarrow> skip_white (c # s) = c # s"
  by (simp_all add: skip_white_def)

lemma white_space [simp]: "in_str whitespace (CHR '' '')"
  by (simp add: in_str_def whitespace_def NUL_def)

lemma symbol_not_white:
  "c \<in> set symbols \<Longrightarrow> \<not> in_str whitespace c" "c \<in> set symbols \<Longrightarrow> c \<noteq> NUL" "c \<in> set symbols \<Longrightarrow> \<not> word_char c"
  by (auto simp: symbols_def in_str_def whitespace_def NUL_def word_char_def)

lemma skip_word: "word w \<Longrightarrow> skip_white (w @ s) = w @ s"
  by (cases w) (auto simp: word_def word_char_def)

lemma word_first: "word w \<Longrightarrow> word_char (chr_at (w @ s) 0)"
  by (cases w) (auto simp: word_def)

lemma gettoken_word:
  assumes "word w" "ends_word s"
  shows "gettoken (w @ s) = (CHR ''a'', w @ s, s, skip_white s)"
proof -
  obtain c v where w: "w = c # v" using assms(1) by (cases w) (auto simp: word_def)
  have c: "word_char c" using assms(1) w by (simp add: word_def)
  then have "c \<notin> set symbols" by (metis symbol_not_white(3))
  then have "c \<noteq> CHR ''|''" "c \<noteq> CHR ''(''" "c \<noteq> CHR '')''" "c \<noteq> CHR '';''" "c \<noteq> CHR ''&''" "c \<noteq> CHR ''<''" "c \<noteq> CHR ''>''"
    by (auto simp: symbols_def)
  moreover have "dropWhile (\<lambda>c. \<not> in_str whitespace c \<and> \<not> in_str symbols c) (w @ s) = s"
  proof -
    have "\<forall>x \<in> set w. \<not> in_str whitespace x \<and> \<not> in_str symbols x" using assms(1) by (auto simp: word_def word_char_def list_all_iff)
    then have "dropWhile (\<lambda>c. \<not> in_str whitespace c \<and> \<not> in_str symbols c) (w @ s) = dropWhile (\<lambda>c. \<not> in_str whitespace c \<and> \<not> in_str symbols c) s"
      by (simp add: dropWhile_append3)
    also have "\<dots> = s" using assms(2) by (cases s) (auto simp: ends_word_def word_char_def)
    finally show ?thesis .
  qed
  ultimately show ?thesis using skip_word [OF assms(1), of s] c w by (simp add: gettoken_def Let_def word_char_def)
qed

lemma in_symbols [simp]:
  "CHR ''<'' \<in> set symbols" "CHR ''|'' \<in> set symbols" "CHR ''>'' \<in> set symbols" "CHR ''&'' \<in> set symbols"
  "CHR '';'' \<in> set symbols" "CHR ''('' \<in> set symbols" "CHR '')'' \<in> set symbols"
  by (simp_all add: symbols_def)

text \<open>What may come after a piece of printed text: the end or one of a few symbols.\<close>

definition follows :: "string \<Rightarrow> string \<Rightarrow> bool" where
  "follows cs s \<longleftrightarrow> set cs \<subseteq> set symbols \<and> (s = [] \<or> hd s \<in> set cs)"

lemma follows_Cons [simp]: "follows cs (c # s) \<longleftrightarrow> set cs \<subseteq> set symbols \<and> c \<in> set cs"
  by (simp add: follows_def)

lemma follows_mono: "follows cs s \<Longrightarrow> set cs \<subseteq> set ds \<Longrightarrow> set ds \<subseteq> set symbols \<Longrightarrow> follows ds s"
  by (auto simp: follows_def)

lemma skip_follows: "follows cs s \<Longrightarrow> skip_white s = s"
  by (cases s) (auto simp: symbol_not_white)

lemma peek_follows: "follows cs s \<Longrightarrow> peek s toks = (s \<noteq> [] \<and> hd s \<in> set toks, s)"
  by (cases s) (auto simp: peek_def skip_follows in_str_def dest: symbol_not_white(2) subsetD)

lemma ends_word_follows: "follows cs s \<Longrightarrow> ends_word s"
  by (cases s) (auto simp: ends_word_def in_str_def dest: symbol_not_white(2) subsetD)

lemma peek_word: "word w \<Longrightarrow> set toks \<subseteq> set symbols \<Longrightarrow> peek (w @ s) toks = (False, w @ s)"
  using word_first [of w s] symbol_not_white(3) [of "chr_at (w @ s) 0"] by (auto simp: peek_def skip_word in_str_def Let_def)

lemma peek_skip: "peek (skip_white s) toks = peek s toks"
  by (simp add: peek_def)

lemma gettoken_symbol:
  assumes "c \<in> set ''|();&<''"
  shows "gettoken (c # s) = (c, c # s, s, skip_white s)"
proof -
  have m: "c \<in> {CHR ''|'', CHR ''('', CHR '')'', CHR '';'', CHR ''&'', CHR ''<''}" using assms by simp
  have "c \<in> set symbols" using assms by (auto simp: symbols_def)
  then have "skip_white (c # s) = c # s" "c \<noteq> NUL" by (simp_all add: symbol_not_white)
  then show ?thesis unfolding gettoken_def Let_def by (simp only: chr_at_simps m if_True if_False prod.case) simp
qed

lemma gettoken_greater:
  assumes "chr_at s 0 \<noteq> CHR ''>''"
  shows "gettoken (CHR ''>'' # s) = (CHR ''>'', CHR ''>'' # s, s, skip_white s)"
proof -
  have "skip_white (CHR ''>'' # s) = CHR ''>'' # s" by (simp add: symbol_not_white symbols_def)
  then show ?thesis using assms by (simp add: gettoken_def NUL_def Let_def)
qed

lemma gettoken_redir:
  "word f \<Longrightarrow> gettoken ((if out then CHR ''>'' else CHR ''<'') # f @ s) =
     (if out then CHR ''>'' else CHR ''<'', (if out then CHR ''>'' else CHR ''<'') # f @ s, f @ s, f @ s)"
proof -
  assume f: "word f"
  have "chr_at (f @ s) 0 \<noteq> CHR ''>''" using word_first [OF f, of s] symbol_not_white(3) [of "CHR ''>''"] by (auto simp: symbols_def)
  then show ?thesis by (simp add: gettoken_symbol gettoken_greater skip_word [OF f])
qed

lemma parseredirs_skip: "parseredirs c (skip_white s) = parseredirs c s"
  by (subst (1 2) parseredirs.simps) (simp add: peek_skip)

lemma parseredirs_none: "\<not> fst (peek s ''<>'') \<Longrightarrow> parseredirs c s = Parsed c (snd (peek s ''<>''))"
  by (subst parseredirs.simps) (simp add: split_beta)

lemma parseredirs_one:
  assumes "word f" "ends_word s"
  shows "parseredirs c ((if out then CHR ''>'' else CHR ''<'') # f @ s) =
    parseredirs (REDIR c (f @ s, s) (if out then O_WRONLY OR O_CREATE else O_RDONLY) (if out then 1 else 0)) s"
proof -
  let ?ps = "(if out then CHR ''>'' else CHR ''<'') # f @ s"
  have "peek ?ps ''<>'' = (True, ?ps)" by (subst peek_follows [of "''<>''"]) (auto simp: symbols_def)
  then show ?thesis
    by (subst parseredirs.simps) (simp add: gettoken_redir [OF assms(1)] gettoken_word [OF assms] parseredirs_skip)
qed

lemma parseargs_words:
  assumes "list_all word ws" "argc + length ws < MAXARGS" "suffix (body (TExec ws) @ rest) buf"
  shows "\<exists>as'. bindP (parseredirs (EXEC as) (body (TExec ws) @ rest)) (parseargs argc) =
      bindP (parseredirs (EXEC (as @ as')) rest) (parseargs (argc + length ws)) \<and> list_all2 (tok buf) as' ws"
  using assms
proof (induction ws arbitrary: as argc)
  case Nil
  then show ?case by (intro exI [of _ "[]"]) simp
next
  case (Cons w ws)
  define s' where "s' = body (TExec ws) @ rest"
  define s where "s = CHR '' '' # s'"
  have w: "word w" using Cons.prems by simp
  have e: "ends_word s" "skip_white s = skip_white s'" by (simp_all add: s_def ends_word_def)
  have b: "body (TExec (w # ws)) @ rest = w @ s" by (simp add: s_def s'_def)
  have "peek (w @ s) ''<>'' = (False, w @ s)" "peek (w @ s) ''|)&;'' = (False, w @ s)"
    using peek_word [OF w] by (simp_all add: symbols_def)
  then have "bindP (parseredirs (EXEC as) (w @ s)) (parseargs argc) =
      bindP (parseredirs (EXEC (as @ [(w @ s, s)])) (skip_white s)) (parseargs (argc + 1))"
    using parseredirs_none [of "w @ s" "EXEC as"] Cons.prems(2)
    by (simp add: parseargs.simps [of argc] gettoken_word [OF w e(1)] NUL_def)
  also have "\<dots> = bindP (parseredirs (EXEC (as @ [(w @ s, s)])) s') (parseargs (argc + 1))"
    by (simp add: parseredirs_skip e(2))
  finally have 1: "bindP (parseredirs (EXEC as) (w @ s)) (parseargs argc) = \<dots>" .
  have "suffix s' buf" using Cons.prems(3) unfolding b s_def by (metis append_Cons append_Nil suffix_appendD)
  moreover have "list_all word ws" "argc + 1 + length ws < MAXARGS" using Cons.prems by simp_all
  ultimately obtain as' where as': "bindP (parseredirs (EXEC (as @ [(w @ s, s)])) s') (parseargs (argc + 1)) =
      bindP (parseredirs (EXEC ((as @ [(w @ s, s)]) @ as')) rest) (parseargs (argc + 1 + length ws))" "list_all2 (tok buf) as' ws"
    using Cons.IH unfolding s'_def by blast
  have "tok buf (w @ s, s) w" using w e Cons.prems(3) unfolding b by (simp add: tok_def)
  then show ?case unfolding b 1 using as' by (intro exI [of _ "(w @ s, s) # as'"]) simp
qed

section \<open>Reading back, level by level\<close>

definition ev :: "(nat \<Rightarrow> bool) \<Rightarrow> bool" where
  "ev P \<longleftrightarrow> (\<exists>N. \<forall>n \<ge> N. P n)"

lemma ev_Suc: "ev (\<lambda>n. P (Suc n)) \<Longrightarrow> ev P"
  unfolding ev_def by (metis Suc_le_D Suc_le_mono)

lemma ev_mp: "ev P \<Longrightarrow> (\<And>n. P n \<Longrightarrow> Q n) \<Longrightarrow> ev Q"
  unfolding ev_def by blast

lemma ev_conj: "ev P \<Longrightarrow> ev Q \<Longrightarrow> ev (\<lambda>n. P n \<and> Q n)"
  unfolding ev_def by (metis max.cobounded1 max.cobounded2 order_trans)

fun exec_root :: "tree \<Rightarrow> bool" where
  "exec_root (TExec ws) = True"
| "exec_root (TRedir t f out) = exec_root t"
| "exec_root t = False"

text \<open>What is left to do after an element of a pipe has been read, when redirections may follow.\<close>

definition more_redirs :: "bool \<Rightarrow> nat \<Rightarrow> cmd \<Rightarrow> string \<Rightarrow> cmd parsed" where
  "more_redirs e argc c rest = (if e then bindP (parseredirs c rest) (parseargs argc) else parseredirs c rest)"

definition reads_elem :: "string \<Rightarrow> tree \<Rightarrow> bool" where
  "reads_elem buf t \<longleftrightarrow> (\<forall>rest. follows ''<>|)&;'' rest \<longrightarrow> suffix (pr 0 t @ rest) buf \<longrightarrow>
     (\<exists>c argc. repr buf c t \<and> ev (\<lambda>n. parseexec n (pr 0 t @ rest) = more_redirs (exec_root t) argc c rest)))"

definition reads_exec :: "string \<Rightarrow> tree \<Rightarrow> bool" where
  "reads_exec buf t \<longleftrightarrow> (\<forall>rest. follows ''|)&;'' rest \<longrightarrow> suffix (pr 0 t @ rest) buf \<longrightarrow>
     (\<exists>c. repr buf c t \<and> ev (\<lambda>n. parseexec n (pr 0 t @ rest) = Parsed c rest)))"

definition reads_pipe :: "string \<Rightarrow> tree \<Rightarrow> bool" where
  "reads_pipe buf t \<longleftrightarrow> (\<forall>rest. follows '')&;'' rest \<longrightarrow> suffix (pr 1 t @ rest) buf \<longrightarrow>
     (\<exists>c. repr buf c t \<and> ev (\<lambda>n. parsepipe n (pr 1 t @ rest) = Parsed c rest)))"

definition reads_back :: "string \<Rightarrow> tree \<Rightarrow> bool" where
  "reads_back buf t \<longleftrightarrow> (\<forall>rest. follows '')&;'' rest \<longrightarrow> suffix (pr 2 t @ rest) buf \<longrightarrow>
     (\<exists>c. repr buf c t \<and> ev (\<lambda>n. bindP (parsepipe n (pr 2 t @ rest)) parsebacks = parsebacks c rest)))"

definition reads_line :: "string \<Rightarrow> tree \<Rightarrow> bool" where
  "reads_line buf t \<longleftrightarrow> (\<forall>rest. follows '')'' rest \<longrightarrow> suffix (pr 3 t @ rest) buf \<longrightarrow>
     (\<exists>c. repr buf c t \<and> ev (\<lambda>n. parseline n (pr 3 t @ rest) = Parsed c rest)))"

lemma bindP_assoc: "bindP (bindP m f) g = bindP m (\<lambda>a s. bindP (f a s) g)"
  by (cases m) simp_all

lemma peek_in: "follows cs s \<Longrightarrow> peek s cs = (s \<noteq> [], s)"
  by (auto simp: peek_follows) (simp add: follows_def)

lemma peek_out: "follows cs s \<Longrightarrow> set cs \<inter> set toks = {} \<Longrightarrow> peek s toks = (False, s)"
  by (auto simp: peek_follows) (auto simp: follows_def)

lemma gettoken_end: "gettoken [] = (NUL, [], [], [])"
  by (simp add: gettoken_def)

lemma parseargs_end: "follows ''|)&;'' s \<Longrightarrow> parseargs argc c s = Parsed c s"
  by (cases s; subst parseargs.simps) (simp_all add: peek_in gettoken_end)

lemma parseredirs_end: "follows ''|)&;'' s \<Longrightarrow> parseredirs c s = Parsed c s"
  by (subst parseredirs_none) (simp_all add: peek_out)

lemma parse_skip:
  "parseexec n (skip_white s) = parseexec n s" "parsepipe n (skip_white s) = parsepipe n s"
  "parseline n (skip_white s) = parseline n s"
proof -
  show e: "parseexec n (skip_white s) = parseexec n s" for n by (cases n) (simp_all add: peek_skip)
  show p: "parsepipe n (skip_white s) = parsepipe n s" for n by (cases n) (simp_all add: e)
  show "parseline n (skip_white s) = parseline n s" by (cases n) (simp_all add: p)
qed

lemma elem_exec: "reads_elem buf t \<Longrightarrow> reads_exec buf t"
  unfolding reads_exec_def
proof (intro allI impI)
  fix rest assume r: "reads_elem buf t" "follows ''|)&;'' rest" "suffix (pr 0 t @ rest) buf"
  have "follows ''<>|)&;'' rest" using r(2) by (rule follows_mono) auto
  then obtain c argc where "repr buf c t" "ev (\<lambda>n. parseexec n (pr 0 t @ rest) = more_redirs (exec_root t) argc c rest)"
    using r unfolding reads_elem_def by blast
  moreover have "more_redirs (exec_root t) argc c rest = Parsed c rest"
    using r(2) by (simp add: more_redirs_def parseredirs_end parseargs_end)
  ultimately show "\<exists>c. repr buf c t \<and> ev (\<lambda>n. parseexec n (pr 0 t @ rest) = Parsed c rest)" by auto
qed

lemma exec_pipe:
  assumes "reads_exec buf t" "pr 1 t = pr 0 t"
  shows "reads_pipe buf t"
  unfolding reads_pipe_def assms(2)
proof (intro allI impI)
  fix rest assume r: "follows '')&;'' rest" "suffix (pr 0 t @ rest) buf"
  have "follows ''|)&;'' rest" using r(1) by (rule follows_mono) auto
  then obtain c where c: "repr buf c t" "ev (\<lambda>n. parseexec n (pr 0 t @ rest) = Parsed c rest)"
    using assms(1) r(2) unfolding reads_exec_def by blast
  have p: "peek rest ''|'' = (False, rest)" using r(1) by (rule peek_out) simp
  have "ev (\<lambda>n. parsepipe n (pr 0 t @ rest) = Parsed c rest)"
    by (rule ev_Suc, rule ev_mp [OF c(2)]) (simp add: p)
  then show "\<exists>c. repr buf c t \<and> ev (\<lambda>n. parsepipe n (pr 0 t @ rest) = Parsed c rest)" using c(1) by blast
qed

lemma pipe_back:
  assumes "reads_pipe buf t" "pr 2 t = pr 1 t"
  shows "reads_back buf t"
  unfolding reads_back_def assms(2)
proof (intro allI impI)
  fix rest assume r: "follows '')&;'' rest" "suffix (pr 1 t @ rest) buf"
  then obtain c where c: "repr buf c t" "ev (\<lambda>n. parsepipe n (pr 1 t @ rest) = Parsed c rest)"
    using assms(1) unfolding reads_pipe_def by blast
  have "ev (\<lambda>n. bindP (parsepipe n (pr 1 t @ rest)) parsebacks = parsebacks c rest)"
    by (rule ev_mp [OF c(2)]) simp
  then show "\<exists>c. repr buf c t \<and> ev (\<lambda>n. bindP (parsepipe n (pr 1 t @ rest)) parsebacks = parsebacks c rest)"
    using c(1) by blast
qed

lemma parsebacks_end: "follows '');'' s \<Longrightarrow> parsebacks c s = Parsed c s"
  by (subst parsebacks.simps) (simp add: peek_out)

lemma parseline_back:
  assumes "follows '');'' rest"
  shows "bindP (parsepipe n ps) parsebacks = parsebacks c rest \<Longrightarrow>
    parseline (Suc n) ps = (if rest \<noteq> [] \<and> hd rest = CHR '';'' then bindP (parseline n (tl rest)) (\<lambda>r ps. Parsed (LIST c r) ps)
      else Parsed c rest)"
proof -
  assume e: "bindP (parsepipe n ps) parsebacks = parsebacks c rest"
  have "parseline (Suc n) ps = bindP (bindP (parsepipe n ps) parsebacks) (\<lambda>cmd ps.
      let (more, ps) = peek ps '';'' in
      if more then let (_, _, _, ps) = gettoken ps in bindP (parseline n ps) (\<lambda>right ps. Parsed (LIST cmd right) ps)
      else Parsed cmd ps)"
    by (simp add: bindP_assoc)
  also have "\<dots> = (if rest \<noteq> [] \<and> hd rest = CHR '';'' then bindP (parseline n (tl rest)) (\<lambda>r ps. Parsed (LIST c r) ps)
      else Parsed c rest)"
    unfolding e parsebacks_end [OF assms] bindP.simps Let_def peek_follows [OF assms] prod.case
    by (cases rest) (simp_all add: gettoken_symbol parse_skip)
  finally show ?thesis .
qed

lemma back_line:
  assumes "reads_back buf t" "pr 3 t = pr 2 t"
  shows "reads_line buf t"
  unfolding reads_line_def assms(2)
proof (intro allI impI)
  fix rest assume r: "follows '')'' rest" "suffix (pr 2 t @ rest) buf"
  have "follows '')&;'' rest" using r(1) by (rule follows_mono) auto
  then obtain c where c: "repr buf c t" "ev (\<lambda>n. bindP (parsepipe n (pr 2 t @ rest)) parsebacks = parsebacks c rest)"
    using assms(1) r(2) unfolding reads_back_def by blast
  have f: "follows '');'' rest" using r(1) by (rule follows_mono) (auto simp: symbols_def)
  have n: "\<not> (rest \<noteq> [] \<and> hd rest = CHR '';'')" using r(1) by (auto simp: follows_def)
  have "ev (\<lambda>n. parseline n (pr 2 t @ rest) = Parsed c rest)"
    by (rule ev_Suc, rule ev_mp [OF c(2)]) (drule parseline_back [OF f], simp only: n if_False)
  then show "\<exists>c. repr buf c t \<and> ev (\<lambda>n. parseline n (pr 2 t @ rest) = Parsed c rest)" using c(1) by blast
qed

lemma line_elem:
  assumes "reads_line buf t" "0 < lev t" "\<not> exec_root t"
  shows "reads_elem buf t"
  unfolding reads_elem_def
proof (intro allI impI)
  fix rest assume r: "follows ''<>|)&;'' rest" "suffix (pr 0 t @ rest) buf"
  have l3: "pr 3 t = body t" by (cases t) (simp_all add: paren_def)
  have p0: "pr 0 t @ rest = CHR ''('' # body t @ CHR '')'' # rest" using assms(2) by (simp add: paren_def)
  have "suffix (body t @ CHR '')'' # rest) buf" using r(2) unfolding p0 by (rule suffix_ConsD)
  moreover have "follows '')'' (CHR '')'' # rest)" by simp
  ultimately obtain c where c: "repr buf c t" "ev (\<lambda>n. parseline n (body t @ CHR '')'' # rest) = Parsed c (CHR '')'' # rest))"
    using assms(1) unfolding reads_line_def l3 by blast
  let ?ps = "body t @ CHR '')'' # rest"
  have f: "follows '')'' (CHR '')'' # rest)" "follows ''('' (CHR ''('' # ?ps)" by (simp_all add: symbols_def)
  have b: "ev (\<lambda>n. parseblock n (CHR ''('' # ?ps) = parseredirs c rest)"
    by (rule ev_Suc, rule ev_mp [OF c(2)])
      (simp add: peek_in [OF f(1)] peek_in [OF f(2)] gettoken_symbol parse_skip parseredirs_skip)
  have "ev (\<lambda>n. parseexec n (CHR ''('' # ?ps) = parseredirs c rest)"
    by (rule ev_Suc, rule ev_mp [OF b]) (simp add: peek_in [OF f(2)])
  then show "\<exists>c argc. repr buf c t \<and> ev (\<lambda>n. parseexec n (pr 0 t @ rest) = more_redirs (exec_root t) argc c rest)"
    unfolding p0 using c(1) assms(3) by (auto simp: more_redirs_def)
qed

lemma elem_TExec:
  assumes "tree_ok (TExec ws)"
  shows "reads_elem buf (TExec ws)"
  unfolding reads_elem_def
proof (intro allI impI)
  fix rest assume r: "follows ''<>|)&;'' rest" "suffix (pr 0 (TExec ws) @ rest) buf"
  let ?ps = "body (TExec ws) @ rest"
  have p0: "pr 0 (TExec ws) @ rest = ?ps" by (simp add: paren_def)
  obtain as where as: "bindP (parseredirs (EXEC []) ?ps) (parseargs 0) = bindP (parseredirs (EXEC as) rest) (parseargs (length ws))"
      "list_all2 (tok buf) as ws"
    using parseargs_words [of ws 0 rest buf "[]"] assms r(2) unfolding p0 by auto
  have "peek ?ps ''('' = (False, ?ps)"
  proof (cases ws)
    case Nil
    then show ?thesis using r(1) by (simp add: peek_out)
  next
    case (Cons w ws')
    then have "word w" using assms by simp
    then show ?thesis using Cons peek_word [of w "''(''"] by simp
  qed
  then have "parseexec (Suc n) ?ps = more_redirs True (length ws) (EXEC as) rest" for n
    unfolding more_redirs_def using as(1) by simp
  then have "ev (\<lambda>n. parseexec n ?ps = more_redirs True (length ws) (EXEC as) rest)" by (intro ev_Suc [of "\<lambda>n. parseexec n ?ps = _"]) (simp add: ev_def)
  then show "\<exists>c argc. repr buf c (TExec ws) \<and> ev (\<lambda>n. parseexec n (pr 0 (TExec ws) @ rest) = more_redirs (exec_root (TExec ws)) argc c rest)"
    unfolding p0 using as(2) by (intro exI [of _ "EXEC as"] exI [of _ "length ws"]) simp
qed

lemma elem_TRedir:
  assumes "reads_elem buf t" "word f"
  shows "reads_elem buf (TRedir t f out)"
  unfolding reads_elem_def
proof (intro allI impI)
  fix rest assume r: "follows ''<>|)&;'' rest" "suffix (pr 0 (TRedir t f out) @ rest) buf"
  let ?op = "if out then CHR ''>'' else CHR ''<''"
  have p0: "pr 0 (TRedir t f out) @ rest = pr 0 t @ ?op # f @ rest" by (simp add: paren_def)
  have "follows ''<>|)&;'' (?op # f @ rest)" by simp
  then obtain c argc where c: "repr buf c t" "ev (\<lambda>n. parseexec n (pr 0 t @ ?op # f @ rest) = more_redirs (exec_root t) argc c (?op # f @ rest))"
    using assms(1) r(2) unfolding reads_elem_def p0 by blast
  define c' where "c' = REDIR c (f @ rest, rest) (if out then O_WRONLY OR O_CREATE else O_RDONLY) (if out then 1 else 0)"
  have m: "more_redirs (exec_root t) argc c (?op # f @ rest) = more_redirs (exec_root t) argc c' rest"
    unfolding more_redirs_def parseredirs_one [OF assms(2) ends_word_follows [OF r(1)]] c'_def ..
  have "suffix (f @ rest) buf" using r(2) unfolding p0 by (metis suffix_ConsD suffix_appendD)
  then have "repr buf c' (TRedir t f out)" using c(1) assms(2) ends_word_follows [OF r(1)] by (simp add: c'_def tok_def)
  then show "\<exists>c argc. repr buf c (TRedir t f out) \<and>
      ev (\<lambda>n. parseexec n (pr 0 (TRedir t f out) @ rest) = more_redirs (exec_root (TRedir t f out)) argc c rest)"
    unfolding p0 exec_root.simps using c(2) unfolding m by blast
qed

lemma pipe_TPipe:
  assumes "reads_exec buf l" "reads_pipe buf r"
  shows "reads_pipe buf (TPipe l r)"
  unfolding reads_pipe_def
proof (intro allI impI)
  fix rest assume s: "follows '')&;'' rest" "suffix (pr 1 (TPipe l r) @ rest) buf"
  let ?r = "CHR ''|'' # pr 1 r @ rest"
  have p1: "pr 1 (TPipe l r) @ rest = pr 0 l @ ?r" by (simp add: paren_def)
  have f: "follows ''|)&;'' ?r" by simp
  then obtain c where c: "repr buf c l" "ev (\<lambda>n. parseexec n (pr 0 l @ ?r) = Parsed c ?r)"
    using assms(1) s(2) unfolding reads_exec_def p1 by blast
  have "suffix (pr 1 r @ rest) buf" using s(2) unfolding p1 by (metis suffix_ConsD suffix_appendD)
  then obtain d where d: "repr buf d r" "ev (\<lambda>n. parsepipe n (pr 1 r @ rest) = Parsed d rest)"
    using assms(2) s(1) unfolding reads_pipe_def by blast
  have k: "peek ?r ''|'' = (True, ?r)" using peek_follows [OF f, of "''|''"] by simp
  have "ev (\<lambda>n. parsepipe n (pr 0 l @ ?r) = Parsed (PIPE c d) rest)"
    by (rule ev_Suc, rule ev_mp [OF ev_conj [OF c(2) d(2)]]) (simp add: k [simplified] gettoken_symbol parse_skip)
  then show "\<exists>c. repr buf c (TPipe l r) \<and> ev (\<lambda>n. parsepipe n (pr 1 (TPipe l r) @ rest) = Parsed c rest)"
    unfolding p1 using c(1) d(1) by (intro exI [of _ "PIPE c d"]) simp
qed

lemma parsebacks_one: "follows '')&;'' rest \<Longrightarrow> parsebacks c (CHR ''&'' # rest) = parsebacks (BACK c) rest"
proof -
  assume f: "follows '')&;'' rest"
  have "peek (CHR ''&'' # rest) ''&'' = (True, CHR ''&'' # rest)" by (subst peek_follows [of "''&''"]) simp_all
  then show ?thesis by (subst parsebacks.simps) (simp add: gettoken_symbol skip_follows [OF f])
qed

lemma back_TBack:
  assumes "reads_back buf t"
  shows "reads_back buf (TBack t)"
  unfolding reads_back_def
proof (intro allI impI)
  fix rest assume r: "follows '')&;'' rest" "suffix (pr 2 (TBack t) @ rest) buf"
  let ?r = "CHR ''&'' # rest"
  have p2: "pr 2 (TBack t) @ rest = pr 2 t @ ?r" by (simp add: paren_def)
  have "follows '')&;'' ?r" by simp
  then obtain c where c: "repr buf c t" "ev (\<lambda>n. bindP (parsepipe n (pr 2 t @ ?r)) parsebacks = parsebacks c ?r)"
    using assms r(2) unfolding reads_back_def p2 by blast
  then show "\<exists>c. repr buf c (TBack t) \<and> ev (\<lambda>n. bindP (parsepipe n (pr 2 (TBack t) @ rest)) parsebacks = parsebacks c rest)"
    unfolding p2 parsebacks_one [OF r(1)] by (intro exI [of _ "BACK c"]) simp
qed

lemma line_TList:
  assumes "reads_back buf l" "reads_line buf r"
  shows "reads_line buf (TList l r)"
  unfolding reads_line_def
proof (intro allI impI)
  fix rest assume s: "follows '')'' rest" "suffix (pr 3 (TList l r) @ rest) buf"
  have l3: "pr 3 r = body r" by (cases r) (simp_all add: paren_def)
  let ?r = "CHR '';'' # body r @ rest"
  have p3: "pr 3 (TList l r) @ rest = pr 2 l @ ?r" by (simp add: paren_def)
  have "follows '')&;'' ?r" by simp
  then obtain c where c: "repr buf c l" "ev (\<lambda>n. bindP (parsepipe n (pr 2 l @ ?r)) parsebacks = parsebacks c ?r)"
    using assms(1) s(2) unfolding reads_back_def p3 by blast
  have "suffix (body r @ rest) buf" using s(2) unfolding p3 by (metis suffix_ConsD suffix_appendD)
  then obtain d where d: "repr buf d r" "ev (\<lambda>n. parseline n (body r @ rest) = Parsed d rest)"
    using assms(2) s(1) unfolding reads_line_def l3 by blast
  have f: "follows '');'' ?r" by simp
  have "parseline (Suc n) (pr 2 l @ ?r) = Parsed (LIST c d) rest"
    if "bindP (parsepipe n (pr 2 l @ ?r)) parsebacks = parsebacks c ?r \<and> parseline n (body r @ rest) = Parsed d rest" for n
    using parseline_back [OF f conjunct1 [OF that]] conjunct2 [OF that] by (simp del: parseline.simps)
  then have "ev (\<lambda>n. parseline n (pr 2 l @ ?r) = Parsed (LIST c d) rest)"
    by (intro ev_Suc [of "\<lambda>n. parseline n (pr 2 l @ ?r) = Parsed (LIST c d) rest"] ev_mp [OF ev_conj [OF c(2) d(2)]])
  then show "\<exists>c. repr buf c (TList l r) \<and> ev (\<lambda>n. parseline n (pr 3 (TList l r) @ rest) = Parsed c rest)"
    unfolding p3 using c(1) d(1) by (intro exI [of _ "LIST c d"]) simp
qed

lemma reads:
  "tree_ok t \<Longrightarrow> reads_elem buf t \<and> reads_exec buf t \<and> reads_pipe buf t \<and> reads_back buf t \<and> reads_line buf t"
proof (induction t)
  case (TExec ws)
  then have e: "reads_elem buf (TExec ws)" by (rule elem_TExec)
  then have p: "reads_pipe buf (TExec ws)" by (intro exec_pipe elem_exec) (simp_all add: paren_def)
  then have b: "reads_back buf (TExec ws)" by (rule pipe_back) (simp add: paren_def)
  then have "reads_line buf (TExec ws)" by (rule back_line) (simp add: paren_def)
  then show ?case using e p b elem_exec by blast
next
  case (TRedir t f out)
  then have e: "reads_elem buf (TRedir t f out)" by (intro elem_TRedir) simp_all
  then have p: "reads_pipe buf (TRedir t f out)" by (intro exec_pipe elem_exec) (simp_all add: paren_def)
  then have b: "reads_back buf (TRedir t f out)" by (rule pipe_back) (simp add: paren_def)
  then have "reads_line buf (TRedir t f out)" by (rule back_line) (simp add: paren_def)
  then show ?case using e p b elem_exec by blast
next
  case (TPipe l r)
  then have p: "reads_pipe buf (TPipe l r)" by (intro pipe_TPipe) simp_all
  then have b: "reads_back buf (TPipe l r)" by (rule pipe_back) (simp add: paren_def)
  then have l: "reads_line buf (TPipe l r)" by (rule back_line) (simp add: paren_def)
  then have "reads_elem buf (TPipe l r)" by (rule line_elem) simp_all
  then show ?case using p b l elem_exec by blast
next
  case (TList l r)
  then have l: "reads_line buf (TList l r)" by (intro line_TList) simp_all
  then have e: "reads_elem buf (TList l r)" by (rule line_elem) simp_all
  then have p: "reads_pipe buf (TList l r)" by (intro exec_pipe elem_exec) (simp_all add: paren_def)
  then have "reads_back buf (TList l r)" by (rule pipe_back) (simp add: paren_def)
  then show ?case using e p l elem_exec by blast
next
  case (TBack t)
  then have b: "reads_back buf (TBack t)" by (intro back_TBack) simp
  then have l: "reads_line buf (TBack t)" by (rule back_line) (simp add: paren_def)
  then have e: "reads_elem buf (TBack t)" by (rule line_elem) simp_all
  then have "reads_pipe buf (TBack t)" by (intro exec_pipe elem_exec) (simp_all add: paren_def)
  then show ?case using e b l elem_exec by blast
qed

section \<open>Words after NUL-termination\<close>

fun word_ends :: "cmd \<Rightarrow> string set" where
  "word_ends (EXEC as) = snd ` set as"
| "word_ends (REDIR c p m fd) = insert (snd p) (word_ends c)"
| "word_ends (PIPE l r) = word_ends l \<union> word_ends r"
| "word_ends (LIST l r) = word_ends l \<union> word_ends r"
| "word_ends (BACK c) = word_ends c"

definition nul_at :: "string set \<Rightarrow> string \<Rightarrow> string" where
  "nul_at E buf = map (\<lambda>i. if \<exists>e \<in> E. i = length buf - length e then NUL else buf ! i) [0..<length buf]"

lemma length_nul_at [simp]: "length (nul_at E buf) = length buf"
  by (simp add: nul_at_def)

lemma nth_nul_at:
  "i < length buf \<Longrightarrow> nul_at E buf ! i = (if \<exists>e \<in> E. i = length buf - length e then NUL else buf ! i)"
  by (simp add: nul_at_def)

lemma nul_at_empty: "nul_at {} buf = buf"
  by (rule nth_equalityI) (simp_all add: nth_nul_at)

lemma put_nul_nul_at: "put_nul e (nul_at E buf) = nul_at (insert e E) buf"
proof (rule nth_equalityI)
  fix i assume "i < length (put_nul e (nul_at E buf))"
  then have i: "i < length buf" by (simp add: put_nul_def)
  show "put_nul e (nul_at E buf) ! i = nul_at (insert e E) buf ! i"
    using i by (cases "i = length buf - length e") (simp_all add: put_nul_def nth_nul_at)
qed (simp add: put_nul_def)

lemma nul_at_nul_at: "nul_at F (nul_at E buf) = nul_at (E \<union> F) buf"
  by (rule nth_equalityI) (auto simp: nth_nul_at)

lemmas nul_at_simps = nul_at_empty put_nul_nul_at nul_at_nul_at

lemma nulterminate_args: "fold (\<lambda>(q, eq). put_nul eq) as (nul_at E buf) = nul_at (E \<union> snd ` set as) buf"
  by (induction as arbitrary: E) (auto simp: nul_at_simps)

lemma nulterminate_nul_at: "nulterminate c buf = nul_at (word_ends c) buf"
proof (induction c arbitrary: buf)
  case (EXEC as)
  then show ?case using nulterminate_args [of as "{}" buf] by (simp add: nul_at_simps(1))
next
  case (REDIR c p m fd)
  then show ?case by (cases p) (simp add: nul_at_simps)
qed (simp_all add: nul_at_simps)

lemma word_at_nul_at:
  assumes t: "tok buf (q, eq) w" "eq \<in> E" and E: "\<forall>e \<in> E. suffix e buf \<and> ends_word e"
  shows "word_at (nul_at E buf) q = w"
proof -
  obtain pre where b: "buf = pre @ w @ eq" and q: "q = w @ eq" and w: "word w" using t by (auto simp: tok_def suffix_def)
  have in_w: "nul_at E buf ! (length pre + j) = w ! j" if j: "j < length w" for j
  proof -
    have "length pre + j \<noteq> length buf - length e" if e: "e \<in> E" for e
    proof
      assume h: "length pre + j = length buf - length e"
      obtain p where p: "buf = p @ e" using E e by (auto simp: suffix_def)
      then have lp: "length p = length pre + j" using h by simp
      then have "e = drop (length pre + j) buf" using p by (metis append_eq_conv_conj)
      also have "\<dots> = drop j w @ eq" using j b by simp
      finally have "hd e = w ! j" "e \<noteq> []" using j by (simp_all add: hd_append hd_drop_conv_nth)
      moreover have "word_char (w ! j)" using w j by (simp add: word_def list_all_length)
      ultimately show False using E e by (auto simp: ends_word_def word_char_def)
    qed
    then show ?thesis using j b by (auto simp: nth_nul_at nth_append)
  qed
  have tk: "take (length w) (drop (length pre) (nul_at E buf)) = w"
    by (rule nth_equalityI) (use b in_w in \<open>simp_all\<close>)
  have nw: "takeWhile (\<lambda>c. c \<noteq> NUL) w = w" using w by (auto simp: word_def word_char_def list_all_iff takeWhile_eq_all_conv)
  define r where "r = drop (length pre + length w) (nul_at E buf)"
  have r: "takeWhile (\<lambda>c. c \<noteq> NUL) r = []"
  proof (cases eq)
    case Nil
    then show ?thesis using b by (simp add: r_def)
  next
    case (Cons x xs)
    then have l: "length pre + length w < length buf" "length pre + length w = length buf - length eq" using b by simp_all
    then have "nul_at E buf ! (length pre + length w) = NUL" using t(2) by (auto simp: nth_nul_at)
    moreover have "r = nul_at E buf ! (length pre + length w) # drop (Suc (length pre + length w)) (nul_at E buf)"
      unfolding r_def by (rule Cons_nth_drop_Suc [symmetric]) (use l in simp)
    ultimately show ?thesis by simp
  qed
  have "drop (length buf - length q) (nul_at E buf) = w @ r"
    using tk append_take_drop_id [of "length w" "drop (length pre) (nul_at E buf)"] b q by (simp add: r_def add.commute)
  then show ?thesis using nw r by (simp add: word_at_def takeWhile_append2 list_all_iff takeWhile_eq_all_conv)
qed

fun tree_of :: "string \<Rightarrow> cmd \<Rightarrow> tree" where
  "tree_of buf (EXEC as) = TExec (map (\<lambda>(q, eq). word_at buf q) as)"
| "tree_of buf (REDIR c (q, eq) m fd) = TRedir (tree_of buf c) (word_at buf q) (fd = 1)"
| "tree_of buf (PIPE l r) = TPipe (tree_of buf l) (tree_of buf r)"
| "tree_of buf (LIST l r) = TList (tree_of buf l) (tree_of buf r)"
| "tree_of buf (BACK c) = TBack (tree_of buf c)"

lemma tok_end: "tok buf p w \<Longrightarrow> suffix (snd p) buf \<and> ends_word (snd p)"
  by (auto simp: tok_def suffix_def)

lemma repr_ends: "repr buf c t \<Longrightarrow> e \<in> word_ends c \<Longrightarrow> suffix e buf \<and> ends_word e"
proof (induction buf c t rule: repr.induct)
  case (1 buf as ws)
  then obtain i where "i < length as" "e = snd (as ! i)" "tok buf (as ! i) (ws ! i)"
    by (auto simp: list_all2_conv_all_nth in_set_conv_nth)
  then show ?case using tok_end by blast
qed (auto dest: tok_end)

lemma tree_of_nul_at:
  assumes "\<forall>e \<in> E. suffix e buf \<and> ends_word e"
  shows "repr buf c t \<Longrightarrow> word_ends c \<subseteq> E \<Longrightarrow> tree_of (nul_at E buf) c = t"
proof (induction c arbitrary: t)
  case (EXEC as)
  then obtain ws where t: "t = TExec ws" "list_all2 (tok buf) as ws" by (cases t) simp_all
  have "word_at (nul_at E buf) (fst (as ! i)) = ws ! i" if "i < length as" for i
  proof (rule word_at_nul_at [OF _ _ assms])
    show "tok buf (fst (as ! i), snd (as ! i)) (ws ! i)" using t(2) that by (simp add: list_all2_conv_all_nth)
    show "snd (as ! i) \<in> E" using EXEC.prems(2) that by auto
  qed
  then have "map (\<lambda>(q, eq). word_at (nul_at E buf) q) as = ws"
    using t(2) by (intro nth_equalityI) (simp_all add: list_all2_conv_all_nth split_beta)
  then show ?case using t(1) by simp
next
  case (REDIR c p m fd)
  then obtain t1 f out where t: "t = TRedir t1 f out" "repr buf c t1" "tok buf p f" "fd = (if out then 1 else 0)"
    by (cases t) simp_all
  then have "word_at (nul_at E buf) (fst p) = f" using REDIR.prems(2) by (intro word_at_nul_at [OF _ _ assms]) auto
  then show ?case using t REDIR by (cases p) auto
next
  case (PIPE l r)
  then show ?case by (cases t) auto
next
  case (LIST l r)
  then show ?case by (cases t) auto
next
  case (BACK c)
  then show ?case by (cases t) auto
qed

lemma parsecmd_body:
  assumes "tree_ok t"
  shows "\<exists>c. repr (body t) c t \<and> parsecmd (body t) = Parsed (c, nulterminate c (body t)) []"
proof -
  have l3: "pr 3 t = body t" by (cases t) (simp_all add: paren_def)
  have "reads_line (body t) t" using reads [OF assms] by blast
  then have "\<exists>c. repr (body t) c t \<and> ev (\<lambda>n. parseline n (body t @ []) = Parsed c [])"
    unfolding reads_line_def l3 by (elim allE [of _ "[]"] impE) (simp_all add: follows_def)
  then obtain c where c: "repr (body t) c t" "ev (\<lambda>n. parseline n (body t) = Parsed c [])" by auto
  then obtain N where "parseline (max N (parse_fuel (body t))) (body t) = Parsed c []" unfolding ev_def by (metis max.cobounded1)
  then have "parseline (parse_fuel (body t)) (body t) = Parsed c []" using parseline_fuel [of "body t" "max N (parse_fuel (body t))"] by simp
  then show ?thesis using c(1) by (intro exI [of _ c]) (simp add: parsecmd_def peek_def)
qed

text \<open>C10. The shell reads back every command: when a tree of commands, pipes, lists, background marks, redirections and
  parentheses is written as a command line, the parser returns nodes that stand for that tree, and after
  \<^verbatim>\<open>nulterminate\<close> every argument and file name in the buffer is the word that was written.\<close>

theorem parsecmd_reads_back:
  assumes "tree_ok t"
  shows "\<exists>c buf. parsecmd (body t) = Parsed (c, buf) [] \<and> tree_of buf c = t"
proof -
  obtain c where c: "repr (body t) c t" "parsecmd (body t) = Parsed (c, nulterminate c (body t)) []"
    using parsecmd_body [OF assms] by blast
  have "tree_of (nul_at (word_ends c) (body t)) c = t"
    by (rule tree_of_nul_at [OF _ c(1)]) (use repr_ends [OF c(1)] in blast, simp)
  then show ?thesis using c(2) by (simp add: nulterminate_nul_at)
qed

theorem parsecmd_reads_back_witness:
  "\<exists>c buf. parsecmd ''(ls -l |wc )>out;cat <in&'' = Parsed (c, buf) [] \<and>
     tree_of buf c = TList (TRedir (TPipe (TExec [''ls'', ''-l'']) (TExec [''wc''])) ''out'' True)
       (TBack (TRedir (TExec [''cat'']) ''in'' False))"
proof -
  let ?t = "TList (TRedir (TPipe (TExec [''ls'', ''-l'']) (TExec [''wc''])) ''out'' True)
       (TBack (TRedir (TExec [''cat'']) ''in'' False))"
  have ok: "tree_ok ?t" by code_simp
  have b: "body ?t = ''(ls -l |wc )>out;cat <in&''" by code_simp
  show ?thesis using parsecmd_reads_back [OF ok] unfolding b .
qed

end
