(* ===== verification/Uthread.thy ===== *)
theory Uthread
  imports Memory
begin

text \<open>
  The user-level thread library \<^verbatim>\<open>uthreadlib.c\<close> with the effect of \<^verbatim>\<open>uthread_switch.S\<close> on its variables: a table of
  eight threads, the current thread and the round-robin scheduler. A thread pointer is the index of its entry. The
  stacks are areas of the byte memory; which registers \<^verbatim>\<open>pushal\<close> stores there is left out.
\<close>

section \<open>State\<close>

datatype tstate = FREE | RUNNING | RUNNABLE

record thread =
  sp :: uint
  state :: tstate

record uthreads =
  lastIndex :: nat
  all_thread :: "thread list"
  current_thread :: nat
  next_thread :: "nat option"
  esp :: uint
  umem :: memory

definition STACK_SIZE :: uint where "STACK_SIZE = 8192"
definition MAX_THREAD :: nat where "MAX_THREAD = 8"

text \<open>The table starts at address \<open>base\<close>; an entry holds \<^verbatim>\<open>sp\<close>, the stack and \<^verbatim>\<open>state\<close>.\<close>

definition stack_of :: "addr \<Rightarrow> nat \<Rightarrow> addr" where
  "stack_of base i = base + of_nat i * (4 + STACK_SIZE + 4) + 4"

text \<open>A call returns, ends the program with \<^verbatim>\<open>exit\<close>, or goes on behind the end of the table.\<close>

datatype ucall = Returns uthreads | Exits | Overruns

section \<open>Operations\<close>

definition thread_init :: "uthreads \<Rightarrow> uthreads" where
  "thread_init s = s\<lparr>current_thread := 0, all_thread := (all_thread s)[0 := (all_thread s ! 0)\<lparr>state := RUNNING\<rparr>]\<rparr>"

definition set_state :: "nat \<Rightarrow> tstate \<Rightarrow> uthreads \<Rightarrow> uthreads" where
  "set_state i x s = s\<lparr>all_thread := (all_thread s)[i := (all_thread s ! i)\<lparr>state := x\<rparr>]\<rparr>"

text \<open>\<^verbatim>\<open>pushal\<close> takes 32 bytes, \<^verbatim>\<open>popal\<close> gives them back and \<^verbatim>\<open>ret\<close> takes the return address.\<close>

definition thread_switch :: "uthreads \<Rightarrow> uthreads" where
  "thread_switch s =
     (case next_thread s of None \<Rightarrow> s | Some n \<Rightarrow>
       s\<lparr>all_thread := (all_thread s)[current_thread s := (all_thread s ! current_thread s)\<lparr>sp := esp s - 32\<rparr>],
         esp := sp (((all_thread s)[current_thread s := (all_thread s ! current_thread s)\<lparr>sp := esp s - 32\<rparr>]) ! n) + 32 + 4,
         current_thread := n, next_thread := None\<rparr>)"

fun find_runnable :: "nat \<Rightarrow> nat list \<Rightarrow> uthreads \<Rightarrow> nat option" where
  "find_runnable l [] s = None"
| "find_runnable l (i # is) s =
     (let currIndex = (l + i) mod MAX_THREAD in
      if state (all_thread s ! currIndex) = RUNNABLE \<and> currIndex \<noteq> current_thread s then Some currIndex
      else find_runnable l is s)"

text \<open>
  The test \<^verbatim>\<open>t >= all_thread + MAX_THREAD\<close> after the loop is written out: \<^verbatim>\<open>t\<close> points to the entry the loop looked at
  last, whose index is a remainder by \<^verbatim>\<open>MAX_THREAD\<close>.
\<close>

definition last_looked :: "uthreads \<Rightarrow> nat" where
  "last_looked s = (case find_runnable (lastIndex s) [1..<MAX_THREAD] s of
     Some i \<Rightarrow> i | None \<Rightarrow> (lastIndex s + (MAX_THREAD - 1)) mod MAX_THREAD)"

definition thread_schedule :: "uthreads \<Rightarrow> ucall" where
  "thread_schedule s =
     (let found = find_runnable (lastIndex s) [1..<MAX_THREAD] s; t = last_looked s;
          s1 = (case found of None \<Rightarrow> s\<lparr>next_thread := None\<rparr> | Some i \<Rightarrow> s\<lparr>next_thread := Some i, lastIndex := i\<rparr>);
          s2 = (if t \<ge> MAX_THREAD \<and> state (all_thread s1 ! current_thread s1) = RUNNABLE
                then s1\<lparr>next_thread := Some (current_thread s1)\<rparr> else s1)
      in case next_thread s2 of
           None \<Rightarrow> Exits
         | Some n \<Rightarrow> if current_thread s2 \<noteq> n then Returns (thread_switch (set_state n RUNNING s2))
                     else Returns (s2\<lparr>next_thread := None\<rparr>))"

definition thread_create :: "addr \<Rightarrow> uint \<Rightarrow> uthreads \<Rightarrow> ucall" where
  "thread_create base func s =
     (case scan (\<lambda>t. state t = FREE) (all_thread s) of
        None \<Rightarrow> Overruns
      | Some i \<Rightarrow>
          let top = stack_of base i + STACK_SIZE - 4 in
          Returns (s\<lparr>umem := write32 (umem s) top func,
            all_thread := (all_thread s)[i := (all_thread s ! i)\<lparr>sp := top - 32, state := RUNNABLE\<rparr>]\<rparr>))"

definition thread_yield :: "uthreads \<Rightarrow> ucall" where
  "thread_yield s = thread_schedule (set_state (current_thread s) RUNNABLE s)"

definition thread_exit :: "uthreads \<Rightarrow> ucall" where
  "thread_exit s = thread_schedule (set_state (current_thread s) FREE s)"

definition thread_id :: "addr \<Rightarrow> uthreads \<Rightarrow> uint" where
  "thread_id base s = base + of_nat (current_thread s) * (4 + STACK_SIZE + 4)"

section \<open>Every runnable thread gets its turn\<close>

datatype uop = Yield | Exit | Create uint

fun call :: "addr \<Rightarrow> uop \<Rightarrow> uthreads \<Rightarrow> ucall" where
  "call base Yield s = thread_yield s"
| "call base Exit s = thread_exit s"
| "call base (Create func) s = thread_create base func s"

fun calls :: "addr \<Rightarrow> uop list \<Rightarrow> uthreads \<Rightarrow> ucall" where
  "calls base [] s = Returns s"
| "calls base (a # as) s = (case call base a s of Returns t \<Rightarrow> calls base as t | Exits \<Rightarrow> Exits | Overruns \<Rightarrow> Overruns)"

fun gives_way :: "uop \<Rightarrow> bool" where
  "gives_way (Create func) = False"
| "gives_way a = True"

definition table_ok :: "uthreads \<Rightarrow> bool" where
  "table_ok s \<longleftrightarrow> length (all_thread s) = MAX_THREAD \<and> current_thread s < MAX_THREAD \<and> lastIndex s = current_thread s"

definition waits :: "nat \<Rightarrow> uthreads \<Rightarrow> bool" where
  "waits j s \<longleftrightarrow> j < MAX_THREAD \<and> j \<noteq> current_thread s \<and> state (all_thread s ! j) = RUNNABLE"

definition distance :: "nat \<Rightarrow> uthreads \<Rightarrow> nat" where
  "distance j s = (j + MAX_THREAD - lastIndex s) mod MAX_THREAD"

lemma find_runnable_first:
  "sorted xs \<Longrightarrow> d \<in> set xs \<Longrightarrow> waits ((l + d) mod MAX_THREAD) s \<Longrightarrow>
     \<exists>a \<in> set xs. a \<le> d \<and> find_runnable l xs s = Some ((l + a) mod MAX_THREAD) \<and> waits ((l + a) mod MAX_THREAD) s"
proof (induction xs)
  case (Cons x xs)
  show ?case
  proof (cases "waits ((l + x) mod MAX_THREAD) s")
    case True
    then show ?thesis using Cons.prems by (intro bexI [of _ x]) (auto simp: waits_def Let_def)
  next
    case False
    then have "d \<in> set xs" using Cons.prems by auto
    then obtain a where "a \<in> set xs" "a \<le> d" "find_runnable l xs s = Some ((l + a) mod MAX_THREAD)" "waits ((l + a) mod MAX_THREAD) s"
      using Cons by auto
    then show ?thesis using False by (intro bexI [of _ a]) (auto simp: waits_def Let_def MAX_THREAD_def)
  qed
qed simp

lemma distance_eq:
  assumes "table_ok s" "j < MAX_THREAD"
  shows "distance j s = (if lastIndex s \<le> j then j - lastIndex s else j + MAX_THREAD - lastIndex s)"
proof -
  have l: "lastIndex s < MAX_THREAD" using assms(1) by (simp add: table_ok_def)
  show ?thesis
  proof (cases "lastIndex s \<le> j")
    case True
    then have e: "j + MAX_THREAD - lastIndex s = (j - lastIndex s) + MAX_THREAD" by simp
    show ?thesis using True assms(2) unfolding distance_def e mod_add_self2 by simp
  next
    case False
    then show ?thesis using l by (simp add: distance_def)
  qed
qed

lemma distance_bounds: "table_ok s \<Longrightarrow> waits j s \<Longrightarrow> 1 \<le> distance j s \<and> distance j s < MAX_THREAD"
  using distance_eq [of s j] by (auto simp: table_ok_def waits_def)

lemma distance_index: "table_ok s \<Longrightarrow> j < MAX_THREAD \<Longrightarrow> (lastIndex s + distance j s) mod MAX_THREAD = j"
  using distance_eq [of s j] by (auto simp: table_ok_def)

text \<open>One scheduling step: it picks the waiting thread that comes first after the last one.\<close>

lemma thread_schedule_picks:
  assumes ok: "table_ok s" and j: "waits j s"
  shows "\<exists>n t. thread_schedule s = Returns t \<and> current_thread t = n \<and> table_ok t \<and>
    (n = j \<or> waits j t \<and> distance j t < distance j s)"
proof -
  let ?l = "lastIndex s" let ?d = "distance j s"
  have "?d \<in> set [1..<MAX_THREAD]" using distance_bounds [OF ok j] by auto
  moreover have "waits ((?l + ?d) mod MAX_THREAD) s" using distance_index [OF ok] j by (simp add: waits_def)
  ultimately obtain a where a: "a \<in> set [1..<MAX_THREAD]" "a \<le> ?d"
      "find_runnable ?l [1..<MAX_THREAD] s = Some ((?l + a) mod MAX_THREAD)" "waits ((?l + a) mod MAX_THREAD) s"
    using find_runnable_first [of "[1..<MAX_THREAD]" ?d ?l s] by auto
  define n where "n = (?l + a) mod MAX_THREAD"
  have n: "n < MAX_THREAD" "n \<noteq> current_thread s" using a(4) by (auto simp: n_def waits_def)
  define t where "t = thread_switch (set_state n RUNNING (s\<lparr>next_thread := Some n, lastIndex := n\<rparr>))"
  have "\<not> n \<ge> MAX_THREAD" using n(1) by simp
  then have e: "thread_schedule s = Returns t"
    using n a(3) by (simp add: thread_schedule_def last_looked_def n_def [symmetric] t_def Let_def)
  have t: "current_thread t = n" "lastIndex t = n" "length (all_thread t) = length (all_thread s)"
      "state (all_thread t ! j) = (if j = n then RUNNING else state (all_thread s ! j))"
    using j ok n by (auto simp: t_def thread_switch_def set_state_def nth_list_update table_ok_def waits_def)
  have ok': "table_ok t" using t n ok by (simp add: table_ok_def)
  have "distance j t < ?d" if "n \<noteq> j"
  proof -
    have l: "?l < MAX_THREAD" and jm: "j < MAX_THREAD" using ok j by (simp_all add: table_ok_def waits_def)
    have nv: "n = (if ?l + a < MAX_THREAD then ?l + a else ?l + a - MAX_THREAD)"
      using l a(1) by (auto simp: n_def mod_if)
    show ?thesis using that a(1,2) l jm nv unfolding distance_eq [OF ok jm] distance_eq [OF ok' jm] t(2)
      by (auto split: if_splits)
  qed
  moreover have "waits j t" if "n \<noteq> j" using that j t by (simp add: waits_def)
  ultimately show ?thesis using e t(1) ok' by blast
qed

lemma table_ok_set_state [simp]: "table_ok (set_state i x s) = table_ok s"
  by (simp add: table_ok_def set_state_def)

lemma waits_set_current: "waits j (set_state (current_thread s) x s) = waits j s"
  by (auto simp: waits_def set_state_def)

lemma distance_set_state [simp]: "distance j (set_state i x s) = distance j s"
  by (simp add: distance_def set_state_def)

lemma call_gives_way:
  assumes "gives_way a" "table_ok s" "waits j s"
  shows "\<exists>t. call base a s = Returns t \<and> table_ok t \<and> (current_thread t = j \<or> waits j t \<and> distance j t < distance j s)"
proof -
  define x where "x = (case a of Exit \<Rightarrow> FREE | _ \<Rightarrow> RUNNABLE)"
  have "call base a s = thread_schedule (set_state (current_thread s) x s)"
    using assms(1) by (cases a) (simp_all add: x_def thread_yield_def thread_exit_def)
  then show ?thesis
    using thread_schedule_picks [of "set_state (current_thread s) x s" j] assms(2,3) by (auto simp: waits_set_current)
qed

lemma call_create:
  assumes "\<not> gives_way a" "table_ok s" "waits j s" "call base a s \<noteq> Overruns"
  shows "\<exists>t. call base a s = Returns t \<and> table_ok t \<and> waits j t \<and> distance j t = distance j s"
proof -
  obtain func where a: "a = Create func" using assms(1) by (cases a) simp_all
  obtain i where i: "scan (\<lambda>t. state t = FREE) (all_thread s) = Some i" using assms(4) a by (cases "scan (\<lambda>t. state t = FREE) (all_thread s)") (simp_all add: thread_create_def)
  then have "i \<noteq> j" using assms(3) by (auto simp: waits_def dest!: scan_SomeD)
  then show ?thesis using assms(2,3) a i by (auto simp: thread_create_def Let_def table_ok_def waits_def distance_def)
qed

lemma calls_reach:
  "table_ok s \<Longrightarrow> waits j s \<Longrightarrow> distance j s \<le> length (filter gives_way as) \<Longrightarrow> calls base as s \<noteq> Overruns \<Longrightarrow>
     \<exists>k t. k \<le> length as \<and> calls base (take k as) s = Returns t \<and> current_thread t = j"
proof (induction as arbitrary: s)
  case Nil
  then show ?case using distance_bounds [of s j] by simp
next
  case (Cons a as)
  have next_step: "\<exists>k t. k \<le> length (a # as) \<and> calls base (take k (a # as)) s = Returns t \<and> current_thread t = j"
    if "call base a s = Returns t" "k \<le> length as" "calls base (take k as) t = Returns u" "current_thread u = j" for t k u
    using that by (intro exI [of _ "Suc k"] exI [of _ u]) simp
  show ?case
  proof (cases "gives_way a")
    case True
    then obtain t where t: "call base a s = Returns t" "table_ok t" "current_thread t = j \<or> waits j t \<and> distance j t < distance j s"
      using call_gives_way Cons.prems by blast
    show ?thesis
    proof (cases "current_thread t = j")
      case True
      then show ?thesis using next_step [OF t(1), of 0 t] by simp
    next
      case False
      then show ?thesis using t Cons True next_step [OF t(1)] by fastforce
    qed
  next
    case False
    moreover have "call base a s \<noteq> Overruns" using Cons.prems(4) by auto
    ultimately obtain t where "call base a s = Returns t" "table_ok t" "waits j t" "distance j t = distance j s"
      using call_create Cons.prems by blast
    then show ?thesis using Cons False next_step by fastforce
  qed
qed

text \<open>C19. The round-robin scheduler of the thread library starves nobody: a thread that is ready runs after at most seven
  calls of \<^verbatim>\<open>thread_yield\<close> or \<^verbatim>\<open>thread_exit\<close> by the threads before it, with any number of \<^verbatim>\<open>thread_create\<close> calls that find
  a free entry in between.\<close>

theorem ready_thread_runs:
  assumes "table_ok s" "waits j s" "calls base as s \<noteq> Overruns" "7 \<le> length (filter gives_way as)"
  shows "\<exists>k t. k \<le> length as \<and> calls base (take k as) s = Returns t \<and> current_thread t = j"
  using calls_reach [OF assms(1,2)] assms(3,4) distance_bounds [OF assms(1,2)] by (simp add: MAX_THREAD_def)

lemma schedule_no_overrun: "thread_schedule s \<noteq> Overruns"
  by (simp add: thread_schedule_def Let_def split: option.split)

lemma calls_no_overrun: "list_all gives_way as \<Longrightarrow> calls base as s \<noteq> Overruns"
proof (induction as arbitrary: s)
  case (Cons a as)
  then have "call base a s \<noteq> Overruns" by (cases a) (simp_all add: thread_yield_def thread_exit_def schedule_no_overrun)
  then show ?case using Cons by (auto split: ucall.split)
qed simp

definition fresh_threads :: uthreads where
  "fresh_threads = \<lparr>lastIndex = 0, all_thread = replicate MAX_THREAD \<lparr>sp = 0, state = FREE\<rparr>, current_thread = 0,
     next_thread = None, esp = 0x2000, umem = (\<lambda>_. 0)\<rparr>"

definition two_ready :: uthreads where
  "two_ready = (case calls 0x4000 [Create 0x100, Create 0x200] (thread_init fresh_threads) of Returns t \<Rightarrow> t | _ \<Rightarrow> fresh_threads)"

theorem ready_thread_runs_witness:
  "\<exists>k t. k \<le> 7 \<and> calls 0x4000 (take k (replicate 7 Yield)) two_ready = Returns t \<and> current_thread t = 2"
proof -
  have "table_ok two_ready" "waits 2 two_ready" by (simp_all add: two_ready_def fresh_threads_def thread_init_def thread_create_def
    Let_def table_ok_def waits_def MAX_THREAD_def numeral_eq_Suc)
  moreover have "calls 0x4000 (replicate 7 Yield) two_ready \<noteq> Overruns" by (rule calls_no_overrun) (simp add: list_all_iff)
  ultimately show ?thesis using ready_thread_runs [of two_ready 2 "0x4000" "replicate 7 Yield"] by simp
qed

text \<open>The comment in \<^verbatim>\<open>thread_schedule\<close> says that a thread that is the only runnable one goes on. It does not: the
  pointer \<^verbatim>\<open>t\<close> never leaves the table, so the test fails and the program ends.\<close>

lemma only_thread_yields_exits:
  assumes "table_ok s" "\<forall>i < MAX_THREAD. i \<noteq> current_thread s \<longrightarrow> state (all_thread s ! i) \<noteq> RUNNABLE"
  shows "thread_yield s = Exits"
proof -
  let ?s = "set_state (current_thread s) RUNNABLE s"
  have n: "\<not> (state (all_thread ?s ! i) = RUNNABLE \<and> i \<noteq> current_thread ?s)" if "i < MAX_THREAD" for i
    using assms(2) that by (cases "i = current_thread s") (simp_all add: set_state_def)
  have "find_runnable l xs ?s = None" for l xs
  proof (induction xs)
    case (Cons x xs)
    then show ?case using n [of "(l + x) mod MAX_THREAD"] by (auto simp: Let_def MAX_THREAD_def)
  qed simp
  moreover have "\<not> (8 :: nat) \<le> x mod 8" for x by (simp add: not_le)
  ultimately show ?thesis by (simp add: thread_yield_def thread_schedule_def last_looked_def MAX_THREAD_def Let_def)
qed

text \<open>With all eight entries in use \<^verbatim>\<open>thread_create\<close> writes behind the table.\<close>

lemma create_overruns: "\<forall>t \<in> set (all_thread s). state t \<noteq> FREE \<Longrightarrow> thread_create base func s = Overruns"
  by (simp add: thread_create_def scan_from_None [THEN iffD2])

end
