(* ===== verification/Bounded_Buffer.thy ===== *)
theory Bounded_Buffer
  imports Main
begin

text \<open>
  The producer and the consumer of laboratory 5 (\<^verbatim>\<open>lab-05/buf.c\<close>) as two threads whose steps interleave freely: the
  semaphores \<^verbatim>\<open>sem_prod\<close> and \<^verbatim>\<open>sem_cons\<close>, the mutex and the circular buffer are shared. Delays and output do not change
  this state. \<^verbatim>\<open>main\<close> destroys the mutex and the semaphores right after starting the threads; the steps are those of
  threads that finish before that has an effect.
\<close>

section \<open>State and steps\<close>








section \<open>The invariant\<close>













section \<open>Progress\<close>







end
