(* ===== verification/Page_Sim.thy ===== *)
theory Page_Sim
  imports Xv6_Prelude
begin

text \<open>
  The paging simulators of laboratory 7. \<^verbatim>\<open>sim.c\<close> and \<^verbatim>\<open>simulador_memoria.c\<close> have the same code for different sizes,
  which are parameters here. The input is the list of pairs that \<^verbatim>\<open>scanf\<close> reads; a table index out of range ends the
  run as \<open>Wild\<close>, because the code does not check it.
\<close>

section \<open>State\<close>

record pagina =
  numero :: int
  pid :: int
  timestamp :: int

record proceso =
  p_id :: int
  memoria :: string
  paginas :: "int list"

record sim =
  falsoTimestamp :: int
  posActualMemoria :: nat
  posActualDisco :: nat
  tablaProcesos :: "proceso list"
  mem_fisica :: "pagina list"
  mem_secundaria :: "pagina list"

text \<open>Pages of a process, frames and pages of the disk: the quotients by \<^verbatim>\<open>TAM_PAGINA\<close>.\<close>

record sizes =
  virtuales :: nat
  marcos :: nat
  disco :: nat

definition sim_sizes :: sizes where
  "sim_sizes = \<lparr>virtuales = 64 div 4, marcos = 32 div 4, disco = 64 div 4\<rparr>"

definition simulador_sizes :: sizes where
  "simulador_sizes = \<lparr>virtuales = 32 div 4, marcos = 16 div 4, disco = 32 div 4\<rparr>"

definition PROCESOS :: nat where "PROCESOS = 20"

datatype result = Ok sim | Failure string | Wild

section \<open>Setting up\<close>

definition vaciarTablaProcesos :: "sizes \<Rightarrow> proceso list" where
  "vaciarTablaProcesos z = replicate PROCESOS \<lparr>p_id = -1, memoria = replicate (virtuales z) (CHR ''-''), paginas = replicate (virtuales z) (-1)\<rparr>"

text \<open>The globals start with zeros; the timestamps of the disk keep theirs.\<close>

definition vaciarDisco :: "sizes \<Rightarrow> pagina list" where
  "vaciarDisco z = replicate (disco z) \<lparr>numero = -1, pid = -1, timestamp = 0\<rparr>"

definition vaciarMemoria :: "sizes \<Rightarrow> pagina list" where
  "vaciarMemoria z = replicate (marcos z) \<lparr>numero = -1, pid = -1, timestamp = -1\<rparr>"

definition sim_start :: "sizes \<Rightarrow> sim" where
  "sim_start z = \<lparr>falsoTimestamp = 0, posActualMemoria = 0, posActualDisco = 0, tablaProcesos = vaciarTablaProcesos z,
     mem_fisica = vaciarMemoria z, mem_secundaria = vaciarDisco z\<rparr>"

section \<open>Replacement\<close>

text \<open>Finds the process and the page of an evicted frame and marks it as being on the disk.\<close>

definition marcar_disco :: "pagina \<Rightarrow> proceso list \<Rightarrow> proceso list" where
  "marcar_disco g ps =
     (case scan (\<lambda>p. p_id p \<noteq> -1 \<and> p_id p = pid g) ps of
        None \<Rightarrow> ps
      | Some i \<Rightarrow> (case scan (\<lambda>n. n = numero g) (paginas (ps ! i)) of
          None \<Rightarrow> ps
        | Some j \<Rightarrow> ps[i := (ps ! i)\<lparr>memoria := (memoria (ps ! i))[j := CHR ''D'']\<rparr>]))"

text \<open>Stores a frame on the next page of the disk; \<open>None\<close> when the disk is full.\<close>

definition desalojar :: "sizes \<Rightarrow> nat \<Rightarrow> sim \<Rightarrow> sim option" where
  "desalojar z k s =
     (if posActualDisco s \<ge> disco z then None
      else Some (s\<lparr>mem_secundaria := (mem_secundaria s)[posActualDisco s := mem_fisica s ! k],
        tablaProcesos := marcar_disco (mem_fisica s ! k) (tablaProcesos s), posActualDisco := posActualDisco s + 1\<rparr>))"

text \<open>The last lines of both algorithms: the page table entry of the page.\<close>

definition asignar :: "sizes \<Rightarrow> int \<Rightarrow> int \<Rightarrow> sim \<Rightarrow> result" where
  "asignar z p pag s =
     (if 0 \<le> p - 1 \<and> p - 1 < int PROCESOS \<and> 0 \<le> pag - 1 \<and> pag - 1 < int (virtuales z) then
        let i = nat (p - 1); j = nat (pag - 1); q = tablaProcesos s ! i in
        Ok (s\<lparr>tablaProcesos := (tablaProcesos s)[i := q\<lparr>paginas := (paginas q)[j := pag], memoria := (memoria q)[j := CHR ''F'']\<rparr>]\<rparr>)
      else Wild)"

text \<open>\<^verbatim>\<open>fifo\<close> leaves the time stamp of the new page as it was on the stack: \<open>junk\<close>.\<close>

definition fifo :: "sizes \<Rightarrow> int \<Rightarrow> int \<Rightarrow> int \<Rightarrow> sim \<Rightarrow> result" where
  "fifo z junk p pag s =
     (let k = posActualMemoria s mod marcos z in
      case (if posActualMemoria s \<ge> marcos z then desalojar z k s else Some s) of
        None \<Rightarrow> Failure ''Disco lleno''
      | Some s \<Rightarrow> asignar z p pag (s\<lparr>mem_fisica := (mem_fisica s)[k := \<lparr>numero = pag, pid = p, timestamp = junk\<rparr>]\<rparr>))"

text \<open>The search for the smallest time stamp: the frame found so far and its stamp.\<close>

fun buscar_menor :: "nat \<Rightarrow> pagina list \<Rightarrow> nat \<Rightarrow> int \<Rightarrow> nat" where
  "buscar_menor i [] ubicacion menor = ubicacion"
| "buscar_menor i (g # gs) ubicacion menor =
     (if timestamp g < menor then buscar_menor (Suc i) gs i (timestamp g) else buscar_menor (Suc i) gs ubicacion menor)"

definition lru :: "sizes \<Rightarrow> int \<Rightarrow> int \<Rightarrow> sim \<Rightarrow> result" where
  "lru z p pag s =
     (let ubicacionMemoria = posActualMemoria s mod marcos z in
      case (if posActualMemoria s \<ge> marcos z
            then desalojar z (buscar_menor 0 (mem_fisica s) 0 (timestamp (mem_fisica s ! 0))) s else Some s) of
        None \<Rightarrow> Failure ''Disco lleno''
      | Some s \<Rightarrow>
          let k = buscar_menor 0 (mem_fisica s) ubicacionMemoria (timestamp (mem_fisica s ! 0)) in
          asignar z p pag (s\<lparr>mem_fisica := (mem_fisica s)[k := \<lparr>numero = pag, pid = p, timestamp = falsoTimestamp s\<rparr>]\<rparr>))"

section \<open>The main loop\<close>

definition tocar :: "int \<Rightarrow> int \<Rightarrow> sim \<Rightarrow> sim option" where
  "tocar p pag s = (case scan (\<lambda>g. pid g = p \<and> numero g = pag) (mem_fisica s) of
     None \<Rightarrow> None
   | Some i \<Rightarrow> Some (s\<lparr>mem_fisica := (mem_fisica s)[i := (mem_fisica s ! i)\<lparr>timestamp := falsoTimestamp s\<rparr>]\<rparr>))"

definition reemplazar :: "sizes \<Rightarrow> char \<Rightarrow> int \<Rightarrow> int \<Rightarrow> int \<Rightarrow> sim \<Rightarrow> result" where
  "reemplazar z modo junk p pag s =
     (case (if modo = CHR ''f'' then fifo z junk p pag s else if modo = CHR ''l'' then lru z p pag s else Failure ''Uso'') of
        Ok s \<Rightarrow> Ok (s\<lparr>posActualMemoria := posActualMemoria s + 1\<rparr>) | r \<Rightarrow> r)"

definition acceso :: "sizes \<Rightarrow> char \<Rightarrow> int \<Rightarrow> int \<times> int \<Rightarrow> sim \<Rightarrow> result" where
  "acceso z modo junk e s =
     (let (p, pag) = e; s = s\<lparr>falsoTimestamp := falsoTimestamp s + 1\<rparr> in
      if p < 0 \<or> p > int PROCESOS then Failure ''pid''
      else if p = 0 then Wild
      else
        let i = nat (p - 1); q = tablaProcesos s ! i in
        if p_id q = -1 then
          reemplazar z modo junk p pag (s\<lparr>tablaProcesos := (tablaProcesos s)[i := q\<lparr>p_id := p, memoria := (memoria q)[0 := CHR ''F'']\<rparr>]\<rparr>)
        else (case tocar p pag s of Some s \<Rightarrow> Ok s | None \<Rightarrow> reemplazar z modo junk p pag s))"

fun simular :: "sizes \<Rightarrow> char \<Rightarrow> int \<Rightarrow> (int \<times> int) list \<Rightarrow> sim \<Rightarrow> result" where
  "simular z modo junk [] s = Ok s"
| "simular z modo junk (e # es) s = (case acceso z modo junk e s of Ok s \<Rightarrow> simular z modo junk es s | r \<Rightarrow> r)"

definition sim_main :: "char \<Rightarrow> int \<Rightarrow> (int \<times> int) list \<Rightarrow> result" where
  "sim_main modo junk es = (if modo \<noteq> CHR ''f'' \<and> modo \<noteq> CHR ''l'' then Failure ''Uso'' else simular sim_sizes modo junk es (sim_start sim_sizes))"

definition simulador_main :: "char \<Rightarrow> int \<Rightarrow> (int \<times> int) list \<Rightarrow> result" where
  "simulador_main modo junk es = simular simulador_sizes modo junk es (sim_start simulador_sizes)"

end
