(* ===== verification/Page_Sim_Props.thy ===== *)
theory Page_Sim_Props
  imports Page_Sim
begin

text \<open>
  The FIFO mode of the paging simulator implements a queue of resident pages and keeps the page tables in step with
  it. The LRU mode does not always replace the least recently used frame.
\<close>

section \<open>What FIFO replacement should do\<close>

text \<open>The resident pages in order of arrival and the number of pages on the disk; \<open>None\<close> when a page has to go to a full
  disk.\<close>

fun fifo_access :: "sizes \<Rightarrow> int \<times> int \<Rightarrow> (int \<times> int) list \<times> nat \<Rightarrow> ((int \<times> int) list \<times> nat) option" where
  "fifo_access z e (r, n) =
     (if e \<in> set r then Some (r, n)
      else if length r < marcos z then Some (r @ [e], n)
      else if n < disco z then Some (tl r @ [e], n + 1)
      else None)"

fun fifo_run :: "sizes \<Rightarrow> (int \<times> int) list \<Rightarrow> (int \<times> int) list \<times> nat \<Rightarrow> ((int \<times> int) list \<times> nat) option" where
  "fifo_run z [] q = Some q"
| "fifo_run z (e # es) q = (case fifo_access z e q of None \<Rightarrow> None | Some q \<Rightarrow> fifo_run z es q)"

section \<open>The abstraction and the invariant\<close>

definition page_of :: "pagina \<Rightarrow> int \<times> int" where
  "page_of g = (pid g, numero g)"

definition first_pos :: "sizes \<Rightarrow> sim \<Rightarrow> nat" where
  "first_pos z s = posActualMemoria s - min (posActualMemoria s) (marcos z)"

definition resident :: "sizes \<Rightarrow> sim \<Rightarrow> (int \<times> int) list" where
  "resident z s = map (\<lambda>i. page_of (mem_fisica s ! (i mod marcos z))) [first_pos z s ..< posActualMemoria s]"

definition valid :: "sizes \<Rightarrow> int \<times> int \<Rightarrow> bool" where
  "valid z e \<longleftrightarrow> 1 \<le> fst e \<and> fst e \<le> int PROCESOS \<and> 1 \<le> snd e \<and> snd e \<le> int (virtuales z)"

abbreviation proc_of :: "int \<times> int \<Rightarrow> proceso list \<Rightarrow> proceso" where
  "proc_of e ps \<equiv> ps ! nat (fst e - 1)"

text \<open>The page table says that the page is in physical memory.\<close>

definition marked :: "proceso list \<Rightarrow> int \<times> int \<Rightarrow> bool" where
  "marked ps e \<longleftrightarrow> paginas (proc_of e ps) ! nat (snd e - 1) = snd e \<and> memoria (proc_of e ps) ! nat (snd e - 1) = CHR ''F''"

definition table_ok :: "sizes \<Rightarrow> proceso list \<Rightarrow> bool" where
  "table_ok z ps \<longleftrightarrow> length ps = PROCESOS \<and>
     (\<forall>i < PROCESOS. p_id (ps ! i) \<in> {-1, int i + 1} \<and> length (memoria (ps ! i)) = virtuales z \<and> length (paginas (ps ! i)) = virtuales z \<and>
       (\<forall>j < virtuales z. paginas (ps ! i) ! j \<in> {-1, int j + 1} \<and> (p_id (ps ! i) = -1 \<longrightarrow> paginas (ps ! i) ! j = -1)))"

definition sim_ok :: "sizes \<Rightarrow> sim \<Rightarrow> bool" where
  "sim_ok z s \<longleftrightarrow> 0 < marcos z \<and> length (mem_fisica s) = marcos z \<and> table_ok z (tablaProcesos s) \<and>
     (\<forall>k. posActualMemoria s \<le> k \<and> k < marcos z \<longrightarrow> pid (mem_fisica s ! k) = -1) \<and>
     distinct (resident z s) \<and>
     (\<forall>e \<in> set (resident z s). valid z e \<and> p_id (proc_of e (tablaProcesos s)) = fst e) \<and>
     (\<forall>e. valid z e \<longrightarrow> (marked (tablaProcesos s) e \<longleftrightarrow> e \<in> set (resident z s)))"

lemma start_ok: "0 < marcos z \<Longrightarrow> sim_ok z (sim_start z)"
  by (auto simp: sim_ok_def sim_start_def resident_def first_pos_def table_ok_def vaciarTablaProcesos_def vaciarMemoria_def
    valid_def marked_def)

lemma resident_start: "resident z (sim_start z) = []"
  by (simp add: resident_def sim_start_def first_pos_def)

lemma length_resident: "length (resident z s) = min (posActualMemoria s) (marcos z)"
  by (simp add: resident_def first_pos_def)

lemma resident_cong:
  assumes "posActualMemoria t = posActualMemoria s" "length (mem_fisica s) = marcos z" "0 < marcos z"
    "map page_of (mem_fisica t) = map page_of (mem_fisica s)"
  shows "resident z t = resident z s"
proof -
  have "page_of (mem_fisica t ! (i mod marcos z)) = page_of (mem_fisica s ! (i mod marcos z))" for i
  proof -
    have "i mod marcos z < length (mem_fisica s)" "length (mem_fisica t) = length (mem_fisica s)"
      using assms(2,3) map_eq_imp_length_eq [OF assms(4)] by simp_all
    then show ?thesis using arg_cong [OF assms(4), of "\<lambda>l. l ! (i mod marcos z)"] by simp
  qed
  then show ?thesis using assms(1) by (simp add: resident_def first_pos_def)
qed

text \<open>The pages in physical memory are the resident ones.\<close>

lemma resident_set:
  assumes "sim_ok z s" "valid z e"
  shows "e \<in> set (resident z s) \<longleftrightarrow> (\<exists>k < marcos z. page_of (mem_fisica s ! k) = e)"
proof
  assume "e \<in> set (resident z s)"
  then obtain i where "page_of (mem_fisica s ! (i mod marcos z)) = e" by (auto simp: resident_def)
  moreover have "i mod marcos z < marcos z" using assms(1) by (simp add: sim_ok_def)
  ultimately show "\<exists>k < marcos z. page_of (mem_fisica s ! k) = e" by blast
next
  assume "\<exists>k < marcos z. page_of (mem_fisica s ! k) = e"
  then obtain k where k: "k < marcos z" "page_of (mem_fisica s ! k) = e" by blast
  let ?p = "posActualMemoria s" let ?m = "marcos z"
  have kp: "k < ?p"
  proof (rule ccontr)
    assume "\<not> k < ?p"
    then have "pid (mem_fisica s ! k) = -1" using assms(1) k(1) by (simp add: sim_ok_def)
    then show False using k(2) assms(2) by (auto simp: page_of_def valid_def)
  qed
  define i where "i = (if ?p \<le> ?m then k else ?p - 1 - (?p - 1 - k) mod ?m)"
  have i: "first_pos z s \<le> i" "i < ?p" "i mod ?m = k"
  proof -
    have m: "(?p - 1 - k) mod ?m < ?m" using k(1) by simp
    show "first_pos z s \<le> i" "i < ?p" using m kp by (auto simp: i_def first_pos_def)
    show "i mod ?m = k"
    proof (cases "?p \<le> ?m")
      case True
      then show ?thesis using k(1) by (simp add: i_def)
    next
      case False
      define x where "x = ?p - 1 - k"
      have "?p - 1 = x + k" using kp by (simp add: x_def)
      moreover have "x = ?m * (x div ?m) + x mod ?m" by simp
      ultimately have "?p - 1 - x mod ?m = k + ?m * (x div ?m)" by linarith
      then have "?p - 1 - (?p - 1 - k) mod ?m = k + ?m * (x div ?m)" by (simp only: x_def)
      then show ?thesis using False k(1) by (simp add: i_def)
    qed
  qed
  then have "i \<in> set [first_pos z s ..< ?p]" by simp
  then show "e \<in> set (resident z s)" using i(3) k(2) unfolding resident_def by (metis (no_types, lifting) image_eqI list.set_map)
qed

section \<open>Page tables\<close>

lemma validE:
  assumes "valid z e"
  obtains i j where "e = (int i + 1, int j + 1)" "i < PROCESOS" "j < virtuales z" "nat (fst e - 1) = i" "nat (snd e - 1) = j"
proof -
  have "e = (int (nat (fst e - 1)) + 1, int (nat (snd e - 1)) + 1)" using assms by (cases e) (auto simp: valid_def)
  moreover have "nat (fst e - 1) < PROCESOS" "nat (snd e - 1) < virtuales z" using assms by (auto simp: valid_def)
  ultimately show ?thesis using that by blast
qed

lemma table_okD:
  assumes "table_ok z ps" "i < PROCESOS"
  shows "length ps = PROCESOS" "p_id (ps ! i) = -1 \<or> p_id (ps ! i) = int i + 1" "length (memoria (ps ! i)) = virtuales z"
    "length (paginas (ps ! i)) = virtuales z"
    "\<And>j. j < virtuales z \<Longrightarrow> paginas (ps ! i) ! j = -1 \<or> paginas (ps ! i) ! j = int j + 1"
    "\<And>j. j < virtuales z \<Longrightarrow> p_id (ps ! i) = -1 \<Longrightarrow> paginas (ps ! i) ! j = -1"
  using assms by (auto simp: table_ok_def)

lemma table_ok_update:
  assumes "table_ok z ps" "i < PROCESOS" "p_id q \<in> {-1, int i + 1}" "length (memoria q) = virtuales z" "length (paginas q) = virtuales z"
    "\<forall>j < virtuales z. paginas q ! j \<in> {-1, int j + 1} \<and> (p_id q = -1 \<longrightarrow> paginas q ! j = -1)"
  shows "table_ok z (ps[i := q])"
  using assms by (auto simp: table_ok_def nth_list_update)

lemma marcar_disco_ok:
  assumes t: "table_ok z ps" and v: "valid z e" and g: "page_of g = e" and p: "p_id (proc_of e ps) = fst e" and m: "marked ps e"
  shows "table_ok z (marcar_disco g ps)" "\<And>k. p_id (marcar_disco g ps ! k) = p_id (ps ! k)"
    "\<And>x. valid z x \<Longrightarrow> marked (marcar_disco g ps) x \<longleftrightarrow> marked ps x \<and> x \<noteq> e"
proof -
  obtain i j where ij: "e = (int i + 1, int j + 1)" "i < PROCESOS" "j < virtuales z" using v by (rule validE)
  have g': "pid g = int i + 1" "numero g = int j + 1" using g ij(1) by (auto simp: page_of_def)
  note ti = table_okD [OF t ij(2)]
  have pi: "p_id (ps ! i) = int i + 1" and gj: "paginas (ps ! i) ! j = int j + 1" using p m ij(1) by (simp_all add: marked_def)
  have s1: "scan (\<lambda>p. p_id p \<noteq> -1 \<and> p_id p = pid g) ps = Some i"
  proof -
    have "p_id (ps ! k) \<noteq> int i + 1" if "k < i" for k using table_okD(2) [OF t, of k] that ij(2) by linarith
    then show ?thesis unfolding scan_Some g' using ti(1) ij(2) pi by simp
  qed
  have s2: "scan (\<lambda>n. n = numero g) (paginas (ps ! i)) = Some j"
  proof -
    have "paginas (ps ! i) ! k \<noteq> int j + 1" if "k < j" for k using ti(5) [of k] that ij(3) by linarith
    then show ?thesis unfolding scan_Some g' using ti(4) ij(3) gj by simp
  qed
  define q where "q = (ps ! i)\<lparr>memoria := (memoria (ps ! i))[j := CHR ''D'']\<rparr>"
  have e: "marcar_disco g ps = ps[i := q]" by (simp add: marcar_disco_def s1 s2 q_def)
  show "table_ok z (marcar_disco g ps)" unfolding e using t ij(2) ti
    by (intro table_ok_update) (auto simp: q_def)
  show "p_id (marcar_disco g ps ! k) = p_id (ps ! k)" for k
    unfolding e using ti(1) ij(2) by (cases "k = i") (simp_all add: q_def)
  fix x assume "valid z x"
  then obtain i' j' where x: "x = (int i' + 1, int j' + 1)" "i' < PROCESOS" "j' < virtuales z" by (rule validE)
  show "marked (marcar_disco g ps) x \<longleftrightarrow> marked ps x \<and> x \<noteq> e"
    unfolding e marked_def using x ij ti(1,3) by (cases "i' = i"; cases "j' = j") (simp_all add: q_def)
qed

definition asignado :: "int \<times> int \<Rightarrow> proceso list \<Rightarrow> proceso list" where
  "asignado e ps = (let i = nat (fst e - 1); j = nat (snd e - 1); q = ps ! i in
     ps[i := q\<lparr>paginas := (paginas q)[j := snd e], memoria := (memoria q)[j := CHR ''F'']\<rparr>])"

lemma asignar_valid:
  "valid z (p, g) \<Longrightarrow> asignar z p g s = Ok (s\<lparr>tablaProcesos := asignado (p, g) (tablaProcesos s)\<rparr>)"
  by (auto simp: asignar_def asignado_def valid_def Let_def)

lemma asignado_ok:
  assumes t: "table_ok z ps" and v: "valid z e" and p: "p_id (proc_of e ps) = fst e"
  shows "table_ok z (asignado e ps)" "\<And>k. p_id (asignado e ps ! k) = p_id (ps ! k)"
    "\<And>x. valid z x \<Longrightarrow> marked (asignado e ps) x \<longleftrightarrow> marked ps x \<or> x = e"
proof -
  obtain i j where ij: "e = (int i + 1, int j + 1)" "i < PROCESOS" "j < virtuales z" using v by (rule validE)
  note ti = table_okD [OF t ij(2)]
  define q where "q = (ps ! i)\<lparr>paginas := (paginas (ps ! i))[j := int j + 1], memoria := (memoria (ps ! i))[j := CHR ''F'']\<rparr>"
  have e: "asignado e ps = ps[i := q]" using ij(1) by (simp add: asignado_def q_def Let_def)
  have pi: "p_id (ps ! i) = int i + 1" using p ij(1) by simp
  have "paginas q ! k \<in> {-1, int k + 1}" if "k < virtuales z" for k
    using ti(4,5) that by (cases "k = j") (auto simp: q_def)
  then show "table_ok z (asignado e ps)" unfolding e using t ij(2) ti(3,4) pi
    by (intro table_ok_update) (auto simp: q_def)
  show "p_id (asignado e ps ! k) = p_id (ps ! k)" for k
    unfolding e using ti(1) ij(2) by (cases "k = i") (simp_all add: q_def)
  fix x assume "valid z x"
  then obtain i' j' where x: "x = (int i' + 1, int j' + 1)" "i' < PROCESOS" "j' < virtuales z" by (rule validE)
  show "marked (asignado e ps) x \<longleftrightarrow> marked ps x \<or> x = e"
    unfolding e marked_def using x ij ti(1,3,4) by (cases "i' = i"; cases "j' = j") (simp_all add: q_def)
qed

section \<open>The resident pages after an insertion\<close>

lemma resident_insert:
  assumes "length (mem_fisica s) = marcos z" "0 < marcos z"
    "mem_fisica t = (mem_fisica s)[posActualMemoria s mod marcos z := g]" "posActualMemoria t = Suc (posActualMemoria s)"
  shows "resident z t = (if length (resident z s) < marcos z then resident z s else tl (resident z s)) @ [page_of g]"
proof -
  let ?p = "posActualMemoria s" let ?m = "marcos z"
  have other: "mem_fisica t ! (i mod ?m) = mem_fisica s ! (i mod ?m)" if "i < ?p" "?p < i + ?m" for i
  proof -
    have "i mod ?m \<noteq> ?p mod ?m"
    proof
      assume "i mod ?m = ?p mod ?m"
      then have "?m dvd ?p - i" using that(1) mod_eq_dvd_iff_nat [of i ?p ?m] by simp
      then have "?m \<le> ?p - i" using that by (intro dvd_imp_le) auto
      then show False using that by simp
    qed
    then show ?thesis by (simp add: assms(3))
  qed
  have new: "mem_fisica t ! (?p mod ?m) = g" using assms by simp
  have r: "resident z t = map (\<lambda>i. page_of (mem_fisica t ! (i mod ?m))) [first_pos z t ..< ?p] @ [page_of g]"
    using new assms(2,4) by (simp add: resident_def first_pos_def)
  show ?thesis
  proof (cases "?p < ?m")
    case True
    then have "first_pos z t = 0" "first_pos z s = 0" using assms(4) by (simp_all add: first_pos_def)
    moreover have "mem_fisica t ! (i mod ?m) = mem_fisica s ! (i mod ?m)" if "i < ?p" for i using other that True by simp
    ultimately show ?thesis using True r unfolding length_resident resident_def by simp
  next
    case False
    then have f: "first_pos z s = ?p - ?m" "first_pos z t = Suc (?p - ?m)" using assms(4) by (simp_all add: first_pos_def)
    have u: "[?p - ?m ..< ?p] = (?p - ?m) # [Suc (?p - ?m) ..< ?p]" using False assms(2) by (simp add: upt_rec)
    have "mem_fisica t ! (i mod ?m) = mem_fisica s ! (i mod ?m)" if "i \<in> set [Suc (?p - ?m) ..< ?p]" for i
      using that False by (intro other) auto
    then have "tl (resident z s) = map (\<lambda>i. page_of (mem_fisica t ! (i mod ?m))) [Suc (?p - ?m) ..< ?p]"
      unfolding resident_def f(1) u by simp
    then show ?thesis using r f(2) False unfolding length_resident by simp
  qed
qed

section \<open>One access\<close>

lemma sim_okD:
  assumes "sim_ok z s"
  shows "0 < marcos z" "length (mem_fisica s) = marcos z" "table_ok z (tablaProcesos s)"
    "\<And>k. posActualMemoria s \<le> k \<Longrightarrow> k < marcos z \<Longrightarrow> pid (mem_fisica s ! k) = -1" "distinct (resident z s)"
    "\<And>e. e \<in> set (resident z s) \<Longrightarrow> valid z e \<and> p_id (proc_of e (tablaProcesos s)) = fst e"
    "\<And>e. valid z e \<Longrightarrow> marked (tablaProcesos s) e \<longleftrightarrow> e \<in> set (resident z s)"
  using assms unfolding sim_ok_def by blast+

lemma sim_ok_cong:
  assumes "sim_ok z s" "posActualMemoria t = posActualMemoria s" "tablaProcesos t = tablaProcesos s"
    "map page_of (mem_fisica t) = map page_of (mem_fisica s)"
  shows "sim_ok z t" "resident z t = resident z s"
proof -
  note i = sim_okD [OF assms(1)]
  show r: "resident z t = resident z s" by (rule resident_cong [OF assms(2) i(2,1) assms(4)])
  have l: "length (mem_fisica t) = length (mem_fisica s)" by (rule map_eq_imp_length_eq [OF assms(4)])
  have "pid (mem_fisica t ! k) = pid (mem_fisica s ! k)" if "k < marcos z" for k
    using arg_cong [OF assms(4), of "\<lambda>x. fst (x ! k)"] that l i(2) by (simp add: page_of_def)
  then show "sim_ok z t" using i assms(2,3) l unfolding sim_ok_def r by simp
qed

text \<open>A page that is in memory is touched, any other is not found.\<close>

lemma tocar_ok:
  assumes "sim_ok z s" "valid z (p, g)"
  shows "(p, g) \<notin> set (resident z s) \<Longrightarrow> tocar p g s = None"
    "(p, g) \<in> set (resident z s) \<Longrightarrow> \<exists>t. tocar p g s = Some t \<and> sim_ok z t \<and> resident z t = resident z s \<and> posActualDisco t = posActualDisco s"
proof -
  note i = sim_okD [OF assms(1)]
  have r: "(p, g) \<in> set (resident z s) \<longleftrightarrow> (\<exists>k < length (mem_fisica s). pid (mem_fisica s ! k) = p \<and> numero (mem_fisica s ! k) = g)"
    using resident_set [OF assms] i(2) by (simp add: page_of_def)
  show "tocar p g s = None" if "(p, g) \<notin> set (resident z s)"
    using that r by (simp add: tocar_def scan_None_nth [THEN iffD2])
  assume "(p, g) \<in> set (resident z s)"
  then obtain k where k: "scan (\<lambda>x. pid x = p \<and> numero x = g) (mem_fisica s) = Some k"
    using r by (cases "scan (\<lambda>x. pid x = p \<and> numero x = g) (mem_fisica s)") (auto simp: scan_None_nth)
  define t where "t = s\<lparr>mem_fisica := (mem_fisica s)[k := (mem_fisica s ! k)\<lparr>timestamp := falsoTimestamp s\<rparr>]\<rparr>"
  have kl: "k < length (mem_fisica s)" using k by (simp add: scan_Some)
  have "map page_of (mem_fisica t) = (map page_of (mem_fisica s))[k := page_of (mem_fisica s ! k)]"
    by (simp add: t_def map_update page_of_def)
  also have "\<dots> = map page_of (mem_fisica s)" using kl by (metis list_update_id nth_map)
  finally have m: "map page_of (mem_fisica t) = map page_of (mem_fisica s)" .
  have "sim_ok z t" "resident z t = resident z s" using sim_ok_cong [OF assms(1) _ _ m] by (simp_all add: t_def)
  then show "\<exists>t. tocar p g s = Some t \<and> sim_ok z t \<and> resident z t = resident z s \<and> posActualDisco t = posActualDisco s"
    using k by (auto simp: tocar_def t_def)
qed

text \<open>The effect of a page fault on a state \<open>u\<close> from which the old page of the frame is already evicted.\<close>

lemma insert_ok:
  assumes s: "sim_ok z s" and v: "valid z e" and new: "e \<notin> set (resident z s)" and p: "p_id (proc_of e (tablaProcesos s)) = fst e"
    and ps: "table_ok z ps" "\<And>k. p_id (ps ! k) = p_id (tablaProcesos s ! k)"
      "\<And>x. valid z x \<Longrightarrow> marked ps x \<longleftrightarrow> x \<in> set r" "r = (if length (resident z s) < marcos z then resident z s else tl (resident z s))"
    and t: "tablaProcesos t = asignado e ps" "posActualMemoria t = Suc (posActualMemoria s)"
      "mem_fisica t = (mem_fisica s)[posActualMemoria s mod marcos z := g]" "page_of g = e"
  shows "sim_ok z t \<and> resident z t = r @ [e]"
proof -
  note i = sim_okD [OF s]
  have rt: "resident z t = r @ [e]" using resident_insert [OF i(2,1) t(3,2)] t(4) ps(4) by simp
  have sub: "set r \<subseteq> set (resident z s)" unfolding ps(4) by (auto dest: list.set_sel(2) [rotated]) (metis list.sel(2) list.set_sel(2))
  have "distinct r" using i(5) ps(4) by (simp add: distinct_tl)
  then have d: "distinct (r @ [e])" using sub new by auto
  have pe: "p_id (proc_of e ps) = fst e" using p ps(2) by simp
  note a = asignado_ok [OF ps(1) v pe]
  have valid: "valid z x \<and> p_id (proc_of x (tablaProcesos t)) = fst x" if "x \<in> set (r @ [e])" for x
    using that sub i(6) [of x] v pe ps(2) a(2) by (auto simp: t(1))
  have empty: "pid (mem_fisica t ! k) = -1" if "posActualMemoria t \<le> k" "k < marcos z" for k
    using that i(4) [of k] t(2,3) by simp
  have marks: "marked (tablaProcesos t) x \<longleftrightarrow> x \<in> set (r @ [e])" if "valid z x" for x
    using a(3) [OF that] ps(3) [OF that] by (auto simp: t(1))
  show ?thesis unfolding sim_ok_def rt using i(1,2) a(1) t d valid empty marks by auto
qed

definition step_ok :: "sizes \<Rightarrow> int \<times> int \<Rightarrow> sim \<Rightarrow> result \<Rightarrow> bool" where
  "step_ok z e s res = (case fifo_access z e (resident z s, posActualDisco s) of
     None \<Rightarrow> res = Failure ''Disco lleno''
   | Some (r, n) \<Rightarrow> \<exists>t. res = Ok t \<and> sim_ok z t \<and> resident z t = r \<and> posActualDisco t = n)"

lemma fault_ok:
  assumes s: "sim_ok z s" and v: "valid z (p, g)" and new: "(p, g) \<notin> set (resident z s)"
    and p: "p_id (proc_of (p, g) (tablaProcesos s)) = p"
  shows "step_ok z (p, g) s (reemplazar z (CHR ''f'') junk p g s)"
proof (cases "length (resident z s) < marcos z")
  case True
  then have lt: "posActualMemoria s < marcos z" by (simp add: length_resident)
  define t where "t = s\<lparr>mem_fisica := (mem_fisica s)[posActualMemoria s mod marcos z := \<lparr>numero = g, pid = p, timestamp = junk\<rparr>],
      tablaProcesos := asignado (p, g) (tablaProcesos s), posActualMemoria := Suc (posActualMemoria s)\<rparr>"
  have "sim_ok z t \<and> resident z t = resident z s @ [(p, g)]"
    by (rule insert_ok [where g = "\<lparr>numero = g, pid = p, timestamp = junk\<rparr>", OF s v new _ sim_okD(3) [OF s] refl sim_okD(7) [OF s]])
      (use p True in \<open>simp_all add: t_def page_of_def\<close>)
  moreover have "reemplazar z (CHR ''f'') junk p g s = Ok t"
    using lt v by (simp add: reemplazar_def fifo_def asignar_valid t_def Let_def)
  ultimately show ?thesis using True new by (simp add: step_ok_def t_def)
next
  case False
  then have ge: "marcos z \<le> posActualMemoria s" by (simp add: length_resident)
  let ?k = "posActualMemoria s mod marcos z"
  note i = sim_okD [OF s]
  show ?thesis
  proof (cases "posActualDisco s < disco z")
    case full: False
    then have "reemplazar z (CHR ''f'') junk p g s = Failure ''Disco lleno''"
      using ge by (simp add: reemplazar_def fifo_def desalojar_def Let_def)
    then show ?thesis using False full new by (simp add: step_ok_def)
  next
    case room: True
    define d where "d = page_of (mem_fisica s ! ?k)"
    have "first_pos z s = posActualMemoria s - marcos z" using ge by (simp add: first_pos_def)
    then have u: "[first_pos z s ..< posActualMemoria s] = (posActualMemoria s - marcos z) # [Suc (posActualMemoria s - marcos z) ..< posActualMemoria s]"
      using ge i(1) by (simp add: upt_rec)
    have "(posActualMemoria s - marcos z) mod marcos z = ?k" using ge by (simp add: le_mod_geq)
    then have r: "resident z s = d # tl (resident z s)" unfolding resident_def u d_def by simp
    then have dr: "d \<in> set (resident z s)" by (metis list.set_intros(1))
    note m = marcar_disco_ok [OF i(3) conjunct1 [OF i(6) [OF dr]] d_def [symmetric] conjunct2 [OF i(6) [OF dr]]
      iffD2 [OF i(7) [OF conjunct1 [OF i(6) [OF dr]]] dr]]
    let ?ps = "marcar_disco (mem_fisica s ! ?k) (tablaProcesos s)"
    have marks: "marked ?ps x \<longleftrightarrow> x \<in> set (tl (resident z s))" if "valid z x" for x
    proof -
      have "distinct (d # tl (resident z s))" using i(5) r by simp
      then have "x \<in> set (resident z s) \<and> x \<noteq> d \<longleftrightarrow> x \<in> set (tl (resident z s))" by (subst r) auto
      then show ?thesis using m(3) [OF that] i(7) [OF that] by simp
    qed
    define t where "t = s\<lparr>mem_secundaria := (mem_secundaria s)[posActualDisco s := mem_fisica s ! ?k], tablaProcesos := asignado (p, g) ?ps,
        posActualDisco := posActualDisco s + 1, mem_fisica := (mem_fisica s)[?k := \<lparr>numero = g, pid = p, timestamp = junk\<rparr>],
        posActualMemoria := Suc (posActualMemoria s)\<rparr>"
    have "sim_ok z t \<and> resident z t = tl (resident z s) @ [(p, g)]"
      by (rule insert_ok [where g = "\<lparr>numero = g, pid = p, timestamp = junk\<rparr>", OF s v new _ m(1,2) marks]) (use p False in \<open>simp_all add: t_def page_of_def\<close>)
    moreover have "reemplazar z (CHR ''f'') junk p g s = Ok t"
      using ge room v by (simp add: reemplazar_def fifo_def desalojar_def asignar_valid t_def Let_def)
    ultimately show ?thesis using False room new by (simp add: step_ok_def t_def)
  qed
qed

text \<open>A new process gets its table entry.\<close>

lemma create_ok:
  assumes s: "sim_ok z s" and v: "valid z (p, g)" and none: "p_id (tablaProcesos s ! nat (p - 1)) = -1"
    and t: "t = s\<lparr>tablaProcesos := (tablaProcesos s)[nat (p - 1) := (tablaProcesos s ! nat (p - 1))
      \<lparr>p_id := p, memoria := (memoria (tablaProcesos s ! nat (p - 1)))[0 := CHR ''F'']\<rparr>]\<rparr>"
  shows "sim_ok z t" "resident z t = resident z s" "p_id (proc_of (p, g) (tablaProcesos t)) = p" "(p, g) \<notin> set (resident z s)"
proof -
  note i = sim_okD [OF s]
  obtain a b where ab: "(p, g) = (int a + 1, int b + 1)" "a < PROCESOS" "b < virtuales z" using v by (rule validE)
  have pa: "nat (p - 1) = a" using ab by simp
  note ta = table_okD [OF i(3) ab(2)]
  define q where "q = (tablaProcesos s ! a)\<lparr>p_id := p, memoria := (memoria (tablaProcesos s ! a))[0 := CHR ''F'']\<rparr>"
  have tt: "tablaProcesos t = (tablaProcesos s)[a := q]" unfolding t pa q_def by simp
  show r: "resident z t = resident z s" by (rule resident_cong [OF _ i(2,1)]) (simp_all add: t)
  have away: "nat (fst x - 1) \<noteq> a" if "x \<in> set (resident z s)" for x
    using i(6) [OF that] none pa by (auto simp: valid_def)
  show "(p, g) \<notin> set (resident z s)" using away [of "(p, g)"] pa by auto
  show "p_id (proc_of (p, g) (tablaProcesos t)) = p" using tt pa ta(1) ab(2) by (simp add: q_def)
  have ok: "table_ok z (tablaProcesos t)" unfolding tt
    by (rule table_ok_update [OF i(3) ab(2)]) (use ta ab(1) in \<open>auto simp: q_def\<close>)
  have unset: "paginas (tablaProcesos s ! a) ! j = -1" if "j < virtuales z" for j using ta(6) [OF that] none pa by simp
  have marks: "marked (tablaProcesos t) x \<longleftrightarrow> marked (tablaProcesos s) x" if "valid z x" for x
  proof (cases "nat (fst x - 1) = a")
    case True
    have "nat (snd x - 1) < virtuales z" "snd x \<noteq> -1" using that by (auto simp: valid_def)
    then show ?thesis using unset True ta(1) ab(2) unfolding marked_def tt by (simp add: q_def)
  next
    case False
    then show ?thesis unfolding marked_def tt by simp
  qed
  have "p_id (proc_of x (tablaProcesos t)) = fst x" if "x \<in> set (resident z s)" for x
    using i(6) [OF that] away [OF that] tt by simp
  then show "sim_ok z t" unfolding sim_ok_def r using i(1,2,4,5) i(6,7) ok marks by (simp add: t)
qed

lemma acceso_ok:
  assumes s: "sim_ok z s" and v: "valid z e"
  shows "step_ok z e s (acceso z (CHR ''f'') junk e s)"
proof -
  obtain p g where e: "e = (p, g)" by (cases e)
  define s1 where "s1 = s\<lparr>falsoTimestamp := falsoTimestamp s + 1\<rparr>"
  have s1: "sim_ok z s1" "resident z s1 = resident z s" using sim_ok_cong [OF s, of s1] by (simp_all add: s1_def)
  have d: "posActualDisco s1 = posActualDisco s" by (simp add: s1_def)
  have range: "\<not> (p < 0 \<or> p > int PROCESOS)" "p \<noteq> 0" using v e by (auto simp: valid_def)
  define i where "i = nat (p - 1)"
  have step: "step_ok z e s1 res \<Longrightarrow> step_ok z e s res" for res by (simp add: step_ok_def s1(2) d)
  show ?thesis
  proof (cases "p_id (tablaProcesos s1 ! i) = -1")
    case True
    define t where "t = s1\<lparr>tablaProcesos := (tablaProcesos s1)[i := (tablaProcesos s1 ! i)
      \<lparr>p_id := p, memoria := (memoria (tablaProcesos s1 ! i))[0 := CHR ''F'']\<rparr>]\<rparr>"
    note c = create_ok [OF s1(1) v [unfolded e] True [unfolded i_def] t_def [unfolded i_def]]
    have "acceso z (CHR ''f'') junk e s = reemplazar z (CHR ''f'') junk p g t"
      unfolding acceso_def e s1_def [symmetric] Let_def prod.case using range True by (simp add: t_def i_def)
    moreover have "step_ok z e t (reemplazar z (CHR ''f'') junk p g t)"
      unfolding e by (rule fault_ok) (use c v e in simp_all)
    moreover have "posActualDisco t = posActualDisco s1" by (simp add: t_def)
    ultimately show ?thesis using c(2) step by (simp add: step_ok_def)
  next
    case False
    have a: "acceso z (CHR ''f'') junk e s = (case tocar p g s1 of Some u \<Rightarrow> Ok u | None \<Rightarrow> reemplazar z (CHR ''f'') junk p g s1)"
      unfolding acceso_def e s1_def [symmetric] Let_def prod.case using range False by (simp add: i_def)
    have ip: "i < PROCESOS" using v e by (auto simp: valid_def i_def)
    have pi: "p_id (proc_of (p, g) (tablaProcesos s1)) = p"
      using table_okD(2) [OF sim_okD(3) [OF s1(1)] ip] False range by (simp add: i_def)
    show ?thesis
    proof (cases "(p, g) \<in> set (resident z s1)")
      case True
      then show ?thesis using tocar_ok(2) [OF s1(1) v [unfolded e] True] a s1(2) d e by (auto simp: step_ok_def)
    next
      case False
      then show ?thesis using tocar_ok(1) [OF s1(1) v [unfolded e] False] a fault_ok [OF s1(1) v [unfolded e] False pi] step e by simp
    qed
  qed
qed

lemma simular_ok:
  assumes "\<forall>e \<in> set es. valid z e" "sim_ok z s"
  shows "case fifo_run z es (resident z s, posActualDisco s) of
      None \<Rightarrow> simular z (CHR ''f'') junk es s = Failure ''Disco lleno''
    | Some (r, n) \<Rightarrow> \<exists>t. simular z (CHR ''f'') junk es s = Ok t \<and> sim_ok z t \<and> resident z t = r \<and> posActualDisco t = n"
  using assms
proof (induction es arbitrary: s)
  case (Cons e es)
  have a: "step_ok z e s (acceso z (CHR ''f'') junk e s)" using acceso_ok Cons.prems by simp
  show ?case
  proof (cases "fifo_access z e (resident z s, posActualDisco s)")
    case None
    then show ?thesis using a by (simp add: step_ok_def)
  next
    case (Some q)
    then obtain t where t: "acceso z (CHR ''f'') junk e s = Ok t" "sim_ok z t" "q = (resident z t, posActualDisco t)"
      using a by (auto simp: step_ok_def)
    have "simular z (CHR ''f'') junk (e # es) s = simular z (CHR ''f'') junk es t" using t(1) by simp
    moreover have "fifo_run z (e # es) (resident z s, posActualDisco s) = fifo_run z es (resident z t, posActualDisco t)"
      using Some t(3) by simp
    moreover have "\<forall>x \<in> set es. valid z x" using Cons.prems(1) by simp
    ultimately show ?thesis using Cons.IH [OF _ t(2)] by (simp only:)
  qed
qed simp

text \<open>C11. The simulator in FIFO mode implements first-in first-out replacement, for every sequence of valid accesses: the
  pages in physical memory are, in order of arrival, those of the queue; it gives up exactly when the queue has to
  evict a page and the disk is full; and a page table entry says that its page is in memory exactly when it is.\<close>

theorem simulator_is_fifo:
  assumes "\<forall>e \<in> set es. valid z e" "0 < marcos z"
  shows "case fifo_run z es ([], 0) of
      None \<Rightarrow> simular z (CHR ''f'') junk es (sim_start z) = Failure ''Disco lleno''
    | Some (r, n) \<Rightarrow> \<exists>t. simular z (CHR ''f'') junk es (sim_start z) = Ok t \<and> resident z t = r \<and> posActualDisco t = n \<and>
        (\<forall>e. valid z e \<longrightarrow> (marked (tablaProcesos t) e \<longleftrightarrow> e \<in> set r))"
proof -
  have "posActualDisco (sim_start z) = 0" by (simp add: sim_start_def)
  then show ?thesis using simular_ok [OF assms(1) start_ok [OF assms(2)], of junk] sim_okD(7)
    by (fastforce simp: resident_start split: option.splits)
qed

theorem simulator_is_fifo_witness:
  "\<exists>t. simular simulador_sizes (CHR ''f'') 0 [(1, 3), (1, 8), (1, 3), (2, 1), (3, 2), (4, 4)] (sim_start simulador_sizes) = Ok t \<and>
     resident simulador_sizes t = [(1, 8), (2, 1), (3, 2), (4, 4)] \<and> posActualDisco t = 1"
proof -
  let ?es = "[(1, 3), (1, 8), (1, 3), (2, 1), (3, 2), (4, 4)] :: (int \<times> int) list"
  have v: "\<forall>e \<in> set ?es. valid simulador_sizes e" by (simp add: valid_def simulador_sizes_def PROCESOS_def)
  have m: "0 < marcos simulador_sizes" by (simp add: simulador_sizes_def)
  have r: "fifo_run simulador_sizes ?es ([], 0) = Some ([(1, 8), (2, 1), (3, 2), (4, 4)], 1)" by (simp add: simulador_sizes_def)
  show ?thesis using simulator_is_fifo [OF v m, of 0] unfolding r by auto
qed

section \<open>LRU replacement\<close>



end
