(* ===== verification/Syscall_Args.thy ===== *)
theory Syscall_Args
  imports Syscall Calm Sample
begin

text \<open>
  Arguments of system calls. The kernel takes addresses from the user program; the checks of \<^verbatim>\<open>fetchint\<close>, \<^verbatim>\<open>argptr\<close> and
  \<^verbatim>\<open>fetchstr\<close> keep every access below the size of the process, so that a process whose pages are mapped cannot make
  the kernel fault, and no argument reaches outside of it.
\<close>

definition proc_size :: "nat \<Rightarrow> 'a lifek_scheme machine \<Rightarrow> nat" where
  "proc_size i s = unat (p_sz (proc_at i s))"

definition pages_mapped :: "nat \<Rightarrow> 'a lifek_scheme machine \<Rightarrow> bool" where
  "pages_mapped i s \<longleftrightarrow> proc_size i s \<le> 2 ^ 31 \<and> (\<forall>a < proc_size i s. vload s (of_nat a) \<noteq> None)"

definition user_mem :: "'a lifek_scheme machine \<Rightarrow> nat \<Rightarrow> nat \<Rightarrow> bytes" where
  "user_mem s a n = map (\<lambda>k. the (vload s (of_nat (a + k)))) [0..<n]"

text \<open>The string at the beginning of a piece of memory, when it ends there.\<close>

definition string_in :: "bytes \<Rightarrow> bytes option" where
  "string_in bs = (if 0 \<in> set bs then Some (takeWhile (\<lambda>c. c \<noteq> 0) bs) else None)"

lemma user_mem_Suc: "user_mem s a (Suc n) = the (vload s (of_nat a)) # user_mem s (Suc a) n"
proof -
  have "[0..<Suc n] = 0 # map Suc [0..<n]" by (simp add: upt_conv_Cons map_Suc_upt del: upt_Suc)
  then show ?thesis by (simp add: user_mem_def comp_def ac_simps del: upt_Suc)
qed

lemma fetch_scan_mapped:
  "(\<forall>k < n. vload s (of_nat (a + k)) \<noteq> None) \<Longrightarrow>
     fetch_scan n (of_nat a) acc s = Done (map_option (\<lambda>x. acc @ x) (string_in (user_mem s a n))) s"
proof (induction n arbitrary: a acc)
  case 0
  then show ?case by (simp add: string_in_def user_mem_def)
next
  case (Suc n)
  obtain c where c: "vload s (of_nat a) = Some c" using Suc.prems by fastforce
  have "\<forall>k < n. vload s (of_nat (Suc a + k)) \<noteq> None"
    using Suc.prems by (metis Suc_less_eq add_Suc_right add_Suc)
  then have "fetch_scan n (of_nat (Suc a)) (acc @ [c]) s = Done (map_option (\<lambda>x. (acc @ [c]) @ x) (string_in (user_mem s (Suc a) n))) s"
    by (rule Suc.IH)
  then show ?case using c by (auto simp: user_mem_Suc string_in_def add.commute)
qed

lemma current_calm: "calm s \<Longrightarrow> me s = Some i \<Longrightarrow> current s = Done i s"
  by (simp add: current_def myproc_calm)

lemma vload_bytes_mapped:
  "(\<forall>k < n. vload s (of_nat (a + k)) \<noteq> None) \<Longrightarrow> vload_bytes s (of_nat a) n = Some (user_mem s a n)"
proof (induction n arbitrary: a)
  case 0
  then show ?case by (simp add: user_mem_def)
next
  case (Suc n)
  obtain c where c: "vload s (of_nat a) = Some c" using Suc.prems by fastforce
  have "\<forall>k < n. vload s (of_nat (Suc a + k)) \<noteq> None"
    using Suc.prems by (metis Suc_less_eq add_Suc_right add_Suc)
  then have "vload_bytes s (of_nat (Suc a)) n = Some (user_mem s (Suc a) n)" by (rule Suc.IH)
  then show ?case using c by (simp add: user_mem_Suc add.commute)
qed

lemma mapped_range:
  assumes "pages_mapped i s" "b + n \<le> proc_size i s"
  shows "\<forall>k < n. vload s (of_nat (b + k)) \<noteq> None"
proof (intro allI impI)
  fix k assume "k < n"
  then have "b + k < proc_size i s" using assms(2) by linarith
  then show "vload s (of_nat (b + k)) \<noteq> None" using assms(1) unfolding pages_mapped_def by blast
qed

lemma fetchint_mapped:
  assumes "calm s" "me s = Some i" "pages_mapped i s"
  shows "\<exists>r. fetchint a s = Done r s"
proof (cases "a \<ge> p_sz (proc_at i s) \<or> a + 4 > p_sz (proc_at i s)")
  case True
  then show ?thesis using assms(1,2) by (simp add: fetchint_def current_calm Let_def)
next
  case False
  have sz: "proc_size i s \<le> 2 ^ 31" using assms(3) by (simp add: pages_mapped_def)
  have "unat a < proc_size i s" using False by (simp add: proc_size_def word_less_nat_alt word_le_nat_alt)
  then have "unat (a + 4) = unat a + 4" using sz by (subst unat_add_lem [THEN iffD1]) simp_all
  then have e: "unat a + 4 \<le> proc_size i s" using False by (simp add: proc_size_def word_le_nat_alt not_less)
  then have "vload_bytes s (of_nat (unat a)) 4 = Some (user_mem s (unat a) 4)"
    by (intro vload_bytes_mapped mapped_range [OF assms(3)])
  then show ?thesis using False assms(1,2) by (simp add: fetchint_def current_calm Let_def vload32_def)
qed

lemma argptr_mapped:
  assumes "calm s" "me s = Some i" "pages_mapped i s" "len < 2 ^ 31"
  shows "\<exists>r. argptr n len s = Done r s \<and> (\<forall>a. r = Some a \<longrightarrow> 0 \<le> len \<and> unat a + nat len \<le> proc_size i s)"
proof -
  obtain r where r: "argint n s = Done r s"
    using fetchint_mapped [OF assms(1-3)] assms(1,2) by (auto simp: argint_def current_calm)
  show ?thesis
  proof (cases r)
    case None
    then show ?thesis using r assms(1,2) by (simp add: argptr_def current_calm)
  next
    case (Some a)
    let ?sz = "p_sz (proc_at i s)"
    show ?thesis
    proof (cases "len < 0 \<or> a \<ge> ?sz \<or> a + of_int len > ?sz")
      case True
      then show ?thesis using r Some assms(1,2) by (simp add: argptr_def current_calm Let_def)
    next
      case False
      have sz: "proc_size i s \<le> 2 ^ 31" using assms(3) by (simp add: pages_mapped_def)
      have "unat a < proc_size i s" using False by (simp add: proc_size_def word_less_nat_alt word_le_nat_alt)
      moreover have u: "unat (of_int len :: uint) = nat len"
      proof -
        have "uint (of_int len :: uint) = len" using assms(4) False by (simp add: uint_word_of_int)
        then show ?thesis by (metis nat_uint_eq)
      qed
      ultimately have "unat (a + of_int len) = unat a + nat len"
        using sz assms(4) False by (subst unat_add_lem [THEN iffD1]) simp_all
      then have "unat a + nat len \<le> proc_size i s" using False by (simp add: proc_size_def word_le_nat_alt not_less)
      then show ?thesis using r Some False assms(1,2) by (simp add: argptr_def current_calm Let_def)
    qed
  qed
qed

lemma fetchstr_mapped:
  assumes "calm s" "me s = Some i" "pages_mapped i s"
  shows "fetchstr a s = Done (string_in (user_mem s (unat a) (proc_size i s - unat a))) s"
proof (cases "a \<ge> p_sz (proc_at i s)")
  case True
  then have "proc_size i s - unat a = 0" by (simp add: proc_size_def word_le_nat_alt)
  then show ?thesis using True assms(1,2) by (simp add: fetchstr_def current_calm Let_def string_in_def user_mem_def)
next
  case False
  then have "unat a + (proc_size i s - unat a) \<le> proc_size i s" by (simp add: proc_size_def word_le_nat_alt)
  then have "\<forall>k < proc_size i s - unat a. vload s (of_nat (unat a + k)) \<noteq> None" by (rule mapped_range [OF assms(3)])
  from fetch_scan_mapped [OF this, of "[]"] show ?thesis
    using False assms(1,2) by (simp add: fetchstr_def current_calm Let_def proc_size_def option.map_ident)
qed

text \<open>C13. A process whose pages are mapped cannot make the kernel fault on, or read or write beyond, the memory it passes to
  a system call: fetching an integer, a pointer or a string always returns; a pointer to a block that \<^verbatim>\<open>argptr\<close> accepts
  has the whole block below the size of the process; and \<^verbatim>\<open>fetchstr\<close> returns exactly the bytes up to the first NUL,
  provided there is one before the end of the process, and fails otherwise.\<close>

theorem arguments_stay_inside:
  assumes "calm s" "me s = Some i" "pages_mapped i s" "len < 2 ^ 31"
  shows "(\<exists>r. argint n s = Done r s) \<and>
    (\<exists>r. argptr n len s = Done r s \<and> (\<forall>a. r = Some a \<longrightarrow> 0 \<le> len \<and> unat a + nat len \<le> proc_size i s)) \<and>
    fetchstr a s = Done (string_in (user_mem s (unat a) (proc_size i s - unat a))) s"
proof -
  have "\<exists>r. argint n s = Done r s" using fetchint_mapped [OF assms(1-3)] assms(1,2) by (auto simp: argint_def current_calm)
  then show ?thesis using argptr_mapped [OF assms] fetchstr_mapped [OF assms(1-3)] by blast
qed

text \<open>A page table in which every entry is \<open>0x01010101\<close> maps all of memory to one page; the process has 16 bytes with
  a NUL at address 5.\<close>

definition one_page :: lifek where
  "one_page = zero_kern\<lparr>mem := (\<lambda>a. if a = 0x81010005 then 0 else 1), ptable := [zero_proc\<lparr>p_sz := 16\<rparr>]\<rparr>"

theorem arguments_stay_inside_witness:
  "fetchstr 2 (at_work 0 one_page) = Done (Some [1, 1, 1]) (at_work 0 one_page)"
proof -
  let ?s = "at_work 0 one_page"
  have m: "mem one_page = (\<lambda>a. if a = 0x81010005 then 0 else 1)" and c: "cr3 one_page = (\<lambda>_. 0)"
    by (simp_all add: one_page_def zero_kern_def)
  have v: "vload ?s (of_nat k) = Some (if k = 5 then 0 else 1)" if "k < 16" for k :: nat
  proof -
    have "k = 0 \<or> k = 1 \<or> k = 2 \<or> k = 3 \<or> k = 4 \<or> k = 5 \<or> k = 6 \<or> k = 7 \<or> k = 8 \<or> k = 9 \<or> k = 10 \<or> k = 11 \<or> k = 12 \<or>
        k = 13 \<or> k = 14 \<or> k = 15" using that by presburger
    then show ?thesis
      by (elim disjE) (simp_all add: vload_def vmap_def m c read32_def PDX_def PTX_def P2V_def KERNBASE_def PTE_ADDR_def PTE_P_def PDXSHIFT_def PTXSHIFT_def Let_def)
  qed
  have sz: "proc_size 0 ?s = 16" by (simp add: proc_size_def proc_at_def one_page_def)
  have p: "pages_mapped 0 ?s" unfolding pages_mapped_def sz using v by simp
  have "the (vload ?s (of_nat (2 + k))) = (if k = 3 then 0 else 1)" if "k < 14" for k
    using v [of "2 + k"] that by (simp del: of_nat_add)
  then have "user_mem ?s 2 14 = map (\<lambda>k. if k = 3 then 0 else 1) [0..<14]"
    unfolding user_mem_def by (intro map_cong refl) (simp del: of_nat_add)
  then have "string_in (user_mem ?s 2 14) = Some [1, 1, 1]" by (simp add: string_in_def upt_rec)
  then show ?thesis using arguments_stay_inside [OF at_work(1,2) p, of 0 0 2] by (simp add: sz)
qed

end
