(* ===== verification/Uprintf.thy ===== *)
theory Uprintf
  imports Memory
begin

text \<open>
  \<^verbatim>\<open>printf\<close> of the user programs (\<^verbatim>\<open>printf.c\<close>). The format and the arguments are in memory: \<^verbatim>\<open>ap\<close> is the address of the
  next argument on the stack. The result are the bytes it writes, one at a time, to its file descriptor; \<open>None\<close> is a run
  over a string without end. Decimal output is read back by \<^verbatim>\<open>atoi\<close> of the user library.
\<close>

section \<open>Numbers\<close>

definition udigits :: "uchar list" where
  "udigits = [48, 49, 50, 51, 52, 53, 54, 55, 56, 57, 65, 66, 67, 68, 69, 70]"

text \<open>The digits from the last to the first; \<^verbatim>\<open>buf\<close> has room for sixteen.\<close>

fun udigit_loop :: "nat \<Rightarrow> uint \<Rightarrow> uint \<Rightarrow> uchar list" where
  "udigit_loop 0 base x = []"
| "udigit_loop (Suc n) base x =
     udigits ! unat (x mod base) # (if x div base \<noteq> 0 then udigit_loop n base (x div base) else [])"

definition uprintint :: "uint \<Rightarrow> uint \<Rightarrow> bool \<Rightarrow> uchar list" where
  "uprintint xx base sg =
     (let neg = (sg \<and> sint xx < 0); x = (if neg then - xx else xx) in
      rev (udigit_loop 16 base x @ (if neg then [45] else [])))"

section \<open>Formats\<close>

partial_function (option) put_string :: "memory \<Rightarrow> addr \<Rightarrow> uchar list \<Rightarrow> uchar list option" where
  "put_string m s out = (if m s \<noteq> 0 then put_string m (s + 1) (out @ [m s]) else Some out)"

text \<open>One conversion after a \<^verbatim>\<open>%\<close>: where the next argument is and what has been written. The string for a null pointer is
  \<^verbatim>\<open>(null)\<close>. The codes: 37 is \<^verbatim>\<open>%\<close>, 100 is \<^verbatim>\<open>d\<close>, 120 \<^verbatim>\<open>x\<close>, 112 \<^verbatim>\<open>p\<close>, 115 \<^verbatim>\<open>s\<close>, 99 \<^verbatim>\<open>c\<close>.\<close>

definition convert :: "memory \<Rightarrow> uchar \<Rightarrow> addr \<Rightarrow> uchar list \<Rightarrow> (addr \<times> uchar list) option" where
  "convert m c ap out =
     (if c = 100 then Some (ap + 4, out @ uprintint (read32 m ap) 10 True)
      else if c = 120 \<or> c = 112 then Some (ap + 4, out @ uprintint (read32 m ap) 16 False)
      else if c = 115 then
        (if read32 m ap = 0 then Some (ap + 4, out @ [40, 110, 117, 108, 108, 41])
         else map_option (Pair (ap + 4)) (put_string m (read32 m ap) out))
      else if c = 99 then Some (ap + 4, out @ [ucast (read32 m ap)])
      else if c = 37 then Some (ap, out @ [c])
      else Some (ap, out @ [37, c]))"

partial_function (option) printf_loop :: "memory \<Rightarrow> addr \<Rightarrow> bool \<Rightarrow> addr \<Rightarrow> uchar list \<Rightarrow> uchar list option" where
  "printf_loop m fmt percent ap out =
     (if m fmt = 0 then Some out
      else if \<not> percent then
        (if m fmt = 37 then printf_loop m (fmt + 1) True ap out else printf_loop m (fmt + 1) False ap (out @ [m fmt]))
      else Option.bind (convert m (m fmt) ap out) (\<lambda>r. printf_loop m (fmt + 1) False (fst r) (snd r)))"

definition printf :: "memory \<Rightarrow> addr \<Rightarrow> addr \<Rightarrow> uchar list option" where
  "printf m fmt ap = printf_loop m fmt False ap []"

section \<open>Reading decimal numbers back\<close>

definition digit :: "uchar \<Rightarrow> bool" where
  "digit c \<longleftrightarrow> 48 \<le> sint c \<and> sint c \<le> 57"

definition add_digit :: "uint \<Rightarrow> uchar \<Rightarrow> uint" where
  "add_digit n c = n * 10 + of_int (sint c) - 48"

lemma atoi_from_digits:
  "list_all digit ds \<Longrightarrow> \<not> digit (m (a + of_nat (length ds))) \<Longrightarrow> \<forall>i < length ds. m (a + of_nat i) = ds ! i \<Longrightarrow>
     atoi_from m a n = Some (foldl add_digit n ds)"
proof (induction ds arbitrary: a n)
  case Nil
  then show ?case by (subst atoi_from.simps) (auto simp: digit_def)
next
  case (Cons d ds)
  have d: "m a = d" "digit d" using Cons.prems by (auto dest: spec [of _ 0])
  have "\<forall>i < length ds. m (a + 1 + of_nat i) = ds ! i"
  proof (intro allI impI)
    fix i assume "i < length ds"
    then show "m (a + 1 + of_nat i) = ds ! i" using Cons.prems(3) [rule_format, of "Suc i"] by (simp add: ac_simps)
  qed
  moreover have "\<not> digit (m (a + 1 + of_nat (length ds)))" using Cons.prems(2) by (simp add: ac_simps)
  ultimately have "atoi_from m (a + 1) (add_digit n d) = Some (foldl add_digit (add_digit n d) ds)"
    using Cons.IH Cons.prems(1) by simp
  then show ?case using d by (subst atoi_from.simps) (simp add: digit_def add_digit_def)
qed

lemma udigits_decimal:
  fixes x :: uint
  shows "digit (udigits ! unat (x mod 10)) \<and> of_int (sint (udigits ! unat (x mod 10))) - 48 = x mod 10"
proof -
  define k where "k = unat (x mod 10)"
  have "k < 10" unfolding k_def by (simp add: unat_mod)
  then have "k = 0 \<or> k = 1 \<or> k = 2 \<or> k = 3 \<or> k = 4 \<or> k = 5 \<or> k = 6 \<or> k = 7 \<or> k = 8 \<or> k = 9" by presburger
  then have "digit (udigits ! k) \<and> of_int (sint (udigits ! k)) - 48 = (of_nat k :: uint)"
    by (elim disjE) (simp_all add: udigits_def digit_def)
  then show ?thesis by (simp add: k_def)
qed

lemma udigit_loop_value:
  "unat x < 10 ^ n \<Longrightarrow> 0 < n \<Longrightarrow> list_all digit (udigit_loop n 10 x) \<and> foldl add_digit 0 (rev (udigit_loop n 10 x)) = x"
proof (induction n arbitrary: x)
  case (Suc n)
  have d: "digit (udigits ! unat (x mod 10))" "of_int (sint (udigits ! unat (x mod 10))) - 48 = x mod 10"
    using udigits_decimal by blast+
  have a: "add_digit y (udigits ! unat (x mod 10)) = y * 10 + x mod 10" for y
    using d(2) by (simp add: add_digit_def algebra_simps)
  show ?case
  proof (cases "x div 10 = 0")
    case True
    then have "x mod 10 = x" using div_mult_mod_eq [of x 10] by simp
    then show ?thesis using True d(1) a [of 0] by simp
  next
    case False
    have u: "unat (x div 10) = unat x div 10" by (simp add: unat_div)
    have "unat (x div 10) \<noteq> 0" using False by (simp add: unat_eq_zero)
    then have n: "0 < n" using Suc.prems(1) u by (cases n) simp_all
    have "unat (x div 10) < 10 ^ n" using Suc.prems(1) u by (simp add: less_mult_imp_div_less)
    from Suc.IH [OF this n] show ?thesis using False d(1) a div_mult_mod_eq [of x 10] by simp
  qed
qed simp

text \<open>C30. What \<^verbatim>\<open>printf("%d", x)\<close> writes for a number that is not negative, \<^verbatim>\<open>atoi\<close> reads back as that number, wherever the
  digits are stored with another character after them.\<close>

theorem printf_atoi:
  assumes "m fmt = 37" "m (fmt + 1) = 100" "m (fmt + 2) = 0" "0 \<le> sint (read32 m ap)"
  shows "\<exists>out. printf m fmt ap = Some out \<and>
    (\<forall>m' a. (\<forall>i < length out. m' (a + of_nat i) = out ! i) \<and> \<not> digit (m' (a + of_nat (length out))) \<longrightarrow> atoi m' a = Some (read32 m ap))"
proof -
  let ?x = "read32 m ap" let ?out = "uprintint ?x 10 True"
  have f: "fmt + 1 + 1 = fmt + 2" by simp
  have "printf m fmt ap = Some ?out"
    unfolding printf_def using assms(1-3) by (subst printf_loop.simps, subst printf_loop.simps, subst printf_loop.simps) (simp add: f convert_def)
  moreover have out: "?out = rev (udigit_loop 16 10 ?x)" using assms(4) by (simp add: uprintint_def)
  have "unat ?x < 10 ^ 16" by (rule order_less_le_trans [OF unat_lt]) simp
  then have v: "list_all digit ?out" "foldl add_digit 0 ?out = ?x"
    using udigit_loop_value [of ?x 16] unfolding out by simp_all
  have "atoi m' a = Some ?x" if "\<forall>i < length ?out. m' (a + of_nat i) = ?out ! i" "\<not> digit (m' (a + of_nat (length ?out)))" for m' a
    unfolding atoi_def using atoi_from_digits [OF v(1) that(2,1)] v(2) by simp
  ultimately show ?thesis by blast
qed

definition sample_mem :: memory where
  "sample_mem = (\<lambda>_. 0)(16 := 37, 17 := 100, 32 := 0x39, 33 := 0x30)"

theorem printf_atoi_witness:
  "printf sample_mem 16 32 = Some [49, 50, 51, 52, 53] \<and> atoi ((\<lambda>_. 0)(7 := 49, 8 := 50, 9 := 51, 10 := 52, 11 := 53)) 7 = Some 12345"
proof -
  have r: "read32 sample_mem 32 = 12345" by (simp add: read32_def sample_mem_def)
  have l: "udigit_loop 16 10 12345 = [53, 52, 51, 50, 49]" by code_simp
  have p: "printf sample_mem 16 32 = Some [49, 50, 51, 52, 53]"
    unfolding printf_def
    by (subst printf_loop.simps, subst printf_loop.simps, subst printf_loop.simps) (simp add: convert_def r uprintint_def l, simp add: sample_mem_def)
  let ?m = "(\<lambda>_. 0)(7 := 49, 8 := 50, 9 := 51, 10 := 52, 11 := 53) :: memory"
  have "\<forall>i < length [49, 50, 51, 52, 53 :: uchar]. ?m (7 + of_nat i) = [49, 50, 51, 52, 53] ! i" by (simp add: less_Suc_eq all_conj_distrib)
  moreover have "\<not> digit (?m (7 + of_nat (length [49, 50, 51, 52, 53 :: uchar])))" by (simp add: digit_def)
  ultimately have "atoi ?m 7 = Some 12345"
    using printf_atoi [of sample_mem 16 32] p r by (auto simp: sample_mem_def)
  then show ?thesis using p by simp
qed

end
