(* ===== verification/Kbd_Types.thy ===== *)
theory Kbd_Types
  imports Kbd
begin

unbundle bit_operations_syntax














end
