(* ===== verification/Mp.thy ===== *)
theory Mp
  imports Memory Mmu
begin

unbundle bit_operations_syntax

text \<open>
  Finding the processors (\<^verbatim>\<open>mp.c\<close>, \<^verbatim>\<open>mp.h\<close>): the search for the floating pointer structure, the checks of the
  configuration table and the walk over its entries, on the bytes the firmware left in memory. \<open>None\<close> is a loop that does
  not end, address 0 the null pointer. The entries of the table are read into the processor table in order; an entry of a kind the
  code does not know keeps \<^verbatim>\<open>mpinit\<close> in its loop.
\<close>

definition read16 :: "memory \<Rightarrow> addr \<Rightarrow> uint" where
  "read16 m a = push_bit 8 (ucast (m (a + 1))) OR ucast (m a)"

definition sizeof_mp :: uint where "sizeof_mp = 16"
definition sizeof_mpconf :: uint where "sizeof_mpconf = 44"
definition sizeof_mpproc :: uint where "sizeof_mpproc = 20"
definition sizeof_mpioapic :: uint where "sizeof_mpioapic = 8"

definition MPPROC :: uchar where "MPPROC = 0"
definition MPBUS :: uchar where "MPBUS = 1"
definition MPIOAPIC :: uchar where "MPIOAPIC = 2"
definition MPIOINTR :: uchar where "MPIOINTR = 3"
definition MPLINTR :: uchar where "MPLINTR = 4"

lemmas mp_defs = sizeof_mp_def sizeof_mpconf_def sizeof_mpproc_def sizeof_mpioapic_def
  MPPROC_def MPBUS_def MPIOAPIC_def MPIOINTR_def MPLINTR_def

section \<open>Search\<close>

definition mpsum :: "memory \<Rightarrow> addr \<Rightarrow> nat \<Rightarrow> uchar" where
  "mpsum m a len = sum_list (bytes m a len)"

text \<open>The signature \<^verbatim>\<open>_MP_\<close> is the bytes 95, 77, 80, 95; \<^verbatim>\<open>PCMP\<close> is 80, 67, 77, 80.\<close>

partial_function (option) mpsearch1_from :: "memory \<Rightarrow> addr \<Rightarrow> addr \<Rightarrow> addr option" where
  "mpsearch1_from m p e =
     (if \<not> p < e then Some 0
      else if bytes m p 4 = [95, 77, 80, 95] \<and> mpsum m p (unat sizeof_mp) = 0 then Some p
      else mpsearch1_from m (p + sizeof_mp) e)"

definition mpsearch1 :: "memory \<Rightarrow> uint \<Rightarrow> uint \<Rightarrow> addr option" where
  "mpsearch1 m a len = mpsearch1_from m (P2V a) (P2V a + len)"

definition mpsearch :: "memory \<Rightarrow> addr option" where
  "mpsearch m =
     (let bda = P2V 0x400; p = push_bit 4 (push_bit 8 (ucast (m (bda + 0x0F))) OR ucast (m (bda + 0x0E)))
      in if p \<noteq> 0 then Option.bind (mpsearch1 m p 1024) (\<lambda>mp. if mp \<noteq> 0 then Some mp else mpsearch1 m 0xF0000 0x10000)
         else let p = (push_bit 8 (ucast (m (bda + 0x14))) OR ucast (m (bda + 0x13))) * 1024
           in Option.bind (mpsearch1 m (p - 1024) 1024) (\<lambda>mp. if mp \<noteq> 0 then Some mp else mpsearch1 m 0xF0000 0x10000))"

text \<open>The fields of \<^verbatim>\<open>struct mp\<close> and \<^verbatim>\<open>struct mpconf\<close> are read at their offsets. The result is the pair of pointers.\<close>

definition mpconfig :: "memory \<Rightarrow> (addr \<times> addr) option option" where
  "mpconfig m = Option.bind (mpsearch m) (\<lambda>mp.
     if mp = 0 \<or> read32 m (mp + 4) = 0 then Some None
     else let conf = P2V (read32 m (mp + 4)) in
       if bytes m conf 4 \<noteq> [80, 67, 77, 80] then Some None
       else if m (conf + 6) \<noteq> 1 \<and> m (conf + 6) \<noteq> 4 then Some None
       else if mpsum m conf (unat (read16 m (conf + 4))) \<noteq> 0 then Some None
       else Some (Some (mp, conf)))"

section \<open>The table\<close>

text \<open>What \<^verbatim>\<open>mpinit\<close> sets: the ids in \<^verbatim>\<open>cpus\<close>, \<^verbatim>\<open>ncpu\<close>, \<^verbatim>\<open>ioapicid\<close>, \<^verbatim>\<open>lapic\<close>, and the bytes it writes to ports.\<close>

record mpstate =
  cpu_ids :: "uchar list"
  ncpu :: nat
  ioapicid :: uchar
  lapic :: addr
  ports :: "(nat \<times> uchar) list"

definition add_cpu :: "uchar \<Rightarrow> mpstate \<Rightarrow> mpstate" where
  "add_cpu i st = (if ncpu st < NCPU then st\<lparr>cpu_ids := (cpu_ids st)[ncpu st := i], ncpu := ncpu st + 1\<rparr> else st)"

partial_function (option) mp_entries :: "memory \<Rightarrow> addr \<Rightarrow> addr \<Rightarrow> bool \<Rightarrow> mpstate \<Rightarrow> (bool \<times> mpstate) option" where
  "mp_entries m p e ismp st =
     (if \<not> p < e then Some (ismp, st)
      else if m p = MPPROC then mp_entries m (p + sizeof_mpproc) e ismp (add_cpu (m (p + 1)) st)
      else if m p = MPIOAPIC then mp_entries m (p + sizeof_mpioapic) e ismp (st\<lparr>ioapicid := m (p + 1)\<rparr>)
      else if m p = MPBUS \<or> m p = MPIOINTR \<or> m p = MPLINTR then mp_entries m (p + 8) e ismp st
      else mp_entries m p e False st)"

text \<open>\<open>imcr\<close> is the byte the port 0x23 gives.\<close>

definition mpinit :: "uchar \<Rightarrow> memory \<Rightarrow> mpstate \<Rightarrow> (mpstate, unit) outcome option" where
  "mpinit imcr m st = Option.bind (mpconfig m) (\<lambda>c. case c of
     None \<Rightarrow> Some (Panic ''Expect to run on an SMP'')
   | Some (mp, conf) \<Rightarrow>
     let st = st\<lparr>lapic := read32 m (conf + 36)\<rparr> in
     Option.bind (mp_entries m (conf + sizeof_mpconf) (conf + read16 m (conf + 4)) True st) (\<lambda>(ismp, st).
       if \<not> ismp then Some (Panic ''Didn't find a suitable machine'')
       else if m (mp + 12) \<noteq> 0 then Some (Done () (st\<lparr>ports := ports st @ [(0x22, 0x70), (0x23, imcr OR 1)]\<rparr>))
       else Some (Done () st)))"

section \<open>What the walk finds\<close>

text \<open>The entries as the specification of the tables describes them, and a table that consists of them.\<close>

datatype entry = Cpu uchar | Ioapic uchar | Other uchar

fun entry_size :: "entry \<Rightarrow> nat" where
  "entry_size (Cpu _) = 20"
| "entry_size _ = 8"

fun entry_at :: "memory \<Rightarrow> addr \<Rightarrow> entry \<Rightarrow> bool" where
  "entry_at m p (Cpu i) \<longleftrightarrow> m p = 0 \<and> m (p + 1) = i"
| "entry_at m p (Ioapic i) \<longleftrightarrow> m p = 2 \<and> m (p + 1) = i"
| "entry_at m p (Other k) \<longleftrightarrow> m p = k \<and> k \<in> {1, 3, 4}"

fun table_at :: "memory \<Rightarrow> addr \<Rightarrow> entry list \<Rightarrow> bool" where
  "table_at m p [] = True"
| "table_at m p (x # xs) \<longleftrightarrow> entry_at m p x \<and> table_at m (p + of_nat (entry_size x)) xs"

definition table_size :: "entry list \<Rightarrow> nat" where
  "table_size xs = sum_list (map entry_size xs)"

fun cpus_of :: "entry list \<Rightarrow> uchar list" where
  "cpus_of [] = []"
| "cpus_of (Cpu i # xs) = i # cpus_of xs"
| "cpus_of (_ # xs) = cpus_of xs"

fun ioapics_of :: "entry list \<Rightarrow> uchar list" where
  "ioapics_of [] = []"
| "ioapics_of (Ioapic i # xs) = i # ioapics_of xs"
| "ioapics_of (_ # xs) = ioapics_of xs"

fun take_entry :: "entry \<Rightarrow> mpstate \<Rightarrow> mpstate" where
  "take_entry (Cpu i) st = add_cpu i st"
| "take_entry (Ioapic i) st = st\<lparr>ioapicid := i\<rparr>"
| "take_entry (Other _) st = st"

lemma mp_entries_step:
  "entry_at m p x \<Longrightarrow> p < e \<Longrightarrow> mp_entries m p e ismp st = mp_entries m (p + of_nat (entry_size x)) e ismp (take_entry x st)"
  by (subst mp_entries.simps) (cases x; auto simp: mp_defs)

lemma mp_entries_skip:
  "table_at m p xs \<Longrightarrow> unat p + table_size xs \<le> unat e \<Longrightarrow>
     mp_entries m p e ismp st = mp_entries m (p + of_nat (table_size xs)) e ismp (fold take_entry xs st)"
proof (induction xs arbitrary: p st)
  case (Cons x xs)
  let ?q = "p + of_nat (entry_size x)"
  have sz: "0 < entry_size x" "unat (of_nat (entry_size x) :: addr) = entry_size x" by (cases x; simp)+
  have e: "unat p + entry_size x + table_size xs \<le> unat e" using Cons.prems(2) by (simp add: table_size_def)
  moreover have "unat e < 2 ^ 32" using unat_lt [of e] by simp
  ultimately have "unat ?q = unat p + entry_size x" using sz(2) by (simp add: unat_word_ariths)
  then have "mp_entries m ?q e ismp (take_entry x st) =
      mp_entries m (?q + of_nat (table_size xs)) e ismp (fold take_entry (x # xs) st)"
    using Cons.IH Cons.prems(1) e by simp
  moreover have "p < e" using e sz(1) by (simp add: word_less_nat_alt)
  ultimately show ?case using mp_entries_step [of m p x e ismp st] Cons.prems(1) by (simp add: table_size_def ac_simps)
qed (simp add: table_size_def)

lemma mp_entries_table:
  assumes "table_at m p xs" "unat p + table_size xs = unat e"
  shows "mp_entries m p e ismp st = Some (ismp, fold take_entry xs st)"
proof -
  have "p + of_nat (table_size xs) = e" using assms(2) by (metis of_nat_add of_nat_unat ucast_id)
  then show ?thesis
    using mp_entries_skip [OF assms(1), of e] assms(2) mp_entries.simps [of m e e ismp "fold take_entry xs st"] by simp
qed

definition found :: "mpstate \<Rightarrow> uchar list" where
  "found st = take (ncpu st) (cpu_ids st)"

definition cpus_ok :: "mpstate \<Rightarrow> bool" where
  "cpus_ok st \<longleftrightarrow> length (cpu_ids st) = NCPU \<and> ncpu st \<le> NCPU"

lemma add_cpu_found:
  "cpus_ok st \<Longrightarrow> cpus_ok (add_cpu i st) \<and> found (add_cpu i st) = take NCPU (found st @ [i])"
  by (auto simp: cpus_ok_def found_def add_cpu_def take_Suc_conv_app_nth min_def)

lemma take_cut: "take n (take n xs @ ys) = take n (xs @ ys)"
  by (cases "length xs \<le> n") simp_all

lemma entries_found:
  "cpus_ok st \<Longrightarrow> cpus_ok (fold take_entry xs st) \<and> found (fold take_entry xs st) = take NCPU (found st @ cpus_of xs) \<and>
     lapic (fold take_entry xs st) = lapic st \<and> ports (fold take_entry xs st) = ports st \<and>
     ioapicid (fold take_entry xs st) = last (ioapicid st # ioapics_of xs)"
proof (induction xs arbitrary: st)
  case Nil
  then show ?case by (simp add: cpus_ok_def found_def)
next
  case (Cons x xs)
  have other: "cpus_ok (st\<lparr>ioapicid := i\<rparr>)" "found (st\<lparr>ioapicid := i\<rparr>) = found st" for i
    using Cons.prems by (simp_all add: cpus_ok_def found_def)
  have rest: "lapic (add_cpu i st) = lapic st" "ports (add_cpu i st) = ports st" "ioapicid (add_cpu i st) = ioapicid st" for i
    by (simp_all add: add_cpu_def)
  have cut: "take NCPU (take NCPU (found st @ [i]) @ is) = take NCPU (found st @ i # is)" for i "is"
    using take_cut [of NCPU "found st @ [i]"] by simp
  show ?case
    using Cons.IH [of "take_entry x st"] add_cpu_found [OF Cons.prems] other Cons.prems rest cut by (cases x) simp_all
qed

lemma mp_entries_stuck:
  assumes "p < e" "m p \<notin> {0, 1, 2, 3, 4}"
  shows "mp_entries m p e ismp st = None"
proof (rule ccontr)
  assume "mp_entries m p e ismp st \<noteq> None"
  then obtain r where r: "mp_entries m p e ismp st = Some r" by blast
  have "\<not> (p < e \<and> m p \<notin> {0, 1, 2, 3, 4})"
    by (rule mp_entries.raw_induct [where P = "\<lambda>m p e _ _ _. \<not> (p < e \<and> m p \<notin> {0, 1, 2, 3, 4})", OF _ r])
      (auto simp: mp_defs split: if_splits, blast)
  then show False using assms by simp
qed

text \<open>C29. When the configuration table consists of processor, I/O controller and other entries, \<^verbatim>\<open>mpinit\<close> ends and has
  entered the ids of the processors in the order of the table, up to \<^verbatim>\<open>NCPU\<close> of them, the last I/O controller and the
  address of the local controllers.\<close>

theorem mpinit_finds_cpus:
  assumes "mpconfig m = Some (Some (mp, conf))" "table_at m (conf + sizeof_mpconf) xs"
    "unat (read16 m (conf + 4)) = unat sizeof_mpconf + table_size xs" "unat conf + unat (read16 m (conf + 4)) < 2 ^ 32"
    "length (cpu_ids st) = NCPU" "ncpu st = 0"
  shows "\<exists>st'. mpinit imcr m st = Some (Done () st') \<and> length (cpu_ids st') = NCPU \<and> ncpu st' \<le> NCPU \<and>
    take (ncpu st') (cpu_ids st') = take NCPU (cpus_of xs) \<and> ioapicid st' = last (ioapicid st # ioapics_of xs) \<and>
    lapic st' = read32 m (conf + 36)"
proof -
  let ?st = "st\<lparr>lapic := read32 m (conf + 36)\<rparr>" let ?r = "fold take_entry xs (st\<lparr>lapic := read32 m (conf + 36)\<rparr>)"
  have "unat (conf + sizeof_mpconf) = unat conf + unat sizeof_mpconf" "unat (conf + read16 m (conf + 4)) = unat conf + unat (read16 m (conf + 4))"
    using assms(3,4) by (simp_all add: unat_word_ariths)
  then have "mp_entries m (conf + sizeof_mpconf) (conf + read16 m (conf + 4)) True ?st = Some (True, ?r)"
    using assms(2,3) by (intro mp_entries_table) simp_all
  moreover have "cpus_ok ?st" "found ?st = []" using assms(5,6) by (simp_all add: cpus_ok_def found_def)
  moreover note entries_found [OF this(1), of xs]
  ultimately show ?thesis using assms(1,6) by (simp add: mpinit_def Let_def cpus_ok_def found_def)
qed

text \<open>
  Firmware tables for the witnesses: the floating pointer at 0x90000, found through the word at 0x40E; the configuration table at
  0x90010 with processors 0 and 3, an I/O controller and a fourth entry of kind \<open>k\<close>; \<open>c\<close> makes the checksum zero.
\<close>

definition image :: "uchar \<Rightarrow> uchar \<Rightarrow> uchar list" where
  "image k c =
     [95, 77, 80, 95, 0x10, 0, 9, 0, 1, 4, 0x87, 0, 0, 0, 0, 0,
      80, 67, 77, 80, 100, 0, 4, c] @ replicate 28 0 @ [0, 0, 0xE0, 0xFE, 0, 0, 0, 0] @
     (0 # 0 # replicate 18 0) @ (0 # 3 # replicate 18 0) @ (2 # 7 # replicate 6 0) @ (k # replicate 7 0)"

definition firmware :: "uchar \<Rightarrow> uchar \<Rightarrow> memory" where
  "firmware k c a =
     (let i = unat (a - 0x80090000) in if i < length (image k c) then image k c ! i else if a = 0x8000040F then 0x90 else 0)"

definition boot_state :: mpstate where
  "boot_state = \<lparr>cpu_ids = replicate NCPU 0, ncpu = 0, ioapicid = 0, lapic = 0, ports = []\<rparr>"

lemma image_length: "length (image k c) = 116" by (simp add: image_def)

lemma firmware_at: "i < 116 \<Longrightarrow> firmware k c (0x80090000 + of_nat i) = image k c ! i"
  by (simp add: firmware_def image_length unat_of_nat)

lemma firmware_bytes:
  assumes "off + n \<le> 116"
  shows "bytes (firmware k c) (0x80090000 + of_nat off) n = take n (drop off (image k c))"
proof (rule nth_equalityI)
  fix i assume i: "i < length (bytes (firmware k c) (0x80090000 + of_nat off) n)"
  then have "bytes (firmware k c) (0x80090000 + of_nat off) n ! i = firmware k c (0x80090000 + of_nat (off + i))"
    by (simp add: bytes_def add.assoc)
  also have "\<dots> = image k c ! (off + i)" using i assms by (intro firmware_at) simp
  finally show "bytes (firmware k c) (0x80090000 + of_nat off) n ! i = take n (drop off (image k c)) ! i"
    using i assms by (simp add: image_length)
qed (use assms in \<open>simp add: image_length\<close>)

lemma firmware_search: "mpsearch (firmware k c) = Some 0x80090000"
proof -
  have "bytes (firmware k c) 0x80090000 4 = [95, 77, 80, 95]" "mpsum (firmware k c) 0x80090000 16 = 0"
    using firmware_bytes [of 0 4 k c] firmware_bytes [of 0 16 k c] by (simp_all add: mpsum_def image_def)
  then have "mpsearch1 (firmware k c) 0x90000 1024 = Some 0x80090000"
    unfolding mpsearch1_def by (subst mpsearch1_from.simps) (simp add: P2V_def KERNBASE_def mp_defs)
  moreover have "firmware k c 0x8000040F = 0x90" "firmware k c 0x8000040E = 0" by (simp_all add: firmware_def image_length)
  ultimately show ?thesis by (simp add: mpsearch_def P2V_def KERNBASE_def Let_def)
qed

lemma firmware_words:
  "read32 (firmware k c) 0x80090004 = 0x90010" "read16 (firmware k c) 0x80090014 = 100" "firmware k c 0x80090016 = 4"
  using firmware_at [of 4 k c] firmware_at [of 5 k c] firmware_at [of 6 k c] firmware_at [of 7 k c]
    firmware_at [of 20 k c] firmware_at [of 21 k c] firmware_at [of 22 k c]
  by (simp_all add: read32_def read16_def image_def)

lemma firmware_config:
  assumes "sum_list (drop 16 (image k c)) = 0"
  shows "mpconfig (firmware k c) = Some (Some (0x80090000, 0x80090010))"
proof -
  have "bytes (firmware k c) 0x80090010 4 = [80, 67, 77, 80]" using firmware_bytes [of 16 4 k c] by (simp add: image_def)
  moreover have "bytes (firmware k c) 0x80090010 100 = drop 16 (image k c)"
    using firmware_bytes [of 16 100 k c] by (simp add: image_length)
  ultimately show ?thesis
    using assms by (simp add: mpconfig_def firmware_search firmware_words mpsum_def P2V_def KERNBASE_def Let_def)
qed

lemma firmware_sum: "sum_list (drop 16 (image 1 125)) = 0" "sum_list (drop 16 (image 9 117)) = 0"
  by (simp_all add: image_def sum_list_replicate)

lemma firmware_table: "table_at (firmware k c) (0x80090010 + sizeof_mpconf) [Cpu 0, Cpu 3, Ioapic 7]" "firmware k c 0x8009006C = k"
  using firmware_at [of 60 k c] firmware_at [of 61 k c] firmware_at [of 80 k c] firmware_at [of 81 k c]
    firmware_at [of 100 k c] firmware_at [of 101 k c] firmware_at [of 108 k c]
  by (simp_all add: mp_defs image_def nth_append)

theorem mpinit_finds_cpus_witness:
  "\<exists>st. mpinit 0 (firmware 1 125) boot_state = Some (Done () st) \<and> take (ncpu st) (cpu_ids st) = [0, 3] \<and> ioapicid st = 7"
proof -
  have t: "table_at (firmware 1 125) (0x80090010 + sizeof_mpconf) [Cpu 0, Cpu 3, Ioapic 7, Other 1]"
    using firmware_table [of 1 125] by (simp add: mp_defs)
  show ?thesis
    using mpinit_finds_cpus [OF firmware_config [OF firmware_sum(1)] t, where st = boot_state and imcr = 0] firmware_words(2) [of 1 125]
    by (auto simp: boot_state_def table_size_def mp_defs NCPU_def)
qed

text \<open>An entry of any other kind keeps \<^verbatim>\<open>mpinit\<close> in its loop for ever: the \<^verbatim>\<open>break\<close> of its default case leaves the
  \<^verbatim>\<open>switch\<close> and not the loop, and the pointer does not move. The panic for an unsuitable machine is never reached.\<close>

lemma mpinit_unknown_entry:
  assumes "mpconfig m = Some (Some (mp, conf))" "table_at m (conf + sizeof_mpconf) xs" "p = conf + sizeof_mpconf + of_nat (table_size xs)"
    "m p \<notin> {0, 1, 2, 3, 4}" "unat sizeof_mpconf + table_size xs < unat (read16 m (conf + 4))" "unat conf + unat (read16 m (conf + 4)) < 2 ^ 32"
  shows "mpinit imcr m st = None"
proof -
  let ?e = "conf + read16 m (conf + 4)" let ?r = "fold take_entry xs (st\<lparr>lapic := read32 m (conf + 36)\<rparr>)"
  have u: "unat (conf + sizeof_mpconf) = unat conf + unat sizeof_mpconf" "unat ?e = unat conf + unat (read16 m (conf + 4))"
    using assms(5,6) by (simp_all add: unat_word_ariths)
  have "unat p = unat conf + unat sizeof_mpconf + table_size xs"
    unfolding assms(3) using assms(5,6) u(1) by (simp add: unat_word_ariths unat_of_nat)
  then have "p < ?e" using assms(5) u(2) by (simp add: word_less_nat_alt)
  then have "mp_entries m p ?e True ?r = None" using assms(4) by (rule mp_entries_stuck)
  then have "mp_entries m (conf + sizeof_mpconf) ?e True (st\<lparr>lapic := read32 m (conf + 36)\<rparr>) = None"
    using mp_entries_skip [OF assms(2), of ?e] assms(3,5) u by simp
  then show ?thesis using assms(1) by (simp add: mpinit_def Let_def)
qed

lemma mpinit_unknown_entry_sample: "mpinit 0 (firmware 9 117) boot_state = None"
  using mpinit_unknown_entry [OF firmware_config [OF firmware_sum(2)] firmware_table(1), where p = "0x8009006C" and st = boot_state and imcr = 0]
    firmware_words(2) [of 9 117] firmware_table(2) [of 9 117]
  by (simp add: table_size_def mp_defs)

end
