(* ===== verification/Text_Tools.thy ===== *)
theory Text_Tools
  imports Grep
begin

text \<open>
  Programs that read characters and count: \<^verbatim>\<open>wc.c\<close> of xv6 and the exercises \<^verbatim>\<open>palabras.c\<close>, \<^verbatim>\<open>sum.c\<close> and \<^verbatim>\<open>histograma.c\<close> of the
  first laboratory.
\<close>

section \<open>wc\<close>


definition wc_white :: string where
  "wc_white = [CHR 0x20, CHR 0x0D, CHR 0x09, CHR 0x0A, CHR 0x0B]"








text \<open>The words of a text: the maximal runs of characters that are not white.\<close>

function words :: "string \<Rightarrow> string list" where
  "words tx =
     (let s = dropWhile (in_str wc_white) tx in
      if s = [] then [] else takeWhile (\<lambda>c. \<not> in_str wc_white c) s # words (dropWhile (\<lambda>c. \<not> in_str wc_white c) s))"
  by pat_completeness auto
termination
proof (relation "measure length", goal_cases)
  case (2 tx s)
  then obtain c t where s: "s = c # t" "\<not> in_str wc_white c" by (metis hd_dropWhile list.exhaust_sel)
  have "length (dropWhile (\<lambda>c. \<not> in_str wc_white c) s) < length s"
    using s by (simp add: length_dropWhile_le le_imp_less_Suc)
  also have "length s \<le> length tx" unfolding 2(1) by (rule length_dropWhile_le)
  finally show ?case by simp
qed simp

declare words.simps [simp del]

lemma words_Nil [simp]: "words [] = []"
  by (subst words.simps) simp






section \<open>The exercises of the first laboratory\<close>

text \<open>\<^verbatim>\<open>palabras.c\<close> writes one word on a line.\<close>

definition palabras :: "string \<Rightarrow> string" where
  "palabras tx = map (\<lambda>c. if c = CHR '' '' then CHR 0x0A else c) tx"

text \<open>\<^verbatim>\<open>sum.c\<close>: the loop runs over all of \<^verbatim>\<open>argv\<close>, its first element included. \<open>atoi\<close> is the routine of the C library.\<close>

definition suma :: "(string \<Rightarrow> int) \<Rightarrow> string list \<Rightarrow> int" where
  "suma atoi argv = foldl (\<lambda>sumaTotal a. sumaTotal + atoi a) 0 argv"

lemma suma_adds_program_name: "suma atoi (prog # args) = atoi prog + sum_list (map atoi args)"
proof -
  have "foldl (\<lambda>t a. t + atoi a) k xs = k + sum_list (map atoi xs)" for k xs
    by (induction xs arbitrary: k) simp_all
  then show ?thesis by (simp add: suma_def)
qed

text \<open>
  \<^verbatim>\<open>histograma.c\<close>: an access outside the array \<^verbatim>\<open>cantidad\<close> is \<open>Overrun\<close>; the longest word
  has \<open>maxl\<close> letters, 20 in the program.
\<close>

datatype hist = Overrun | Too_long | Histogram "(nat \<times> int) list"

definition poner :: "int list \<Rightarrow> nat \<Rightarrow> int \<Rightarrow> int list option" where
  "poner cantidad i v = (if i < length cantidad then Some (cantidad[i := v]) else None)"

fun hist_clear :: "nat list \<Rightarrow> int list \<Rightarrow> int list option" where
  "hist_clear [] cantidad = Some cantidad"
| "hist_clear (i # is) cantidad = Option.bind (poner cantidad i 0) (hist_clear is)"

fun hist_read :: "nat \<Rightarrow> string \<Rightarrow> nat \<Rightarrow> int list \<Rightarrow> (int list, hist) sum" where
  "hist_read maxl [] auxLength cantidad = Inl cantidad"
| "hist_read maxl (c # cs) auxLength cantidad =
     (if c = CHR '' '' \<or> c = CHR 0x0A then
        if auxLength < length cantidad
        then hist_read maxl cs 0 (cantidad[auxLength := cantidad ! auxLength + 1]) else Inr Overrun
      else if auxLength + 1 > maxl then Inr Too_long else hist_read maxl cs (auxLength + 1) cantidad)"

definition hist_longest :: "nat \<Rightarrow> int list \<Rightarrow> nat" where
  "hist_longest maxl cantidad = foldl (\<lambda>k i. if cantidad ! i > 0 then i else k) 0 [0..<maxl]"

definition histograma :: "nat \<Rightarrow> int list \<Rightarrow> string \<Rightarrow> hist" where
  "histograma maxl cantidad tx =
     (case hist_clear [0..<maxl + 1] cantidad of
        None \<Rightarrow> Overrun
      | Some cantidad \<Rightarrow> (case hist_read maxl tx 0 cantidad of
          Inr r \<Rightarrow> r
        | Inl cantidad \<Rightarrow> Histogram (map (\<lambda>i. (i, cantidad ! i)) [1..<hist_longest maxl cantidad + 1])))"

text \<open>With the array the program declares, of as many elements as the longest word has letters, clearing it already writes behind it.\<close>

lemma hist_clear_overruns: "length cantidad \<in> set is \<Longrightarrow> hist_clear is cantidad = None"
proof (induction "is" arbitrary: cantidad)
  case (Cons i "is")
  then show ?case by (cases "i = length cantidad") (auto simp: poner_def)
qed simp

lemma histograma_overruns: "length cantidad = 20 \<Longrightarrow> histograma 20 cantidad tx = Overrun"
  using hist_clear_overruns [of cantidad "[0..<20 + 1]"] by (simp add: histograma_def)

end
