(* ===== verification/Canvas.thy ===== *)
theory Canvas
  imports Xv6_Prelude
begin

text \<open>
  The shared blackboard of laboratory 5 (\<^verbatim>\<open>canvas.c\<close>): named regions of shared memory with 25 rows of 25 characters. The store
  of regions maps a name to its characters; the commands are those of \<^verbatim>\<open>main\<close>, after the arguments have been read.
  \<^verbatim>\<open>shm_open\<close> fails on a name that has no region; \<^verbatim>\<open>mmap\<close> is taken to succeed.
\<close>

definition HEIGHT :: nat where "HEIGHT = 25"
definition WIDTH :: nat where "WIDTH = 25"

type_synonym regions = "string \<rightharpoonup> string"

datatype canvas_result = Done_canvas | Printed string | No_region | Out_of_range | Unknown_direction

fun put_row :: "string \<Rightarrow> nat \<Rightarrow> nat \<Rightarrow> string \<Rightarrow> string" where
  "put_row cv x y [] = cv"
| "put_row cv x y (c # msg) = put_row (cv[x * WIDTH + y := c]) x (y + 1) msg"

fun put_column :: "string \<Rightarrow> nat \<Rightarrow> nat \<Rightarrow> string \<Rightarrow> string" where
  "put_column cv x y [] = cv"
| "put_column cv x y (c # msg) = put_column (cv[x * WIDTH + y := c]) (x + 1) y msg"

definition canvas_w :: "string \<Rightarrow> string \<Rightarrow> int \<Rightarrow> int \<Rightarrow> char \<Rightarrow> regions \<Rightarrow> canvas_result \<times> regions" where
  "canvas_w name msg x y dir shm =
     (case shm name of
        None \<Rightarrow> (No_region, shm)
      | Some cv \<Rightarrow>
        if dir = CHR ''h'' then
          if x \<ge> 0 \<and> x < int HEIGHT \<and> y \<ge> 0 \<and> y + int (length msg) \<le> int WIDTH
          then (Done_canvas, shm(name \<mapsto> put_row cv (nat x) (nat y) msg)) else (Out_of_range, shm)
        else if dir = CHR ''v'' then
          if x \<ge> 0 \<and> x + int (length msg) < int HEIGHT \<and> y \<ge> 0 \<and> y < int WIDTH
          then (Done_canvas, shm(name \<mapsto> put_column cv (nat x) (nat y) msg)) else (Out_of_range, shm)
        else (Unknown_direction, shm))"

definition canvas_p :: "string \<Rightarrow> regions \<Rightarrow> canvas_result \<times> regions" where
  "canvas_p name shm =
     (case shm name of
        None \<Rightarrow> (No_region, shm)
      | Some cv \<Rightarrow> (Printed (concat (map (\<lambda>i. map (\<lambda>j. cv ! (i * WIDTH + j)) [0..<WIDTH] @ [CHR 0x0A]) [0..<HEIGHT])), shm))"


definition canvas_d :: "string \<Rightarrow> regions \<Rightarrow> canvas_result \<times> regions" where
  "canvas_d name shm = (if shm name = None then (No_region, shm) else (Done_canvas, shm(name := None)))"

section \<open>What a write changes\<close>





lemma put_row_length [simp]: "length (put_row cv x y msg) = length cv"
  by (induction msg arbitrary: cv y) simp_all

lemma put_column_length [simp]: "length (put_column cv x y msg) = length cv"
  by (induction msg arbitrary: cv x) simp_all










text \<open>The test for a column asks for one row more than it needs: a message that ends in the last row is refused.\<close>

lemma column_last_row_refused:
  "shm name = Some cv \<Longrightarrow> x + int (length msg) = int HEIGHT \<Longrightarrow> canvas_w name msg x y (CHR ''v'') shm = (Out_of_range, shm)"
  by (simp add: canvas_w_def)

end
