(* ===== verification/Wordheap.thy ===== *)
theory Wordheap
  imports Xv6_Prelude
begin










section \<open>The invariant\<close>


















end
