(* ===== verification/Lab_Shell.thy ===== *)
theory Lab_Shell
  imports Shell
begin

text \<open>
  The shell of laboratory 2 (\<^verbatim>\<open>lab-02/sh.c\<close>), a smaller relative of the shell of xv6: commands, redirections and pipes, with the words
  copied out of the line. White space, \<^verbatim>\<open>peek\<close> and the results of parsing are those of \<^verbatim>\<open>Shell\<close>, whose code they repeat; a call of
  \<^verbatim>\<open>exit(-1)\<close> is \<open>Failed\<close>. What \<^verbatim>\<open>runcmd\<close> does is the sequence of its system calls.
\<close>

definition l2_symbols :: string where
  "l2_symbols = ''<|>''"

datatype l2_mode = L2_RDONLY | L2_WRONLY_CREAT_TRUNC

datatype l2_cmd =
    L2_EXEC "string list"
  | L2_REDIR l2_cmd string l2_mode nat
  | L2_PIPE l2_cmd l2_cmd

definition l2_redircmd :: "l2_cmd \<Rightarrow> string \<Rightarrow> char \<Rightarrow> l2_cmd" where
  "l2_redircmd subcmd file type =
     L2_REDIR subcmd file (if type = CHR ''<'' then L2_RDONLY else L2_WRONLY_CREAT_TRUNC) (if type = CHR ''<'' then 0 else 1)"

text \<open>The text between two pointers into the line.\<close>

definition mkcopy :: "string \<Rightarrow> string \<Rightarrow> string" where
  "mkcopy s es = take (length s - length es) s"

definition l2_gettoken :: "string \<Rightarrow> char \<times> string \<times> string \<times> string" where
  "l2_gettoken ps =
     (let s = skip_white ps; q = s; c = chr_at s 0;
          (ret, s) =
            (if c = NUL then (c, s)
             else if c = CHR ''|'' \<or> c = CHR ''<'' \<or> c = CHR ''>'' then (c, drop 1 s)
             else (CHR ''a'', dropWhile (\<lambda>c. \<not> in_str whitespace c \<and> \<not> in_str l2_symbols c) s))
      in (ret, q, s, skip_white s))"

lemma l2_gettoken_length: "l2_gettoken ps = (ret, q, eq, ps') \<Longrightarrow> length ps' \<le> length ps"
  using skip_white_length [of ps] skip_white_length [of eq] length_dropWhile_le [of "\<lambda>c. \<not> in_str whitespace c \<and> \<not> in_str l2_symbols c" "skip_white ps"]
  by (auto simp: l2_gettoken_def Let_def split: if_splits)

lemma l2_gettoken_progress:
  assumes g: "l2_gettoken ps = (ret, q, eq, ps')" and n: "ret \<noteq> NUL"
  shows "length ps' < length ps"
proof -
  obtain c r where c: "skip_white ps = c # r" using n g by (cases "skip_white ps") (auto simp: l2_gettoken_def)
  have "in_str l2_symbols c \<Longrightarrow> c = CHR ''|'' \<or> c = CHR ''<'' \<or> c = CHR ''>''" by (auto simp: in_str_def l2_symbols_def)
  then have "length eq \<le> length r" using g n skip_white_hd [OF c]
    by (auto simp: l2_gettoken_def c Let_def length_dropWhile_le split: if_splits)
  moreover have "ps' = skip_white eq" using g by (auto simp: l2_gettoken_def Let_def split: if_splits)
  ultimately show ?thesis using skip_white_length [of eq] skip_white_length [of ps] c by simp
qed

lemma l2_peek_length: "peek ps toks = (b, ps') \<Longrightarrow> length ps' \<le> length ps"
  using skip_white_length [of ps] by (auto simp: peek_def Let_def)

function l2_parseredirs :: "l2_cmd \<Rightarrow> string \<Rightarrow> l2_cmd parsed" where
  "l2_parseredirs cmd ps =
     (let (more, ps) = peek ps ''<>'' in
      if more then
        let (tok, _, _, ps) = l2_gettoken ps; (tok1, q, eq, ps) = l2_gettoken ps in
        if tok1 \<noteq> CHR ''a'' then Failed ''missing file for redirection''
        else l2_parseredirs
          (if tok = CHR ''<'' then l2_redircmd cmd (mkcopy q eq) (CHR ''<'')
           else if tok = CHR ''>'' then l2_redircmd cmd (mkcopy q eq) (CHR ''>'')
           else cmd) ps
      else Parsed cmd ps)"
  by pat_completeness auto
termination
proof (relation "measure (\<lambda>(cmd, ps). length ps)", goal_cases)
  case (2 cmd ps x more ps1 y tok y1 q1 y2 eq1 ps2 z tok1 z1 q z2 eq ps3)
  then have "tok1 \<noteq> NUL" by (auto simp: NUL_def)
  then have "length ps3 < length ps2" using 2 l2_gettoken_progress by metis
  moreover have "length ps2 \<le> length ps1" "length ps1 \<le> length ps" using 2 l2_gettoken_length l2_peek_length by (metis, metis)
  ultimately show ?case by simp
qed simp

fun l2_add_arg :: "string \<Rightarrow> l2_cmd \<Rightarrow> l2_cmd" where
  "l2_add_arg w (L2_EXEC argv) = L2_EXEC (argv @ [w])"
| "l2_add_arg w (L2_REDIR c f m d) = L2_REDIR (l2_add_arg w c) f m d"
| "l2_add_arg w (L2_PIPE a b) = L2_PIPE a b"

declare l2_parseredirs.simps [simp del]

lemma l2_parseredirs_step:
  "l2_parseredirs cmd ps =
     (if fst (peek ps ''<>'') then
        let g1 = l2_gettoken (snd (peek ps ''<>'')); g2 = l2_gettoken (snd (snd (snd g1))) in
        if fst g2 \<noteq> CHR ''a'' then Failed ''missing file for redirection''
        else l2_parseredirs
          (if fst g1 = CHR ''<'' then l2_redircmd cmd (mkcopy (fst (snd g2)) (fst (snd (snd g2)))) (CHR ''<'')
           else if fst g1 = CHR ''>'' then l2_redircmd cmd (mkcopy (fst (snd g2)) (fst (snd (snd g2)))) (CHR ''>'')
           else cmd) (snd (snd (snd g2)))
      else Parsed cmd (snd (peek ps ''<>'')))"
  by (subst l2_parseredirs.simps) (simp add: split_beta Let_def)

text \<open>The words of the command inside the redirections.\<close>

fun l2_argv :: "l2_cmd \<Rightarrow> string list" where
  "l2_argv (L2_EXEC argv) = argv"
| "l2_argv (L2_REDIR c f m d) = l2_argv c"
| "l2_argv (L2_PIPE a b) = []"

fun l2_simple :: "l2_cmd \<Rightarrow> bool" where
  "l2_simple (L2_EXEC argv) = True"
| "l2_simple (L2_REDIR c f m d) = l2_simple c"
| "l2_simple (L2_PIPE a b) = False"

lemma l2_token_length: "length (snd (snd (snd (l2_gettoken ps)))) \<le> length ps"
  using l2_gettoken_length by (metis prod.collapse)

lemma l2_snd_peek_length: "length (snd (peek ps toks)) \<le> length ps"
  using l2_peek_length by (metis prod.collapse)

lemma l2_parseredirs_ok:
  "l2_parseredirs cmd ps = Parsed c ps' \<Longrightarrow> length ps' \<le> length ps \<and> l2_argv c = l2_argv cmd \<and> l2_simple c = l2_simple cmd"
proof (induction "length ps" arbitrary: cmd ps c ps' rule: less_induct)
  case less
  define ps1 where "ps1 = snd (peek ps ''<>'')"
  define g1 where "g1 = l2_gettoken ps1"
  define g2 where "g2 = l2_gettoken (snd (snd (snd g1)))"
  have l: "length ps1 \<le> length ps" "length (snd (snd (snd g1))) \<le> length ps1"
    using l2_snd_peek_length [of ps] l2_token_length [of ps1] by (simp_all add: ps1_def g1_def)
  show ?case
  proof (cases "fst (peek ps ''<>'')")
    case False
    then show ?thesis using less.prems l(1) by (simp add: l2_parseredirs_step [of cmd ps] ps1_def)
  next
    case True
    let ?c = "if fst g1 = CHR ''<'' then l2_redircmd cmd (mkcopy (fst (snd g2)) (fst (snd (snd g2)))) (CHR ''<'')
      else if fst g1 = CHR ''>'' then l2_redircmd cmd (mkcopy (fst (snd g2)) (fst (snd (snd g2)))) (CHR ''>'') else cmd"
    have r: "fst g2 = CHR ''a''" "l2_parseredirs ?c (snd (snd (snd g2))) = Parsed c ps'"
      using less.prems True by (simp_all add: l2_parseredirs_step [of cmd ps] ps1_def g1_def g2_def Let_def split: if_splits)
    have "fst g2 \<noteq> NUL" using r(1) by (simp add: NUL_def)
    then have "length (snd (snd (snd g2))) < length (snd (snd (snd g1)))"
      unfolding g2_def using l2_gettoken_progress by (metis prod.collapse)
    then show ?thesis using less.hyps [OF _ r(2)] l by (auto simp: l2_redircmd_def)
  qed
qed

function l2_parseargs :: "l2_cmd \<Rightarrow> nat \<Rightarrow> string \<Rightarrow> l2_cmd parsed" where
  "l2_parseargs ret argc ps =
     (let (bar, ps) = peek ps ''|'' in
      if bar then Parsed ret ps
      else let (tok, q, eq, ps) = l2_gettoken ps in
        if tok = NUL then Parsed ret ps
        else if tok \<noteq> CHR ''a'' then Failed ''syntax error''
        else let ret = l2_add_arg (mkcopy q eq) ret; argc = argc + 1 in
          if argc \<ge> MAXARGS then Failed ''too many args''
          else bindP (l2_parseredirs ret ps) (\<lambda>ret ps. l2_parseargs ret argc ps))"
  by pat_completeness auto
termination
proof (relation "measure (\<lambda>(ret, argc, ps). length ps)", goal_cases)
  case (2 ret argc ps x bar ps1 y tok z q z1 eq ps2 ret1 argc1 ret2 ps3)
  then have "length ps2 < length ps1" using l2_gettoken_progress by metis
  moreover have "length ps1 \<le> length ps" "length ps3 \<le> length ps2" using 2 l2_peek_length l2_parseredirs_ok by (metis, blast)
  ultimately show ?case by simp
qed simp

definition l2_parseexec :: "string \<Rightarrow> l2_cmd parsed" where
  "l2_parseexec ps = bindP (l2_parseredirs (L2_EXEC []) ps) (\<lambda>ret ps. l2_parseargs ret 0 ps)"

declare l2_parseargs.simps [simp del]

lemma l2_parseargs_step:
  "l2_parseargs ret argc ps =
     (let ps1 = snd (peek ps ''|''); g = l2_gettoken ps1; ps2 = snd (snd (snd g)) in
      if fst (peek ps ''|'') then Parsed ret ps1
      else if fst g = NUL then Parsed ret ps2
      else if fst g \<noteq> CHR ''a'' then Failed ''syntax error''
      else if argc + 1 \<ge> MAXARGS then Failed ''too many args''
      else bindP (l2_parseredirs (l2_add_arg (mkcopy (fst (snd g)) (fst (snd (snd g)))) ret) ps2) (\<lambda>ret ps. l2_parseargs ret (argc + 1) ps))"
  by (subst l2_parseargs.simps) (simp add: split_beta Let_def)

lemma l2_argv_add: "l2_simple c \<Longrightarrow> l2_argv (l2_add_arg w c) = l2_argv c @ [w] \<and> l2_simple (l2_add_arg w c)"
  by (induction c) simp_all

lemma l2_parseargs_ok:
  "l2_parseargs ret argc ps = Parsed c ps' \<Longrightarrow> l2_simple ret \<Longrightarrow> argc = length (l2_argv ret) \<Longrightarrow> argc < MAXARGS \<Longrightarrow>
     length ps' \<le> length ps \<and> l2_simple c \<and> length (l2_argv c) < MAXARGS"
proof (induction "length ps" arbitrary: ret argc ps c ps' rule: less_induct)
  case less
  define ps1 where "ps1 = snd (peek ps ''|'')"
  define g where "g = l2_gettoken ps1"
  have l: "length ps1 \<le> length ps" "length (snd (snd (snd g))) \<le> length ps1"
    using l2_snd_peek_length [of ps] l2_token_length [of ps1] by (simp_all add: ps1_def g_def)
  show ?case
  proof (cases "fst (peek ps ''|'') \<or> fst g = NUL")
    case True
    then have "c = ret \<and> (ps' = ps1 \<or> ps' = snd (snd (snd g)))"
      using less.prems(1) by (auto simp: l2_parseargs_step [of ret argc ps] ps1_def g_def Let_def split: if_splits)
    then show ?thesis using less.prems(2-4) l by auto
  next
    case False
    let ?ret = "l2_add_arg (mkcopy (fst (snd g)) (fst (snd (snd g)))) ret"
    obtain ret2 ps3 where r: "argc + 1 < MAXARGS" "l2_parseredirs ?ret (snd (snd (snd g))) = Parsed ret2 ps3" "l2_parseargs ret2 (argc + 1) ps3 = Parsed c ps'"
      using less.prems(1) False by (auto simp: l2_parseargs_step [of ret argc ps] ps1_def g_def Let_def bindP_Parsed_iff split: if_splits)
    have "length (snd (snd (snd g))) < length ps1" unfolding g_def using False l2_gettoken_progress g_def by (metis prod.collapse)
    moreover note l2_parseredirs_ok [OF r(2)] l2_argv_add [OF less.prems(2)]
    ultimately show ?thesis using less.hyps [OF _ r(3)] r(1) l less.prems(3) by auto
  qed
qed

lemma l2_parseexec_ok:
  assumes "l2_parseexec ps = Parsed c ps'"
  shows "length ps' \<le> length ps \<and> l2_simple c \<and> length (l2_argv c) < MAXARGS"
proof -
  obtain ret ps1 where r: "l2_parseredirs (L2_EXEC []) ps = Parsed ret ps1" "l2_parseargs ret 0 ps1 = Parsed c ps'"
    using assms by (auto simp: l2_parseexec_def bindP_Parsed_iff)
  show ?thesis using l2_parseredirs_ok [OF r(1)] l2_parseargs_ok [OF r(2)] by (simp add: MAXARGS_def)
qed

function l2_parsepipe :: "string \<Rightarrow> l2_cmd parsed" where
  "l2_parsepipe ps =
     bindP (l2_parseexec ps) (\<lambda>cmd ps.
       let (bar, ps) = peek ps ''|'' in
       if bar then let (_, _, _, ps) = l2_gettoken ps in bindP (l2_parsepipe ps) (\<lambda>right ps. Parsed (L2_PIPE cmd right) ps)
       else Parsed cmd ps)"
  by pat_completeness auto
termination
proof (relation "measure length", goal_cases)
  case (2 ps cmd ps1 x bar ps2 y tok z q z1 eq ps3)
  then have "length ps1 \<le> length ps" using l2_parseexec_ok by blast
  moreover have "chr_at ps2 0 \<noteq> NUL" "skip_white ps2 = ps2" "length ps2 \<le> length ps1"
    using 2 skip_white_length [of ps1] by (auto simp: peek_def Let_def)
  moreover from this have "tok \<noteq> NUL" using 2 by (auto simp: l2_gettoken_def Let_def NUL_def split: if_splits)
  then have "length ps3 < length ps2" using 2 l2_gettoken_progress by metis
  ultimately show ?case by simp
qed simp

definition l2_parseline :: "string \<Rightarrow> l2_cmd parsed" where
  "l2_parseline ps = l2_parsepipe ps"

definition l2_parsecmd :: "string \<Rightarrow> l2_cmd parsed" where
  "l2_parsecmd s =
     bindP (l2_parseline s) (\<lambda>cmd ps.
       let (_, ps) = peek ps [] in if ps \<noteq> [] then Failed (''leftovers: '' @ ps) else Parsed cmd ps)"

section \<open>Running a command\<close>

text \<open>The system calls of \<^verbatim>\<open>runcmd\<close>, in order; after a successful \<^verbatim>\<open>execvp\<close> the rest does not happen.\<close>

datatype l2_call = Execvp string "string list" | Close nat | Open string l2_mode | Exit int

fun l2_runcmd :: "l2_cmd \<Rightarrow> l2_call list" where
  "l2_runcmd (L2_EXEC []) = [Exit 0]"
| "l2_runcmd (L2_EXEC (w # ws)) = [Execvp w (w # ws), Exit 0]"
| "l2_runcmd (L2_REDIR c file mode fd) = Close fd # Open file mode # l2_runcmd c"
| "l2_runcmd (L2_PIPE l r) = l2_runcmd l"

text \<open>The array \<^verbatim>\<open>argv\<close> of a command always has room for the null pointer behind the words; a line is a chain of such commands.\<close>

fun l2_fits :: "l2_cmd \<Rightarrow> bool" where
  "l2_fits (L2_PIPE l r) \<longleftrightarrow> l2_simple l \<and> length (l2_argv l) < MAXARGS \<and> l2_fits r"
| "l2_fits c \<longleftrightarrow> l2_simple c \<and> length (l2_argv c) < MAXARGS"

declare l2_parsepipe.simps [simp del]

lemma l2_fits_simple: "l2_simple c \<Longrightarrow> length (l2_argv c) < MAXARGS \<Longrightarrow> l2_fits c"
  by (cases c) simp_all

lemma l2_parsepipe_fits: "l2_parsepipe ps = Parsed c ps' \<Longrightarrow> l2_fits c"
proof (induction ps arbitrary: c ps' rule: l2_parsepipe.induct)
  case (1 ps)
  obtain cmd ps1 where e: "l2_parseexec ps = Parsed cmd ps1"
    using "1.prems" by (auto simp: l2_parsepipe.simps [of ps] bindP_Parsed_iff)
  note ok = l2_parseexec_ok [OF e]
  obtain bar ps2 where p: "peek ps1 ''|'' = (bar, ps2)" by fastforce
  obtain tok q eq ps3 where g: "l2_gettoken ps2 = (tok, q, eq, ps3)" by (cases "l2_gettoken ps2") auto
  show ?case
  proof (cases bar)
    case False
    then show ?thesis using "1.prems" e p ok l2_fits_simple by (auto simp: l2_parsepipe.simps [of ps])
  next
    case True
    then obtain right ps4 where r: "l2_parsepipe ps3 = Parsed right ps4" "c = L2_PIPE cmd right"
      using "1.prems" e p g by (auto simp: l2_parsepipe.simps [of ps] bindP_Parsed_iff)
    have "l2_fits right" using "1.IH" [of cmd ps1] e p g True r(1) by fastforce
    then show ?thesis using ok r(2) by simp
  qed
qed

lemma l2_parsecmd_fits: "l2_parsecmd s = Parsed c ps \<Longrightarrow> l2_fits c"
  using l2_parsepipe_fits by (auto simp: l2_parsecmd_def l2_parseline_def bindP_Parsed_iff split_beta Let_def split: if_splits)

text \<open>The right side of a pipe is parsed and never run.\<close>

lemma l2_pipe_runs_left_only: "l2_runcmd (L2_PIPE l r) = l2_runcmd (L2_PIPE l r')"
  by simp

end
