(* ===== verification/Spec2Isabelle.thy ===== *)
theory Spec2Isabelle
  imports Copyuvm Trap Log_Props Sync_Props Pipe_Props Bio_Props Sched_Steps Grep Shell_Roundtrip Uthread Bounded_Buffer Page_Sim_Props Syscall_Args Uprintf Kbd_Types Mp Umalloc_Props Text_Tools Canvas Wordheap Lab_Shell
begin

text \<open>
  A verification development for the xv6 kernel and the laboratory programs of this repository.
\<close>

end
